theory Spec2Isabelle
  imports Main "HOL-Library.Monad_Syntax"
begin

section \<open>The forbidden-cut table\<close>

text \<open>
  The analyser of \<^verbatim>\<open>check.hpp\<close> is embedded function by function.  Vertices are vector
  indices and are modelled as natural numbers; every other \<^verbatim>\<open>int\<close> of the source (path
  lengths, distances, sizes, table entries) is an integer.  The values that the program
  computes from a configuration are bounded by a small multiple of the sentinel
  \<^verbatim>\<open>INF = 10000\<close>, far from the limits of a 32-bit \<^verbatim>\<open>int\<close>.  The length \<open>k\<close> of the outer
  path is a parameter of \<^verbatim>\<open>canBeAlmostMinimal\<close> and \<^verbatim>\<open>checkShortCycle\<close>, and any \<^verbatim>\<open>int\<close> can
  be passed: there the sums and differences that contain \<open>k\<close> are taken in the 32-bit
  range, as the machine computes them (\<open>int32\<close>).  A failed \<^verbatim>\<open>assert\<close> aborts the
  program: a function that contains one, or calls one that does, returns an \<open>option\<close> and
  \<open>None\<close> is the abort.
\<close>

definition INF_const :: int where
  "INF_const = 10000"

definition int32 :: "int \<Rightarrow> int" where
  "int32 x = (x + 2147483648) mod 4294967296 - 2147483648"

lemma int32_id: "- 2147483648 \<le> x \<Longrightarrow> x \<le> 2147483647 \<Longrightarrow> int32 x = x"
  by (simp add: int32_def)

definition isForbiddenCut :: "int \<Rightarrow> int \<Rightarrow> bool" where
  "isForbiddenCut cutsize component_size =
     (if cutsize \<le> 4 then component_size > 0
      else if cutsize = 5 then component_size > 1
      else if cutsize = 6 then component_size > 3
      else if cutsize = 7 then component_size > 4
      else False)"

section \<open>The configuration and its metric\<close>

record Configuration =
  contract :: "(nat \<times> nat) list"
  is_reductable_inside :: "bool list"
  is_reductable_outside6 :: "bool list"
  is_reductable_outside7 :: "bool list"
  dist_contracted :: "int list list"
  representative :: "int list"
  length6 :: "int list list"
  length_oneedge6 :: "int list list"
  length7 :: "int list list"
  length_oneedge7 :: "int list list"
  all_paths :: "nat list list list list"
  conf_n :: nat
  conf_r :: nat
  VtoV :: "nat list list"
  dist :: "int list list"

text \<open>
  \<open>VtoV c ! v\<close> lists the \<^verbatim>\<open>std::set<int>\<close> of neighbours of \<open>v\<close> in the order in which the
  source iterates over it (ascending).  \<open>set2 d i j x\<close> is the assignment \<^verbatim>\<open>d[i][j] = x\<close>.
\<close>

definition set2 :: "'a list list \<Rightarrow> nat \<Rightarrow> nat \<Rightarrow> 'a \<Rightarrow> 'a list list" where
  "set2 d i j x = d[i := (d ! i)[j := x]]"

definition equivalent :: "Configuration \<Rightarrow> nat \<Rightarrow> nat \<Rightarrow> bool" where
  "equivalent c u v = (dist_contracted c ! v ! u = 0)"

definition calcRepresentative :: "Configuration \<Rightarrow> int list" where
  "calcRepresentative c =
     map (\<lambda>v. case find (\<lambda>u. equivalent c v u) [0..<conf_n c] of
                 None \<Rightarrow> - 1
               | Some u \<Rightarrow> int u)
         [0..<conf_n c]"

subsection \<open>All-pairs distances (\<^verbatim>\<open>WF\<close>)\<close>

definition WF_edges :: "Configuration \<Rightarrow> int list list" where
  "WF_edges c =
     fold (\<lambda>v d. fold (\<lambda>u d. set2 d v u 1) (VtoV c ! v) (set2 d v v 0))
          [0..<conf_n c]
          (replicate (conf_n c) (replicate (conf_n c) INF_const))"

fun WF_contract :: "(nat \<times> nat) list \<Rightarrow> int list list \<Rightarrow> int list list option" where
  "WF_contract [] d = Some d"
| "WF_contract (e # es) d =
     (if d ! fst e ! snd e = 1
      then WF_contract es (set2 (set2 d (fst e) (snd e) 0) (snd e) (fst e) 0)
      else None)"

definition WF_relax :: "nat \<Rightarrow> nat \<Rightarrow> nat \<Rightarrow> int list list \<Rightarrow> int list list" where
  "WF_relax k i j d = set2 d i j (min (d ! i ! j) (d ! i ! k + d ! k ! j))"

definition WF_loop :: "nat \<Rightarrow> int list list \<Rightarrow> int list list" where
  "WF_loop n d =
     fold (\<lambda>k. fold (\<lambda>i. fold (\<lambda>j. WF_relax k i j) [0..<n]) [0..<n]) [0..<n] d"

definition WF :: "Configuration \<Rightarrow> bool \<Rightarrow> int list list option" where
  "WF c after_contract =
     do {
       d \<leftarrow> (if after_contract then WF_contract (contract c) (WF_edges c)
             else Some (WF_edges c));
       Some (WF_loop (conf_n c) d)
     }"


subsection \<open>Loops that can abort\<close>

text \<open>
  \<open>for_each f xs s\<close> runs the loop body \<open>f\<close> over \<open>xs\<close>, threading the state and stopping
  at the first abort; \<open>any_first f xs\<close> is a loop that sets a flag and leaves with
  \<^verbatim>\<open>break\<close> (or \<^verbatim>\<open>return true\<close>) at the first element for which \<open>f\<close> holds.
\<close>

fun for_each :: "('a \<Rightarrow> 's \<Rightarrow> 's option) \<Rightarrow> 'a list \<Rightarrow> 's \<Rightarrow> 's option" where
  "for_each f [] s = Some s"
| "for_each f (x # xs) s = (case f x s of None \<Rightarrow> None | Some s' \<Rightarrow> for_each f xs s')"

fun any_first :: "('a \<Rightarrow> bool option) \<Rightarrow> 'a list \<Rightarrow> bool option" where
  "any_first f [] = Some False"
| "any_first f (x # xs) =
     (case f x of None \<Rightarrow> None | Some b \<Rightarrow> if b then Some True else any_first f xs)"

subsection \<open>Shortest-path enumeration (\<^verbatim>\<open>shortestPaths\<close>)\<close>

text \<open>
  The first \<^verbatim>\<open>while\<close> loop is a 0-1 breadth-first search on a deque, the second one
  extends the stored paths along tight edges.  An index outside the vectors is undefined
  behaviour in the source; the two loops report it as an abort.
\<close>

definition contract_set :: "Configuration \<Rightarrow> bool \<Rightarrow> (nat \<times> nat) set" where
  "contract_set c after_contract =
     (if after_contract then set (contract c) \<union> set (map prod.swap (contract c)) else {})"

definition sp_relax :: "(nat \<times> nat) set \<Rightarrow> nat \<Rightarrow> nat \<Rightarrow> int list \<times> nat list \<Rightarrow> int list \<times> nat list" where
  "sp_relax cs v u = (\<lambda>(dist, que).
     if (u, v) \<in> cs
     then (if dist ! v < dist ! u then (dist[u := dist ! v], u # que) else (dist, que))
     else (if dist ! v + 1 < dist ! u then (dist[u := dist ! v + 1], que @ [u]) else (dist, que)))"

definition sp_slack :: "int list \<Rightarrow> nat" where
  "sp_slack ds = (\<Sum>x\<leftarrow>ds. nat (x - Min (set ds)))"

lemma Min_update:
  assumes "u < length ds" "Min (set ds) \<le> x" "x < ds ! u"
  shows "Min (set (ds[u := x])) = Min (set ds)"
proof -
  have ne: "set ds \<noteq> {}" using assms(1) by auto
  obtain w where w: "w < length ds" "ds ! w = Min (set ds)"
    using Min_in[OF _ ne] by (auto simp: in_set_conv_nth)
  have "w \<noteq> u" using w assms by auto
  then have "Min (set ds) \<in> set (ds[u := x])"
    using w by (metis length_list_update nth_list_update_neq nth_mem)
  moreover have "\<forall>y \<in> set (ds[u := x]). Min (set ds) \<le> y"
  proof
    fix y assume "y \<in> set (ds[u := x])"
    then have "y = x \<or> y \<in> set ds" using set_update_subset_insert by fastforce
    then show "Min (set ds) \<le> y" using assms(2) by auto
  qed
  ultimately show ?thesis by (intro Min_eqI) auto
qed

lemma sp_slack_update:
  assumes "u < length ds" "Min (set ds) \<le> x" "x < ds ! u"
  shows "sp_slack (ds[u := x]) < sp_slack ds"
proof -
  let ?m = "Min (set ds)"
  let ?f = "\<lambda>y. nat (y - ?m)"
  have "sp_slack (ds[u := x]) = sum_list (map ?f (ds[u := x]))"
    by (simp add: sp_slack_def Min_update[OF assms])
  also have "\<dots> = sum_list ((map ?f ds)[u := ?f x])" by (simp add: map_update)
  also have "\<dots> = sum_list (map ?f ds) + ?f x - ?f (ds ! u)"
    using assms(1) by (simp add: sum_list_update)
  finally have eq: "sp_slack (ds[u := x]) = sp_slack ds + ?f x - ?f (ds ! u)"
    by (simp add: sp_slack_def)
  have "?f (ds ! u) \<in> set (map ?f ds)" using assms(1) by simp
  then have "?f (ds ! u) \<le> sp_slack ds"
    unfolding sp_slack_def by (rule member_le_sum_list) simp
  moreover have "?f x < ?f (ds ! u)" using assms by simp
  ultimately show ?thesis using eq by linarith
qed


lemma sp_relax_fold:
  assumes "v < length ds" "\<forall>u\<in>set us. u < length ds"
    and "fold (sp_relax cs v) us (ds, que) = (ds', que')"
  shows "length ds' = length ds \<and>
         ((ds' = ds \<and> que' = que) \<or> sp_slack ds' < sp_slack ds)"
  using assms
proof (induction us arbitrary: ds que)
  case Nil
  then show ?case by simp
next
  case (Cons u us)
  obtain ds1 que1 where st: "sp_relax cs v u (ds, que) = (ds1, que1)"
    by (cases "sp_relax cs v u (ds, que)")
  have u: "u < length ds" using Cons.prems(2) by simp
  have mv: "Min (set ds) \<le> ds ! v" using Cons.prems(1) by simp
  have one: "length ds1 = length ds \<and> ((ds1 = ds \<and> que1 = que) \<or> sp_slack ds1 < sp_slack ds)"
    using st u mv
    by (auto simp: sp_relax_def split: if_splits intro!: sp_slack_update)
  have rest: "fold (sp_relax cs v) us (ds1, que1) = (ds', que')"
    using Cons.prems(3) st by simp
  have "length ds' = length ds1 \<and> ((ds' = ds1 \<and> que' = que1) \<or> sp_slack ds' < sp_slack ds1)"
    using Cons.IH[OF _ _ rest] Cons.prems(1,2) one by simp
  with one show ?case by auto
qed

function sp_dist_loop ::
  "nat list list \<Rightarrow> (nat \<times> nat) set \<Rightarrow> int list \<Rightarrow> nat list \<Rightarrow> int list option" where
  "sp_dist_loop adj cs ds [] = Some ds"
| "sp_dist_loop adj cs ds (v # que) =
     (if v < length ds \<and> (\<forall>u\<in>set (adj ! v). u < length ds)
      then (case fold (sp_relax cs v) (adj ! v) (ds, que) of
              (ds', que') \<Rightarrow> sp_dist_loop adj cs ds' que')
      else None)"
  by pat_completeness auto
termination
  apply (relation "measures [\<lambda>(adj, cs, ds, que). sp_slack ds, \<lambda>(adj, cs, ds, que). length que]")
   apply simp
  subgoal for adj cs ds v que x y
    using sp_relax_fold[of v ds "adj ! v" cs que x y]
    by (cases "fold (sp_relax cs v) (adj ! v) (ds, que)") auto
  done

declare sp_dist_loop.simps [simp del]

definition sp_extend :: "nat \<Rightarrow> nat list \<Rightarrow> nat list list list \<times> bool \<Rightarrow> nat list list list \<times> bool" where
  "sp_extend u path = (\<lambda>(paths, update).
     if path @ [u] \<in> set (paths ! u) \<or> u \<in> set path then (paths, update)
     else (paths[u := paths ! u @ [path @ [u]]], True))"

definition sp_visit ::
  "(nat \<times> nat) set \<Rightarrow> int list \<Rightarrow> nat \<Rightarrow> nat \<Rightarrow> nat list list list \<times> nat list
     \<Rightarrow> nat list list list \<times> nat list" where
  "sp_visit cs ds v u = (\<lambda>(paths, que).
     if ds ! u = ds ! v + 1 \<or> (ds ! u = ds ! v \<and> (u, v) \<in> cs)
     then (case fold (sp_extend u) (paths ! v) (paths, False) of
             (paths', update) \<Rightarrow>
               if update
               then (if ds ! u = ds ! v + 1 then (paths', que @ [u]) else (paths', u # que))
               else (paths', que))
     else (paths, que))"

definition sp_pool :: "nat list list list \<Rightarrow> nat list set" where
  "sp_pool paths =
     {p @ e | p e. p \<in> \<Union>(set ` set paths) \<and> distinct e \<and> set e \<subseteq> {..<length paths} - set p}"

definition sp_missing :: "nat list list list \<Rightarrow> (nat \<times> nat list) set" where
  "sp_missing paths = {(u, q). u < length paths \<and> q \<in> sp_pool paths \<and> q \<notin> set (paths ! u)}"

lemma finite_sp_pool: "finite (sp_pool paths)"
proof -
  have "sp_pool paths \<subseteq>
        (\<Union>p\<in>\<Union>(set ` set paths). (\<lambda>e. p @ e) ` {e. set e \<subseteq> {..<length paths} \<and> distinct e})"
    by (auto simp: sp_pool_def)
  moreover have "finite \<dots>"
    by (intro finite_UN_I finite_imageI finite_subset_distinct) auto
  ultimately show ?thesis by (rule finite_subset)
qed

lemma finite_sp_missing: "finite (sp_missing paths)"
proof -
  have "sp_missing paths \<subseteq> {..<length paths} \<times> sp_pool paths"
    by (auto simp: sp_missing_def)
  then show ?thesis by (rule finite_subset) (simp add: finite_sp_pool)
qed

lemma sp_missing_add:
  assumes u: "u < length paths" and p: "p \<in> \<Union>(set ` set paths)"
    and fresh: "u \<notin> set p" "p @ [u] \<notin> set (paths ! u)"
  shows "sp_missing (paths[u := paths ! u @ [p @ [u]]]) \<subset> sp_missing paths"
proof -
  let ?paths' = "paths[u := paths ! u @ [p @ [u]]]"
  have un: "\<Union>(set ` set ?paths') \<subseteq> insert (p @ [u]) (\<Union>(set ` set paths))"
  proof
    fix q assume "q \<in> \<Union>(set ` set ?paths')"
    then obtain xs where xs: "xs \<in> set ?paths'" "q \<in> set xs" by auto
    from xs(1) obtain w where "w < length paths" "?paths' ! w = xs"
      by (auto simp: in_set_conv_nth)
    with xs(2) have w: "w < length paths" "q \<in> set (?paths' ! w)" by auto
    show "q \<in> insert (p @ [u]) (\<Union>(set ` set paths))"
    proof (cases "w = u")
      case True
      then have "q = p @ [u] \<or> q \<in> set (paths ! u)" using w by auto
      then show ?thesis using nth_mem[OF u] by auto
    next
      case False
      then have "q \<in> set (paths ! w)" using w by simp
      then show ?thesis using nth_mem[OF w(1)] by auto
    qed
  qed
  have pool: "sp_pool ?paths' \<subseteq> sp_pool paths"
  proof
    fix q assume "q \<in> sp_pool ?paths'"
    then obtain p' e where q: "q = p' @ e" "p' \<in> \<Union>(set ` set ?paths')" "distinct e"
      "set e \<subseteq> {..<length paths} - set p'"
      by (auto simp: sp_pool_def)
    from q(2) un have "p' = p @ [u] \<or> p' \<in> \<Union>(set ` set paths)" by auto
    then show "q \<in> sp_pool paths"
    proof
      assume p': "p' = p @ [u]"
      have "q = p @ (u # e)" using q(1) p' by simp
      moreover have "distinct (u # e)" using q(3,4) p' by auto
      moreover have "set (u # e) \<subseteq> {..<length paths} - set p" using q(4) p' u fresh(1) by auto
      ultimately show ?thesis using p unfolding sp_pool_def by blast
    next
      assume "p' \<in> \<Union>(set ` set paths)"
      then show ?thesis using q unfolding sp_pool_def by blast
    qed
  qed
  have mono: "set (paths ! w) \<subseteq> set (?paths' ! w)" if "w < length paths" for w
    using that by (cases "w = u") auto
  have sub: "sp_missing ?paths' \<subseteq> sp_missing paths"
    using pool mono by (auto simp: sp_missing_def)
  have "p @ [u] \<in> sp_pool paths"
    unfolding sp_pool_def using p u fresh(1) by (intro CollectI exI[of _ p] exI[of _ "[u]"]) auto
  then have "(u, p @ [u]) \<in> sp_missing paths" using u fresh(2) by (simp add: sp_missing_def)
  moreover have "(u, p @ [u]) \<notin> sp_missing ?paths'" using u by (simp add: sp_missing_def)
  ultimately show ?thesis using sub by blast
qed


lemma sp_extend_fold:
  assumes "u < length paths" "set ps \<subseteq> \<Union>(set ` set paths)"
    and "fold (sp_extend u) ps (paths, upd) = (paths', upd')"
  shows "length paths' = length paths \<and> \<Union>(set ` set paths) \<subseteq> \<Union>(set ` set paths') \<and>
         ((paths' = paths \<and> upd' = upd) \<or> sp_missing paths' \<subset> sp_missing paths)"
  using assms
proof (induction ps arbitrary: paths upd)
  case Nil
  then show ?case by simp
next
  case (Cons p ps)
  obtain paths1 upd1 where st: "sp_extend u p (paths, upd) = (paths1, upd1)"
    by (cases "sp_extend u p (paths, upd)")
  have p: "p \<in> \<Union>(set ` set paths)" using Cons.prems(2) by simp
  have one: "length paths1 = length paths \<and> \<Union>(set ` set paths) \<subseteq> \<Union>(set ` set paths1) \<and>
         ((paths1 = paths \<and> upd1 = upd) \<or> sp_missing paths1 \<subset> sp_missing paths)"
  proof (cases "p @ [u] \<in> set (paths ! u) \<or> u \<in> set p")
    case True
    then show ?thesis using st by (simp add: sp_extend_def)
  next
    case False
    then have eq: "paths1 = paths[u := paths ! u @ [p @ [u]]]" using st by (simp add: sp_extend_def)
    have "\<Union>(set ` set paths) \<subseteq> \<Union>(set ` set paths1)"
    proof
      fix q assume "q \<in> \<Union>(set ` set paths)"
      then obtain xs where xs: "xs \<in> set paths" "q \<in> set xs" by auto
      from xs(1) obtain w where w: "w < length paths" "paths ! w = xs"
        by (auto simp: in_set_conv_nth)
      have "q \<in> set (paths1 ! w)" using xs(2) w eq by (cases "w = u") auto
      moreover have "paths1 ! w \<in> set paths1" using w(1) eq by simp
      ultimately show "q \<in> \<Union>(set ` set paths1)" by blast
    qed
    then show ?thesis using sp_missing_add[OF Cons.prems(1) p] False eq by simp
  qed
  have rest: "fold (sp_extend u) ps (paths1, upd1) = (paths', upd')"
    using Cons.prems(3) st by simp
  have u1: "u < length paths1" using one Cons.prems(1) by simp
  have ps1: "set ps \<subseteq> \<Union>(set ` set paths1)" using one Cons.prems(2) by auto
  have two: "length paths' = length paths1 \<and> \<Union>(set ` set paths1) \<subseteq> \<Union>(set ` set paths') \<and>
         ((paths' = paths1 \<and> upd' = upd1) \<or> sp_missing paths' \<subset> sp_missing paths1)"
    by (rule Cons.IH[OF u1 ps1 rest])
  from one have o1: "length paths1 = length paths"
    and o2: "\<Union>(set ` set paths) \<subseteq> \<Union>(set ` set paths1)"
    and o3: "(paths1 = paths \<and> upd1 = upd) \<or> sp_missing paths1 \<subset> sp_missing paths"
    by blast+
  from two have t1: "length paths' = length paths1"
    and t2: "\<Union>(set ` set paths1) \<subseteq> \<Union>(set ` set paths')"
    and t3: "(paths' = paths1 \<and> upd' = upd1) \<or> sp_missing paths' \<subset> sp_missing paths1"
    by blast+
  have "\<Union>(set ` set paths) \<subseteq> \<Union>(set ` set paths')" using o2 t2 by (rule subset_trans)
  moreover have "(paths' = paths \<and> upd' = upd) \<or> sp_missing paths' \<subset> sp_missing paths"
    using o3 t3 psubset_trans by metis
  ultimately show ?case using o1 t1 by simp
qed

lemma sp_visit_step:
  assumes "v < length paths" "u < length paths"
    and "sp_visit cs ds v u (paths, que) = (paths', que')"
  shows "length paths' = length paths \<and>
         ((paths' = paths \<and> que' = que) \<or> sp_missing paths' \<subset> sp_missing paths)"
proof (cases "ds ! u = ds ! v + 1 \<or> (ds ! u = ds ! v \<and> (u, v) \<in> cs)")
  case False
  then have "paths' = paths \<and> que' = que" using assms(3) by (auto simp: sp_visit_def)
  then show ?thesis by simp
next
  case True
  obtain paths1 upd1 where f: "fold (sp_extend u) (paths ! v) (paths, False) = (paths1, upd1)"
    by (cases "fold (sp_extend u) (paths ! v) (paths, False)")
  have "set (paths ! v) \<subseteq> \<Union>(set ` set paths)" using nth_mem[OF assms(1)] by auto
  from sp_extend_fold[OF assms(2) this f]
  have one: "length paths1 = length paths"
    "(paths1 = paths \<and> upd1 = False) \<or> sp_missing paths1 \<subset> sp_missing paths"
    by auto
  have "paths' = paths1 \<and> (\<not> upd1 \<longrightarrow> que' = que)"
    using assms(3) True f by (auto simp: sp_visit_def split: if_splits)
  then show ?thesis using one by auto
qed

lemma sp_visit_fold:
  assumes "v < length paths" "\<forall>u\<in>set us. u < length paths"
    and "fold (sp_visit cs ds v) us (paths, que) = (paths', que')"
  shows "length paths' = length paths \<and>
         ((paths' = paths \<and> que' = que) \<or> sp_missing paths' \<subset> sp_missing paths)"
  using assms
proof (induction us arbitrary: paths que)
  case Nil
  then show ?case by simp
next
  case (Cons u us)
  obtain paths1 que1 where st: "sp_visit cs ds v u (paths, que) = (paths1, que1)"
    by (cases "sp_visit cs ds v u (paths, que)")
  have one: "length paths1 = length paths \<and>
         ((paths1 = paths \<and> que1 = que) \<or> sp_missing paths1 \<subset> sp_missing paths)"
    using sp_visit_step[OF _ _ st] Cons.prems(1,2) by simp
  have rest: "fold (sp_visit cs ds v) us (paths1, que1) = (paths', que')"
    using Cons.prems(3) st by simp
  have v1: "v < length paths1" and us1: "\<forall>u\<in>set us. u < length paths1"
    using one Cons.prems(1,2) by simp_all
  have two: "length paths' = length paths1 \<and>
         ((paths' = paths1 \<and> que' = que1) \<or> sp_missing paths' \<subset> sp_missing paths1)"
    by (rule Cons.IH[OF v1 us1 rest])
  from one have o1: "length paths1 = length paths"
    and o3: "(paths1 = paths \<and> que1 = que) \<or> sp_missing paths1 \<subset> sp_missing paths"
    by blast+
  from two have t1: "length paths' = length paths1"
    and t3: "(paths' = paths1 \<and> que' = que1) \<or> sp_missing paths' \<subset> sp_missing paths1"
    by blast+
  have "(paths' = paths \<and> que' = que) \<or> sp_missing paths' \<subset> sp_missing paths"
    using o3 t3 psubset_trans by metis
  then show ?case using o1 t1 by simp
qed

function sp_paths_loop ::
  "nat list list \<Rightarrow> (nat \<times> nat) set \<Rightarrow> int list \<Rightarrow> nat list list list \<Rightarrow> nat list
     \<Rightarrow> nat list list list option" where
  "sp_paths_loop adj cs ds paths [] = Some paths"
| "sp_paths_loop adj cs ds paths (v # que) =
     (if v < length paths \<and> (\<forall>u\<in>set (adj ! v). u < length paths)
      then (case fold (sp_visit cs ds v) (adj ! v) (paths, que) of
              (paths', que') \<Rightarrow> sp_paths_loop adj cs ds paths' que')
      else None)"
  by pat_completeness auto
termination
  apply (relation "inv_image (finite_psubset <*lex*> less_than)
                     (\<lambda>(adj, cs, ds, paths, que). (sp_missing paths, length que))")
   apply auto[1]
  subgoal for adj cs ds paths v que x y
  proof -
    assume g: "v < length paths \<and> (\<forall>u\<in>set (adj ! v). u < length paths)"
      and "(x, y) = fold (sp_visit cs ds v) (adj ! v) (paths, que)"
    then have f: "fold (sp_visit cs ds v) (adj ! v) (paths, que) = (x, y)" by simp
    have "(x = paths \<and> y = que) \<or> sp_missing x \<subset> sp_missing paths"
      using sp_visit_fold[OF _ _ f] g by blast
    then show ?thesis
      by (auto simp: finite_psubset_def finite_sp_missing)
  qed
  done

declare sp_paths_loop.simps [simp del]

definition unique_paths :: "nat list list \<Rightarrow> nat list list" where
  "unique_paths ps = fold (\<lambda>path acc. if path \<in> set acc then acc else acc @ [path]) ps []"

definition shortestPaths :: "Configuration \<Rightarrow> nat \<Rightarrow> nat \<Rightarrow> bool \<Rightarrow> nat list list option" where
  "shortestPaths c s t after_contract =
     (if \<not> (s < conf_n c \<and> t < conf_n c) then None
      else do {
        let cs = contract_set c after_contract;
        ds \<leftarrow> sp_dist_loop (VtoV c) cs ((replicate (conf_n c) INF_const)[s := 0]) [s];
        paths \<leftarrow> sp_paths_loop (VtoV c) cs ds ((replicate (conf_n c) [])[s := [[s]]]) [s];
        Some (unique_paths (paths ! t))
      })"

subsection \<open>Paths of length at most 7 between ring vertices (\<^verbatim>\<open>calculatePaths\<close>)\<close>

text \<open>
  The recursion of the source stops when the path has 8 vertices; the counter \<open>m\<close> is
  the number of vertices that may still be appended, 7 at the first call.
\<close>

fun calculatePaths_dfs :: "nat list list \<Rightarrow> nat \<Rightarrow> nat \<Rightarrow> nat \<Rightarrow> nat list \<Rightarrow> nat list list" where
  "calculatePaths_dfs adj q 0 v path = (if v = q then [path @ [v]] else [])"
| "calculatePaths_dfs adj q (Suc m) v path =
     (if v = q then [path @ [v]]
      else concat (map (\<lambda>u. if u \<in> set (path @ [v]) then []
                              else calculatePaths_dfs adj q m u (path @ [v]))
                       (adj ! v)))"

definition calculatePaths :: "Configuration \<Rightarrow> nat \<Rightarrow> nat \<Rightarrow> nat list list" where
  "calculatePaths c p q = calculatePaths_dfs (VtoV c) q 7 p []"

section \<open>Components\<close>

text \<open>
  The recursive depth-first searches of the source are written with their call stack:
  the stack holds the vertices still to be looked at, the neighbours of a newly marked
  vertex in front.
\<close>

lemma filter_update_less:
  assumes "v < length xs" "P (xs ! v)" "\<not> P x"
  shows "length (filter P (xs[v := x])) < length (filter P xs)"
proof -
  have "{i. i < length xs \<and> P (xs[v := x] ! i)} = {i. i < length xs \<and> P (xs ! i)} - {v}"
    using assms by (auto simp: nth_list_update)
  moreover have "v \<in> {i. i < length xs \<and> P (xs ! i)}" using assms by simp
  moreover have "finite {i. i < length xs \<and> P (xs ! i)}" by simp
  ultimately have "card {i. i < length xs \<and> P (xs[v := x] ! i)} < card {i. i < length xs \<and> P (xs ! i)}"
    by (metis card_Diff1_less)
  then show ?thesis by (simp add: length_filter_conv_card)
qed

function getComponent_dfs ::
  "nat list list \<Rightarrow> nat set \<Rightarrow> nat list \<Rightarrow> int list \<Rightarrow> nat list \<Rightarrow> (int list \<times> nat list) option" where
  "getComponent_dfs adj cutset [] component_id component = Some (component_id, component)"
| "getComponent_dfs adj cutset (v # stack) component_id component =
     (if v \<in> cutset then getComponent_dfs adj cutset stack component_id component
      else if \<not> v < length component_id then None
      else if component_id ! v \<noteq> - 1 then getComponent_dfs adj cutset stack component_id component
      else getComponent_dfs adj cutset (adj ! v @ stack) (component_id[v := 0]) (component @ [v]))"
  by pat_completeness auto
termination
  by (relation "measures [\<lambda>(adj, cutset, stack, component_id, component).
                            length (filter (\<lambda>x. x = - 1) component_id),
                          \<lambda>(adj, cutset, stack, component_id, component). length stack]")
     (auto intro: filter_update_less)

declare getComponent_dfs.simps [simp del]

function componentId_dfs ::
  "nat list list \<Rightarrow> nat set \<Rightarrow> nat \<Rightarrow> nat list \<Rightarrow> int list \<Rightarrow> int list option" where
  "componentId_dfs adj cutset cnum [] component_id = Some component_id"
| "componentId_dfs adj cutset cnum (u # stack) component_id =
     (if u \<in> cutset then componentId_dfs adj cutset cnum stack component_id
      else if \<not> u < length component_id then None
      else if component_id ! u \<noteq> - 1 then componentId_dfs adj cutset cnum stack component_id
      else componentId_dfs adj cutset cnum (adj ! u @ stack) (component_id[u := int cnum]))"
  by pat_completeness auto
termination
  by (relation "measures [\<lambda>(adj, cutset, cnum, stack, component_id).
                            length (filter (\<lambda>x. x = - 1) component_id),
                          \<lambda>(adj, cutset, cnum, stack, component_id). length stack]")
     (auto intro: filter_update_less)

declare componentId_dfs.simps [simp del]


text \<open>
  \<open>ring_arc r p q\<close> lists the ring vertices \<open>(p+1) mod r, (p+2) mod r, \<dots>\<close> up to but not
  including \<open>q\<close>: the values of the loop variable of
  \<^verbatim>\<open>for (int v = (p + 1) % r_; v != q; v = (v + 1) % r_)\<close> for ring vertices \<open>p \<noteq> q\<close>.
\<close>

definition ring_arc :: "nat \<Rightarrow> nat \<Rightarrow> nat \<Rightarrow> nat list" where
  "ring_arc r p q = map (\<lambda>i. (p + 1 + i) mod r) [0..<(q + r - (p + 1)) mod r]"

definition getComponent :: "Configuration \<Rightarrow> nat list \<Rightarrow> nat list option" where
  "getComponent c pqpath =
     (if pqpath = [] then None
      else let p = hd pqpath; q = last pqpath in
        if \<not> (p \<noteq> q \<and> p < conf_r c \<and> q < conf_r c) then None
        else map_option snd
               (for_each (\<lambda>v (component_id, component).
                            getComponent_dfs (VtoV c) (set pqpath) [v] component_id component)
                         (ring_arc (conf_r c) p q)
                         (replicate (conf_n c) (- 1), [])))"

definition getComponent_pair :: "Configuration \<Rightarrow> nat list \<Rightarrow> nat list \<Rightarrow> nat list option" where
  "getComponent_pair c q1p2_path q2p1_path =
     do {
       component2 \<leftarrow> getComponent c q1p2_path;
       component1 \<leftarrow> getComponent c (rev q2p1_path);
       Some (filter (\<lambda>v. v \<notin> set component2) component1)
     }"

definition getComponent2 :: "Configuration \<Rightarrow> nat list \<Rightarrow> nat list \<Rightarrow> nat list option" where
  "getComponent2 c q1p2_path q2p1_path =
     do {
       g1 \<leftarrow> getComponent c q1p2_path;
       g2 \<leftarrow> getComponent c q2p1_path;
       let (component2, component) =
             fold (\<lambda>v (component2, component).
                     if v \<in> set component2 then (removeAll v component2, component)
                     else (component2, component @ [v]))
                  g2 (sort (remdups g1), []);
       Some (component @ component2)
     }"

definition count_ring_inside :: "Configuration \<Rightarrow> nat list \<Rightarrow> int \<times> int" where
  "count_ring_inside c component =
     (int (length (filter (\<lambda>v. v < conf_r c) component)),
      int (length (filter (\<lambda>v. \<not> v < conf_r c \<and> v \<ge> conf_r c) component)))"

definition sizeOfVertices :: "Configuration \<Rightarrow> nat list \<Rightarrow> (int \<times> int) option" where
  "sizeOfVertices c pqpath = map_option (count_ring_inside c) (getComponent c pqpath)"

definition sizeOfVertices_pair :: "Configuration \<Rightarrow> nat list \<Rightarrow> nat list \<Rightarrow> (int \<times> int) option" where
  "sizeOfVertices_pair c q1p2_path q2p1_path =
     map_option (count_ring_inside c) (getComponent_pair c q1p2_path q2p1_path)"

definition sizeOfVertices2 :: "Configuration \<Rightarrow> nat list \<Rightarrow> nat list \<Rightarrow> (int \<times> int) option" where
  "sizeOfVertices2 c q1p2_path q2p1_path =
     map_option (count_ring_inside c) (getComponent2 c q1p2_path q2p1_path)"

section \<open>Short cycles\<close>

definition number_in_ring :: "Configuration \<Rightarrow> nat list \<Rightarrow> int" where
  "number_in_ring c path =
     int (length (filter (\<lambda>i. path ! i < conf_r c \<and> path ! (i + 1) < conf_r c)
                         [0..<length path - 1]))"

definition ring_ends :: "Configuration \<Rightarrow> nat list \<Rightarrow> bool" where
  "ring_ends c path = (path \<noteq> [] \<and> hd path < conf_r c \<and> last path < conf_r c)"

definition canBeAlmostMinimal :: "Configuration \<Rightarrow> nat list \<Rightarrow> int \<Rightarrow> int \<Rightarrow> bool option" where
  "canBeAlmostMinimal c path k cutSize =
     (if \<not> ring_ends c path then None
      else let number_in_ring = number_in_ring c path;
               pathlen = int (length path) - 1 in
        if \<not> pathlen \<ge> 1 then None
        else Some ((number_in_ring = pathlen \<and> int32 (pathlen + k) \<ge> 6) \<or>
                   ((pathlen \<le> 3 \<or> number_in_ring \<ge> pathlen - 3) \<and>
                    int32 (pathlen + k) = 7 \<and> cutSize = 6)))"

definition canBeAlmostMinimal_pair ::
  "Configuration \<Rightarrow> nat list \<Rightarrow> nat list \<Rightarrow> int \<Rightarrow> int \<Rightarrow> int \<Rightarrow> bool option" where
  "canBeAlmostMinimal_pair c path1 path2 k1 k2 cutSize =
     (if \<not> ring_ends c path1 then None
      else if \<not> ring_ends c path2 then None
      else let number_in_ring = number_in_ring c path1 + number_in_ring c path2;
               pathlen = (int (length path1) - 1) + (int (length path2) - 1);
               k = k1 + k2 in
        Some ((number_in_ring = pathlen \<and> pathlen + k \<ge> 6) \<or>
              ((pathlen \<le> 3 \<or> number_in_ring \<ge> pathlen - 3) \<and>
               pathlen + k = 7 \<and> cutSize = 6)))"

definition canBeAlmostMinimal2 ::
  "Configuration \<Rightarrow> nat list \<Rightarrow> nat list \<Rightarrow> int \<Rightarrow> int \<Rightarrow> int \<Rightarrow> bool option" where
  "canBeAlmostMinimal2 c path1 path2 k1 k2 cutSize =
     (if \<not> ring_ends c path1 then None
      else if \<not> ring_ends c path2 then None
      else let pathlen1 = int (length path1) - 1;
               pathlen2 = int (length path2) - 1;
               num_inside = k1 + (pathlen1 - number_in_ring c path1)
                               + (pathlen2 - number_in_ring c path2);
               l = pathlen1 + pathlen2 + k1 + k2 in
        Some ((num_inside = 0 \<and> l \<ge> 6) \<or> (num_inside \<le> 3 \<and> l = 7 \<and> cutSize = 6)))"

definition cut_size :: "int \<Rightarrow> int \<Rightarrow> int \<Rightarrow> int" where
  "cut_size s t k = max (s - max k 0 + 1) 0 div 2 + t"

definition checkShortCycle_path ::
  "Configuration \<Rightarrow> nat \<Rightarrow> int \<Rightarrow> int \<Rightarrow> nat list \<Rightarrow> bool option" where
  "checkShortCycle_path c a k cutSize R =
     do {
       almost \<leftarrow> canBeAlmostMinimal c R k cutSize;
       if almost then Some False
       else do {
         let m = int (length R) - 1;
         (s, t) \<leftarrow> sizeOfVertices c R;
         let sz = cut_size s t (int32 (k - 1));
         Some (isForbiddenCut (int32 (k + m)) sz \<or>
               (((k = 2 \<and> m = 3) \<or> (k = 1 \<and> m = 4)) \<and> s = 2 \<and> t = 0 \<and>
                int (length (VtoV c ! ((a + 1) mod conf_r c))) \<le> 4 \<and>
                int (length (VtoV c ! ((a + 2) mod conf_r c))) \<le> 4))
       }
     }"

definition checkShortCycle :: "Configuration \<Rightarrow> nat \<Rightarrow> nat \<Rightarrow> int \<Rightarrow> int \<Rightarrow> bool option" where
  "checkShortCycle c a b k cutSize =
     (if \<not> (a < conf_r c \<and> b < conf_r c \<and> a \<noteq> b) then None
      else any_first (checkShortCycle_path c a k cutSize) (all_paths c ! a ! b))"


section \<open>Cut reductions inside the configuration\<close>

definition cutset_of :: "Configuration \<Rightarrow> nat list \<Rightarrow> nat set" where
  "cutset_of c cut_vs =
     set cut_vs \<union> {u. u \<in> set [0..<conf_n c] \<and> (\<exists>v\<in>set cut_vs. equivalent c v u)}"

definition componentIdEquivalence :: "Configuration \<Rightarrow> nat list \<Rightarrow> int list option" where
  "componentIdEquivalence c cut_vs =
     (let cutset = cutset_of c cut_vs in
      do {
        component_id \<leftarrow>
          for_each (\<lambda>v component_id.
                      if v \<notin> cutset
                      then componentId_dfs (VtoV c) cutset 0 (VtoV c ! v) (component_id[v := 0])
                      else Some component_id)
                   [0..<conf_r c] (replicate (conf_n c) (- 1));
        (component_id, num_component) \<leftarrow>
          for_each (\<lambda>v (component_id, num_component).
                      if v \<notin> cutset \<and> component_id ! v = - 1
                      then map_option (\<lambda>ids. (ids, num_component + 1))
                             (componentId_dfs (VtoV c) cutset num_component (VtoV c ! v)
                                (component_id[v := int num_component]))
                      else Some (component_id, num_component))
                   [conf_r c..<conf_n c] (component_id, 1);
        Some component_id
      })"

definition updateIsReductable :: "Configuration \<Rightarrow> bool list \<Rightarrow> int list \<Rightarrow> bool list \<Rightarrow> bool list" where
  "updateIsReductable c is_reductable component_id is_ring =
     (let is_reducing_component =
            fold (\<lambda>v irc. if component_id ! v \<noteq> - 1 \<and> is_ring ! v
                           then irc[nat (component_id ! v) := False] else irc)
                 [0..<conf_n c] (replicate (conf_n c) True)
      in fold (\<lambda>v isr. if component_id ! v \<noteq> - 1 \<and> is_reducing_component ! nat (component_id ! v)
                        then isr[v := True] else isr)
              [0..<conf_n c] is_reductable)"

definition calc_is_ring :: "Configuration \<Rightarrow> bool list" where
  "calc_is_ring c =
     fold (\<lambda>v is_ring. fold (\<lambda>u is_ring. if equivalent c v u then is_ring[u := True] else is_ring)
                              [0..<conf_n c] is_ring)
          [0..<conf_r c] (replicate (conf_n c) False)"

definition cut_step :: "Configuration \<Rightarrow> bool list \<Rightarrow> nat list \<Rightarrow> bool list \<Rightarrow> bool list option" where
  "cut_step c is_ring cut_vs is_reductable =
     map_option (\<lambda>component_id. updateIsReductable c is_reductable component_id is_ring)
                (componentIdEquivalence c cut_vs)"

definition calcCutReduction :: "Configuration \<Rightarrow> bool list option" where
  "calcCutReduction c =
     (let is_ring = calc_is_ring c in
      for_each (\<lambda>v0 isr. do {
          isr \<leftarrow> cut_step c is_ring [v0] isr;
          for_each (\<lambda>v1 isr. do {
              isr \<leftarrow> cut_step c is_ring [v0, v1] isr;
              for_each (\<lambda>v2 isr. cut_step c is_ring [v0, v1, v2] isr) [0..<v1] isr
            }) [0..<v0] isr
        }) [0..<conf_n c] (replicate (conf_n c) False))"

section \<open>Lower bounds for the length of an outer path\<close>

definition ring_gap :: "Configuration \<Rightarrow> nat \<Rightarrow> nat \<Rightarrow> int" where
  "ring_gap c a b = (let b' = (if a < b then int b else int b + int (conf_r c)) in b' - int a)"

definition forbiddenCycle :: "Configuration \<Rightarrow> nat \<Rightarrow> nat \<Rightarrow> int \<Rightarrow> int \<Rightarrow> bool option" where
  "forbiddenCycle c a b k cutSize =
     (if \<not> (cutSize = 6 \<or> cutSize = 7) then None
      else if \<not> k \<le> cutSize then None
      else let q = ring_gap c a b in
        if q = k then Some False
        else if q < k then Some True
        else checkShortCycle c a b k cutSize)"

definition forbiddenCycleOneEdge_path ::
  "Configuration \<Rightarrow> int \<Rightarrow> int \<Rightarrow> nat list \<Rightarrow> bool option" where
  "forbiddenCycleOneEdge_path c k cutSize R =
     (let m = int (length R) - 1;
          number_in_ring = number_in_ring c R in
      if (m \<le> 2 \<or> number_in_ring \<ge> m - 2) \<and> k + m + 1 = 7 \<and> cutSize = 6 then Some False
      else do {
        (s, t) \<leftarrow> sizeOfVertices c R;
        let sz = cut_size s t (k - 1);
        Some (isForbiddenCut (k + m + 1) sz)
      })"

definition forbiddenCycleOneEdge :: "Configuration \<Rightarrow> nat \<Rightarrow> nat \<Rightarrow> int \<Rightarrow> int \<Rightarrow> bool option" where
  "forbiddenCycleOneEdge c a b k cutSize =
     (if \<not> (cutSize = 6 \<or> cutSize = 7) then None
      else if \<not> k \<le> cutSize then None
      else let q = ring_gap c a b;
               Q = rev (map (\<lambda>v. v mod conf_r c) [a..<a + nat q + 1]) in
        do {
          (s, t) \<leftarrow> sizeOfVertices c Q;
          let sz = cut_size s t (cutSize - k - 1);
          let l = cutSize - k + q + 1;
          if \<not> (l = 7 \<and> cutSize = 6) \<and> isForbiddenCut l sz then Some True
          else if \<not> a \<noteq> b then None
          else any_first (forbiddenCycleOneEdge_path c k cutSize) (all_paths c ! a ! b)
        })"

function lowerBound_loop :: "(int \<Rightarrow> bool option) \<Rightarrow> int \<Rightarrow> int \<Rightarrow> int option" where
  "lowerBound_loop forbidden k cutSize =
     (if k > cutSize then Some k
      else case forbidden k of
             None \<Rightarrow> None
           | Some fc \<Rightarrow> if \<not> fc then Some k else lowerBound_loop forbidden (k + 1) cutSize)"
  by pat_completeness auto
termination
  by (relation "measure (\<lambda>(forbidden, k, cutSize). nat (cutSize + 1 - k))") auto

declare lowerBound_loop.simps [simp del]

definition lowerBound_table ::
  "Configuration \<Rightarrow> (nat \<Rightarrow> nat \<Rightarrow> int \<Rightarrow> bool option) \<Rightarrow> int \<Rightarrow> int \<Rightarrow> int list list option" where
  "lowerBound_table c forbidden k0 cutSize =
     for_each (\<lambda>p. for_each (\<lambda>q tbl.
                  if p = q then Some tbl
                  else if p + 1 = q \<or> (p = conf_r c - 1 \<and> q = 0) then Some (set2 tbl p q 1)
                  else map_option (\<lambda>k. set2 tbl p q k) (lowerBound_loop (forbidden p q) k0 cutSize))
                [0..<conf_r c])
              [0..<conf_r c] (replicate (conf_r c) (replicate (conf_r c) 0))"

definition calcLowerBoundLengthOuterPath :: "Configuration \<Rightarrow> int \<Rightarrow> int list list option" where
  "calcLowerBoundLengthOuterPath c cutSize =
     lowerBound_table c (\<lambda>p q k. forbiddenCycle c p q k cutSize) 0 cutSize"

definition calcLowerBoundLengthOuterPathOneEdge :: "Configuration \<Rightarrow> int \<Rightarrow> int list list option" where
  "calcLowerBoundLengthOuterPathOneEdge c cutSize =
     lowerBound_table c (\<lambda>p q k. forbiddenCycleOneEdge c p q k cutSize) 1 cutSize"


section \<open>Cut reductions through the outside of the configuration\<close>

definition mark_component :: "Configuration \<Rightarrow> nat list \<Rightarrow> nat list \<Rightarrow> bool list \<Rightarrow> bool list" where
  "mark_component c path_vertices reducing_component is_reductable =
     fold (\<lambda>v isr. if \<exists>u\<in>set path_vertices. equivalent c v u then isr else isr[v := True])
          reducing_component is_reductable"

definition ring_quadruples :: "Configuration \<Rightarrow> (nat \<times> nat \<times> nat \<times> nat) list" where
  "ring_quadruples c =
     concat (map (\<lambda>p1.
       concat (map (\<lambda>q1'.
         concat (map (\<lambda>p2'.
           map (\<lambda>q2'. (p1, q1', p2', q2')) [p2' + 1..<p1 + conf_r c])
           [q1' + 1..<p1 + conf_r c]))
         [p1 + 1..<p1 + conf_r c]))
       [0..<conf_r c])"

definition calcReductableVertices1 :: "Configuration \<Rightarrow> int \<Rightarrow> bool list \<Rightarrow> bool list option" where
  "calcReductableVertices1 c cutSize is_reductable =
     for_each (\<lambda>p. for_each (\<lambda>q isr.
         if p = q then Some isr
         else let pathlen_min = max 0 (5 - dist c ! p ! q);
                  pathlen_max = 3 - dist_contracted c ! p ! q in
           if pathlen_min > pathlen_max then Some isr
           else do {
             contracted_paths \<leftarrow> shortestPaths c p q True;
             for_each (\<lambda>pathlen isr. do {
                 short \<leftarrow> checkShortCycle c p q pathlen cutSize;
                 if short then Some isr
                 else for_each (\<lambda>contracted_path isr.
                        if int (length contracted_path) - 1 = dist c ! p ! q then Some isr
                        else map_option (\<lambda>reducing_component.
                                 mark_component c contracted_path reducing_component isr)
                               (getComponent c contracted_path))
                      contracted_paths isr
               }) [pathlen_min..pathlen_max] isr
           })
         [0..<conf_r c])
       [0..<conf_r c] is_reductable"

definition mark_all ::
  "Configuration \<Rightarrow> (nat list \<Rightarrow> nat list \<Rightarrow> nat list option) \<Rightarrow> int \<Rightarrow> int
     \<Rightarrow> nat list list \<Rightarrow> nat list list \<Rightarrow> bool list \<Rightarrow> bool list option" where
  "mark_all c component d1 d2 contracted_path1s contracted_path2s is_reductable =
     for_each (\<lambda>contracted_path1. for_each (\<lambda>contracted_path2 isr.
         if int (length contracted_path1) - 1 = d1 \<and> int (length contracted_path2) - 1 = d2
         then Some isr
         else map_option (\<lambda>reducing_component.
                  mark_component c (contracted_path1 @ contracted_path2) reducing_component isr)
                (component contracted_path1 contracted_path2))
         contracted_path2s)
       contracted_path1s is_reductable"

definition calcReductableVertices2 :: "Configuration \<Rightarrow> int \<Rightarrow> bool list \<Rightarrow> bool list option" where
  "calcReductableVertices2 c cutSize is_reductable =
     for_each (\<lambda>(p1, q1', p2', q2') isr.
       let q1 = q1' mod conf_r c; p2 = p2' mod conf_r c; q2 = q2' mod conf_r c;
           pathlen_min1 = max 0 (5 - dist c ! p1 ! q1);
           pathlen_min2 = max 0 (5 - dist c ! p2 ! q2);
           pathlen_max = 3 - dist_contracted c ! q1 ! p2 - dist_contracted c ! q2 ! p1 in
       if pathlen_min1 > pathlen_max \<or> pathlen_min2 > pathlen_max then Some isr
       else do {
         shortest_path1s \<leftarrow> shortestPaths c q1 p2 False;
         shortest_path2s \<leftarrow> shortestPaths c q2 p1 False;
         contracted_path1s \<leftarrow> shortestPaths c q1 p2 True;
         contracted_path2s \<leftarrow> shortestPaths c q2 p1 True;
         for_each (\<lambda>pathlen1. for_each (\<lambda>pathlen2 isr.
             if pathlen1 + pathlen2 + dist_contracted c ! q1 ! p2 + dist_contracted c ! q2 ! p1 > 3
             then Some isr
             else do {
               short1 \<leftarrow> checkShortCycle c p1 q1 pathlen1 cutSize;
               if short1 then Some isr
               else do {
                 short2 \<leftarrow> checkShortCycle c p2 q2 pathlen2 cutSize;
                 if short2 then Some isr
                 else do {
                   has_smallcut \<leftarrow>
                     any_first (\<lambda>(shortest_path1, shortest_path2). do {
                         almost \<leftarrow> canBeAlmostMinimal_pair c shortest_path1 shortest_path2
                                    pathlen1 pathlen2 cutSize;
                         if almost then Some False
                         else do {
                           (s, t) \<leftarrow> sizeOfVertices_pair c shortest_path1 shortest_path2;
                           let sz = cut_size s t (pathlen1 + pathlen2 - 2);
                           Some (isForbiddenCut
                                   (int (length shortest_path1) + int (length shortest_path2) - 2
                                      + pathlen1 + pathlen2) sz)
                         }
                       }) (List.product shortest_path1s shortest_path2s);
                   if has_smallcut then Some isr
                   else mark_all c (getComponent_pair c) (dist c ! q1 ! p2) (dist c ! q2 ! p1)
                          contracted_path1s contracted_path2s isr
                 }
               }
             })
             [pathlen_min2..pathlen_max])
           [pathlen_min1..pathlen_max] isr
       })
     (ring_quadruples c) is_reductable"

definition calcLowerBoundCycle ::
  "Configuration \<Rightarrow> nat \<Rightarrow> nat \<Rightarrow> nat \<Rightarrow> nat \<Rightarrow> int \<Rightarrow> int \<Rightarrow> int \<Rightarrow> int option" where
  "calcLowerBoundCycle c p1 q1 p2 q2 pathlen1 pathlen2 cutSize =
     (if \<not> pathlen1 + pathlen2 \<le> 3 then None
      else
        let len = (if cutSize = 6 then length6 c else length7 c);
            len1 = (if cutSize = 6 then length_oneedge6 c else length_oneedge7 c);
            L_vertical = max (len ! p1 ! q1) (2 - pathlen1) + max (len ! p2 ! q2) (2 - pathlen2);
            L_horizontal = len ! q1 ! p2 + len ! q2 ! p1;
            L = (if L_vertical + pathlen1 + pathlen2 \<le> 5 \<and> L_horizontal + pathlen1 + pathlen2 \<le> 5
                 then L_vertical + L_horizontal + 6 - pathlen1 - pathlen2
                        - max L_vertical L_horizontal
                 else L_vertical + L_horizontal);
            mixed = min (len ! q2 ! p1 + len1 ! q1 ! p2) (len1 ! q2 ! p1 + len ! q1 ! p2);
            L = (if pathlen1 = 2 then
                   let L1_vertical = max (len1 ! p1 ! q1) 1 + max (len ! p2 ! q2) (2 - pathlen2);
                       L1_horizontal = mixed;
                       L1 = (if L1_vertical + pathlen2 + 1 \<le> 5 \<and> L1_horizontal + pathlen2 + 1 \<le> 5
                             then L1_vertical + L1_horizontal + 5 - pathlen2
                                    - max L1_vertical L1_horizontal
                             else L1_vertical + L1_horizontal);
                       L = min L L1
                   in if pathlen2 = 1 then
                        let L2_vertical = max (len ! p1 ! q1) (2 - pathlen1) + max (len1 ! p2 ! q2) 2;
                            L2_horizontal = mixed;
                            L2 = (if L2_vertical + pathlen1 \<le> 5 \<and> L2_horizontal + pathlen1 \<le> 5
                                  then L2_vertical + L2_horizontal + 6 - pathlen1
                                         - max L2_horizontal L2_vertical
                                  else L2_vertical + L2_horizontal)
                        in min L L2
                      else L
                 else L);
            L = (if pathlen2 = 2 then
                   let L1_vertical = max (len ! p1 ! q1) (2 - pathlen1) + max (len1 ! p2 ! q2) 1;
                       L1_horizontal = mixed;
                       L1 = (if L1_vertical + pathlen1 + 1 \<le> 5 \<and> L1_horizontal + pathlen1 + 1 \<le> 5
                             then L1_vertical + L1_horizontal + 5 - pathlen1
                                    - max L1_vertical L1_horizontal
                             else L1_vertical + L1_horizontal);
                       L = min L L1
                   in if pathlen1 = 1 then
                        let L2_vertical = max (len1 ! p1 ! q1) 2 + max (len ! p2 ! q2) (2 - pathlen2);
                            L2_horizontal = mixed;
                            L2 = (if L2_vertical + pathlen2 \<le> 5 \<and> L2_horizontal + pathlen2 \<le> 5
                                  then L2_vertical + L2_horizontal + 6 - pathlen2
                                         - max L2_vertical L2_horizontal
                                  else L2_vertical + L2_horizontal)
                        in min L L2
                      else L
                 else L)
        in Some (if pathlen1 = 3 \<or> pathlen2 = 3 then 0 else L))"

definition calcReductableVertices3 :: "Configuration \<Rightarrow> int \<Rightarrow> bool list \<Rightarrow> bool list option" where
  "calcReductableVertices3 c cutSize is_reductable =
     for_each (\<lambda>(p1, q1', p2', q2') isr.
       if q1' + 1 = p2' \<and> q2' + 1 = p1 + conf_r c then Some isr
       else
       let q1 = q1' mod conf_r c; p2 = p2' mod conf_r c; q2 = q2' mod conf_r c;
           pathlen_min1 = max (2 - dist_contracted c ! p1 ! q1) 0;
           pathlen_min2 = max (2 - dist_contracted c ! p2 ! q2) 0;
           pathlen_max = 3 - dist_contracted c ! q1 ! p2 - dist_contracted c ! q2 ! p1 in
       if pathlen_min1 > pathlen_max \<or> pathlen_min2 > pathlen_max then Some isr
       else if \<not> q1 \<noteq> p2 then None
       else if \<not> q2 \<noteq> p1 then None
       else do {
         let path1s = all_paths c ! q1 ! p2;
         let path2s = all_paths c ! q2 ! p1;
         contracted_path1s \<leftarrow> shortestPaths c q1 p2 True;
         contracted_path2s \<leftarrow> shortestPaths c q2 p1 True;
         for_each (\<lambda>pathlen1. for_each (\<lambda>pathlen2 isr.
             if pathlen1 + pathlen2 + dist_contracted c ! q1 ! p2 + dist_contracted c ! q2 ! p1 > 3
             then Some isr
             else do {
               L \<leftarrow> calcLowerBoundCycle c p1 q1 p2 q2 pathlen1 pathlen2 cutSize;
               if L > cutSize then Some isr
               else do {
                 has_smallcut \<leftarrow>
                   for_each (\<lambda>path1 has_smallcut. do {
                       found \<leftarrow> any_first (\<lambda>path2.
                           let l = pathlen1 + pathlen2 + int (length path1) - 1
                                     + int (length path2) - 1 in
                           if l > 5 then Some False
                           else do {
                             (s, t) \<leftarrow> sizeOfVertices2 c path1 path2;
                             let sz = cut_size s t (pathlen1 + pathlen2 - 2);
                             Some ((l \<le> 4 \<and> sz > 0) \<or> (l = 5 \<and> sz > 1))
                           }) path2s;
                       Some (has_smallcut \<or> found)
                     }) path1s False;
                 if has_smallcut then Some isr
                 else mark_all c (getComponent2 c) (dist c ! q1 ! p2) (dist c ! q2 ! p1)
                        contracted_path1s contracted_path2s isr
               }
             })
             [pathlen_min2..pathlen_max])
           [pathlen_min1..pathlen_max] isr
       })
     (ring_quadruples c) is_reductable"

definition calcReductableVertices4 :: "Configuration \<Rightarrow> int \<Rightarrow> bool list \<Rightarrow> bool list option" where
  "calcReductableVertices4 c cutSize is_reductable =
     for_each (\<lambda>(p1, q1', p2', q2') isr.
       let q1 = q1' mod conf_r c; p2 = p2' mod conf_r c; q2 = q2' mod conf_r c;
           pathlen_min1 = max 0 (5 - dist c ! p1 ! q1);
           pathlen_min2 = max 0 (5 - dist c ! p2 ! q2);
           pathlen_max = 3 - dist_contracted c ! q1 ! p2 - dist_contracted c ! q2 ! p1 in
       if pathlen_min1 > pathlen_max \<or> pathlen_min2 > pathlen_max then Some isr
       else do {
         shortest_path1s \<leftarrow> shortestPaths c q1 p2 False;
         shortest_path2s \<leftarrow> shortestPaths c q2 p1 False;
         contracted_path1s \<leftarrow> shortestPaths c q1 p2 True;
         contracted_path2s \<leftarrow> shortestPaths c q2 p1 True;
         for_each (\<lambda>pathlen1. for_each (\<lambda>pathlen2 isr.
             if pathlen1 + pathlen2 + dist_contracted c ! q1 ! p2 + dist_contracted c ! q2 ! p1 > 3
             then Some isr
             else do {
               short1 \<leftarrow> checkShortCycle c p1 q1 pathlen1 cutSize;
               if short1 then Some isr
               else do {
                 short2 \<leftarrow> checkShortCycle c q2 p2 pathlen2 cutSize;
                 if short2 then Some isr
                 else do {
                   has_smallcut \<leftarrow>
                     any_first (\<lambda>(shortest_path1, shortest_path2). do {
                         almost \<leftarrow> canBeAlmostMinimal2 c shortest_path1 shortest_path2
                                    pathlen1 pathlen2 cutSize;
                         if almost then Some False
                         else do {
                           (s, t) \<leftarrow> sizeOfVertices2 c shortest_path1 shortest_path2;
                           let sz = cut_size s t (pathlen1 + pathlen2 - 2);
                           Some (isForbiddenCut
                                   (int (length shortest_path1) + int (length shortest_path2) - 2
                                      + pathlen1 + pathlen2) sz)
                         }
                       }) (List.product shortest_path1s shortest_path2s);
                   if has_smallcut then Some isr
                   else mark_all c (getComponent2 c) (dist c ! q1 ! p2) (dist c ! q2 ! p1)
                          contracted_path1s contracted_path2s isr
                 }
               }
             })
             [pathlen_min2..pathlen_max])
           [pathlen_min1..pathlen_max] isr
       })
     (ring_quadruples c) is_reductable"

definition calcReductableVertices :: "Configuration \<Rightarrow> int \<Rightarrow> bool list option" where
  "calcReductableVertices c cutSize =
     (if \<not> (cutSize = 6 \<or> cutSize = 7) then None
      else do {
        isr \<leftarrow> calcReductableVertices1 c cutSize (replicate (conf_n c) False);
        isr \<leftarrow> calcReductableVertices2 c cutSize isr;
        isr \<leftarrow> calcReductableVertices3 c cutSize isr;
        calcReductableVertices4 c cutSize isr
      })"

section \<open>Construction and contraction\<close>

text \<open>
  The constructor and \<^verbatim>\<open>setContract\<close> assign the members one after the other; each
  intermediate record is the object at that point of the source.  The log lines that
  \<^verbatim>\<open>setContract\<close> writes are output only and are not part of the state.
\<close>

definition new_Configuration :: "nat \<Rightarrow> nat \<Rightarrow> nat list list \<Rightarrow> Configuration option" where
  "new_Configuration n r adj =
     (let c = \<lparr> contract = [],
                is_reductable_inside = replicate n False,
                is_reductable_outside6 = replicate n False,
                is_reductable_outside7 = replicate n False,
                dist_contracted = [], representative = [],
                length6 = [], length_oneedge6 = [], length7 = [], length_oneedge7 = [],
                all_paths = [], conf_n = n, conf_r = r, VtoV = adj, dist = [] \<rparr> in
      do {
        d \<leftarrow> WF c False;
        let c = c\<lparr>dist := d\<rparr>;
        let c = c\<lparr>dist_contracted := dist c\<rparr>;
        let c = c\<lparr>representative := calcRepresentative c\<rparr>;
        let c = c\<lparr>all_paths :=
                    map (\<lambda>p. map (\<lambda>q. if p = q then [] else calculatePaths c p q) [0..<r]) [0..<r]\<rparr>;
        l \<leftarrow> calcLowerBoundLengthOuterPath c 6;
        let c = c\<lparr>length6 := l\<rparr>;
        l \<leftarrow> calcLowerBoundLengthOuterPath c 7;
        let c = c\<lparr>length7 := l\<rparr>;
        l \<leftarrow> calcLowerBoundLengthOuterPathOneEdge c 6;
        let c = c\<lparr>length_oneedge6 := l\<rparr>;
        l \<leftarrow> calcLowerBoundLengthOuterPathOneEdge c 7;
        let c = c\<lparr>length_oneedge7 := l\<rparr>;
        Some c
      })"

definition setContract :: "Configuration \<Rightarrow> (nat \<times> nat) list \<Rightarrow> Configuration option" where
  "setContract c contract' =
     do {
       let c = c\<lparr>contract := contract'\<rparr>;
       d \<leftarrow> WF c True;
       let c = c\<lparr>dist_contracted := d\<rparr>;
       isr \<leftarrow> calcCutReduction c;
       let c = c\<lparr>is_reductable_inside := isr\<rparr>;
       isr \<leftarrow> calcReductableVertices c 6;
       let c = c\<lparr>is_reductable_outside6 := isr\<rparr>;
       isr \<leftarrow> calcReductableVertices c 7;
       let c = c\<lparr>is_reductable_outside7 := isr\<rparr>;
       let c = c\<lparr>representative := calcRepresentative c\<rparr>;
       Some c
     }"


section \<open>Well-formed graphs: the component searches return\<close>

definition graph_ok :: "nat \<Rightarrow> nat \<Rightarrow> nat list list \<Rightarrow> bool" where
  "graph_ok n r adj = (length adj = n \<and> r \<le> n \<and> list_all (list_all (\<lambda>u. u < n)) adj)"

lemma graph_ok_nbr: "graph_ok n r adj \<Longrightarrow> v < n \<Longrightarrow> u \<in> set (adj ! v) \<Longrightarrow> u < n"
  by (auto simp: graph_ok_def list_all_length in_set_conv_nth)

lemma for_each_Some_inv:
  assumes "I s" and "\<And>x s. x \<in> set xs \<Longrightarrow> I s \<Longrightarrow> \<exists>s'. f x s = Some s' \<and> I s'"
  shows "\<exists>s'. for_each f xs s = Some s' \<and> I s'"
  using assms
proof (induction xs arbitrary: s)
  case Nil
  then show ?case by simp
next
  case (Cons x xs)
  from Cons.prems obtain s1 where s1: "f x s = Some s1" "I s1" by (meson list.set_intros(1))
  have "\<exists>s'. for_each f xs s1 = Some s' \<and> I s'"
    by (rule Cons.IH[OF s1(2)]) (use Cons.prems(2) in auto)
  then show ?case using s1(1) by simp
qed

lemma any_first_Some:
  assumes "\<And>x. x \<in> set xs \<Longrightarrow> \<exists>b. f x = Some b"
  shows "any_first f xs = Some (list_ex (\<lambda>x. f x = Some True) xs)"
  using assms
proof (induction xs)
  case Nil
  then show ?case by simp
next
  case (Cons x xs)
  from Cons.prems obtain b where b: "f x = Some b" by (meson list.set_intros(1))
  have "any_first f xs = Some (list_ex (\<lambda>x. f x = Some True) xs)"
    by (rule Cons.IH) (use Cons.prems in auto)
  then show ?case using b by simp
qed

lemma getComponent_dfs_Some:
  assumes "\<forall>v<length ids. \<forall>u\<in>set (adj ! v). u < length ids" "\<forall>v\<in>set stack. v < length ids"
  shows "\<exists>ids' cmp'. getComponent_dfs adj cutset stack ids cmp = Some (ids', cmp')
           \<and> length ids' = length ids"
  using assms
proof (induction adj cutset stack ids cmp rule: getComponent_dfs.induct)
  case (1 adj cutset component_id component)
  then show ?case by (simp add: getComponent_dfs.simps)
next
  case (2 adj cutset v stack component_id component)
  have v: "v < length component_id" using "2.prems"(2) by simp
  show ?case
  proof (cases "v \<in> cutset")
    case True
    then show ?thesis using "2.IH"(1) "2.prems" by (simp add: getComponent_dfs.simps)
  next
    case nc: False
    show ?thesis
    proof (cases "component_id ! v \<noteq> - 1")
      case True
      then show ?thesis using "2.IH"(2) "2.prems" nc v by (simp add: getComponent_dfs.simps)
    next
      case False
      have "\<forall>w\<in>set (adj ! v @ stack). w < length (component_id[v := 0])"
        using "2.prems" v by auto
      moreover have "\<forall>w<length (component_id[v := 0]). \<forall>u\<in>set (adj ! w). u < length (component_id[v := 0])"
        using "2.prems"(1) by simp
      ultimately show ?thesis using "2.IH"(3)[OF nc _ _ ] False nc v
        by (simp add: getComponent_dfs.simps)
    qed
  qed
qed

lemma ring_arc_less: "0 < r \<Longrightarrow> \<forall>v\<in>set (ring_arc r p q). v < r"
  by (auto simp: ring_arc_def)

lemma getComponent_Some:
  assumes ok: "graph_ok (conf_n c) (conf_r c) (VtoV c)"
    and R: "R \<noteq> []" "hd R \<noteq> last R" "hd R < conf_r c" "last R < conf_r c"
  shows "\<exists>cmp. getComponent c R = Some cmp"
proof -
  let ?I = "\<lambda>st. length (fst st) = conf_n c"
  have "\<exists>s'. for_each (\<lambda>v (component_id, component).
                 getComponent_dfs (VtoV c) (set R) [v] component_id component)
              (ring_arc (conf_r c) (hd R) (last R)) (replicate (conf_n c) (- 1), []) = Some s' \<and> ?I s'"
  proof (rule for_each_Some_inv[where I = ?I])
    show "?I (replicate (conf_n c) (- 1), [])" by simp
  next
    fix v and st :: "int list \<times> nat list"
    assume v: "v \<in> set (ring_arc (conf_r c) (hd R) (last R))" and I: "?I st"
    obtain ids cmp where st: "st = (ids, cmp)" by (cases st)
    have "0 < conf_r c" using R(3) by simp
    from ring_arc_less[OF this] v have "v < conf_r c" by blast
    then have "v < conf_n c" using ok by (simp add: graph_ok_def)
    then have "\<exists>ids' cmp'. getComponent_dfs (VtoV c) (set R) [v] ids cmp = Some (ids', cmp')
           \<and> length ids' = length ids"
      using I st ok by (intro getComponent_dfs_Some) (auto dest: graph_ok_nbr)
    then show "\<exists>s'. (case st of (component_id, component) \<Rightarrow>
                 getComponent_dfs (VtoV c) (set R) [v] component_id component) = Some s' \<and> ?I s'"
      using st I by auto
  qed
  then show ?thesis using R by (auto simp: getComponent_def Let_def)
qed

lemma getComponent_None:
  "\<not> (R \<noteq> [] \<and> hd R \<noteq> last R \<and> hd R < conf_r c \<and> last R < conf_r c) \<Longrightarrow> getComponent c R = None"
  by (auto simp: getComponent_def Let_def)

section \<open>The inside reduction returns\<close>

lemma componentId_dfs_Some:
  assumes "\<forall>v<length ids. \<forall>u\<in>set (adj ! v). u < length ids" "\<forall>v\<in>set stack. v < length ids"
  shows "\<exists>ids'. componentId_dfs adj cutset cnum stack ids = Some ids' \<and> length ids' = length ids"
  using assms
proof (induction adj cutset cnum stack ids rule: componentId_dfs.induct)
  case (1 adj cutset cnum component_id)
  then show ?case by (simp add: componentId_dfs.simps)
next
  case (2 adj cutset cnum u stack component_id)
  have u: "u < length component_id" using "2.prems"(2) by simp
  show ?case
  proof (cases "u \<in> cutset")
    case True
    then show ?thesis using "2.IH"(1) "2.prems" by (simp add: componentId_dfs.simps)
  next
    case nc: False
    show ?thesis
    proof (cases "component_id ! u \<noteq> - 1")
      case True
      then show ?thesis using "2.IH"(2) "2.prems" nc u by (simp add: componentId_dfs.simps)
    next
      case False
      have "\<forall>w\<in>set (adj ! u @ stack). w < length (component_id[u := int cnum])"
        using "2.prems" u by auto
      moreover have "\<forall>w<length (component_id[u := int cnum]).
                       \<forall>x\<in>set (adj ! w). x < length (component_id[u := int cnum])"
        using "2.prems"(1) by simp
      ultimately show ?thesis using "2.IH"(3)[OF nc _ _ ] False nc u
        by (simp add: componentId_dfs.simps)
    qed
  qed
qed

lemma componentIdEquivalence_Some:
  assumes ok: "graph_ok (conf_n c) (conf_r c) (VtoV c)"
  shows "\<exists>ids. componentIdEquivalence c cut_vs = Some ids"
proof -
  let ?cs = "cutset_of c cut_vs"
  have adj: "\<forall>v<conf_n c. \<forall>u\<in>set (VtoV c ! v). u < conf_n c"
    using ok by (auto dest: graph_ok_nbr)
  have rn: "conf_r c \<le> conf_n c" using ok by (simp add: graph_ok_def)
  have "\<exists>ids. for_each (\<lambda>v component_id.
                      if v \<notin> ?cs
                      then componentId_dfs (VtoV c) ?cs 0 (VtoV c ! v) (component_id[v := 0])
                      else Some component_id)
                   [0..<conf_r c] (replicate (conf_n c) (- 1)) = Some ids \<and> length ids = conf_n c"
  proof (rule for_each_Some_inv[where I = "\<lambda>ids. length ids = conf_n c"])
    fix v and ids :: "int list"
    assume v: "v \<in> set [0..<conf_r c]" and len: "length ids = conf_n c"
    have vn: "v < conf_n c" using v rn by simp
    have "\<exists>ids'. componentId_dfs (VtoV c) ?cs 0 (VtoV c ! v) (ids[v := 0]) = Some ids'
                \<and> length ids' = length (ids[v := 0])"
      using adj len vn by (intro componentId_dfs_Some) auto
    then show "\<exists>s'. (if v \<notin> ?cs
                      then componentId_dfs (VtoV c) ?cs 0 (VtoV c ! v) (ids[v := 0])
                      else Some ids) = Some s' \<and> length s' = conf_n c"
      using len by auto
  qed simp
  then obtain ids1 where ids1: "for_each (\<lambda>v component_id.
                      if v \<notin> ?cs
                      then componentId_dfs (VtoV c) ?cs 0 (VtoV c ! v) (component_id[v := 0])
                      else Some component_id)
                   [0..<conf_r c] (replicate (conf_n c) (- 1)) = Some ids1" "length ids1 = conf_n c"
    by blast
  let ?body = "\<lambda>v (component_id, num_component).
                      if v \<notin> ?cs \<and> component_id ! v = - 1
                      then map_option (\<lambda>ids. (ids, num_component + 1))
                             (componentId_dfs (VtoV c) ?cs num_component (VtoV c ! v)
                                (component_id[v := int num_component]))
                      else Some (component_id, num_component)"
  have "\<exists>st. for_each ?body [conf_r c..<conf_n c] (ids1, 1) = Some st \<and> length (fst st) = conf_n c"
  proof (rule for_each_Some_inv[where I = "\<lambda>st. length (fst st) = conf_n c"])
    fix v and st :: "int list \<times> nat"
    assume v: "v \<in> set [conf_r c..<conf_n c]" and len: "length (fst st) = conf_n c"
    obtain ids num where st: "st = (ids, num)" by (cases st)
    have vn: "v < conf_n c" using v by simp
    have "\<exists>ids'. componentId_dfs (VtoV c) ?cs num (VtoV c ! v) (ids[v := int num]) = Some ids'
                \<and> length ids' = length (ids[v := int num])"
      using adj len vn st by (intro componentId_dfs_Some) auto
    then show "\<exists>s'. ?body v st = Some s' \<and> length (fst s') = conf_n c"
      using len st by auto
  qed (simp add: ids1)
  then obtain st where "for_each ?body [conf_r c..<conf_n c] (ids1, 1) = Some st" by blast
  then show ?thesis
    using ids1(1) by (cases st) (simp add: componentIdEquivalence_def Let_def)
qed

lemma calcCutReduction_Some:
  assumes ok: "graph_ok (conf_n c) (conf_r c) (VtoV c)"
  shows "\<exists>isr. calcCutReduction c = Some isr"
proof -
  have step: "\<And>cut_vs isr. \<exists>isr'. cut_step c (calc_is_ring c) cut_vs isr = Some isr'"
    using componentIdEquivalence_Some[OF ok] by (auto simp: cut_step_def)
  have "\<exists>s'. for_each (\<lambda>v0 isr. do {
          isr \<leftarrow> cut_step c (calc_is_ring c) [v0] isr;
          for_each (\<lambda>v1 isr. do {
              isr \<leftarrow> cut_step c (calc_is_ring c) [v0, v1] isr;
              for_each (\<lambda>v2 isr. cut_step c (calc_is_ring c) [v0, v1, v2] isr) [0..<v1] isr
            }) [0..<v0] isr
        }) [0..<conf_n c] (replicate (conf_n c) False) = Some s' \<and> True"
  proof (rule for_each_Some_inv[where I = "\<lambda>_. True"])
    fix v0 and isr :: "bool list"
    obtain isr1 where 1: "cut_step c (calc_is_ring c) [v0] isr = Some isr1" using step by blast
    have "\<exists>s'. for_each (\<lambda>v1 isr. do {
              isr \<leftarrow> cut_step c (calc_is_ring c) [v0, v1] isr;
              for_each (\<lambda>v2 isr. cut_step c (calc_is_ring c) [v0, v1, v2] isr) [0..<v1] isr
            }) [0..<v0] isr1 = Some s' \<and> True"
    proof (rule for_each_Some_inv[where I = "\<lambda>_. True"])
      fix v1 and isr :: "bool list"
      obtain isr2 where 2: "cut_step c (calc_is_ring c) [v0, v1] isr = Some isr2"
        using step by blast
      have "\<exists>s'. for_each (\<lambda>v2 isr. cut_step c (calc_is_ring c) [v0, v1, v2] isr) [0..<v1] isr2
                 = Some s' \<and> True"
        by (rule for_each_Some_inv[where I = "\<lambda>_. True"]) (use step in auto)
      then show "\<exists>s'. do {
              isr \<leftarrow> cut_step c (calc_is_ring c) [v0, v1] isr;
              for_each (\<lambda>v2 isr. cut_step c (calc_is_ring c) [v0, v1, v2] isr) [0..<v1] isr
            } = Some s' \<and> True"
        using 2 by simp
    qed simp
    then show "\<exists>s'. do {
          isr \<leftarrow> cut_step c (calc_is_ring c) [v0] isr;
          for_each (\<lambda>v1 isr. do {
              isr \<leftarrow> cut_step c (calc_is_ring c) [v0, v1] isr;
              for_each (\<lambda>v2 isr. cut_step c (calc_is_ring c) [v0, v1, v2] isr) [0..<v1] isr
            }) [0..<v0] isr
        } = Some s' \<and> True"
      using 1 by simp
  qed simp
  then show ?thesis by (simp add: calcCutReduction_def Let_def)
qed

section \<open>The path enumeration returns paths from the source to the target\<close>

lemma sp_relax_fold_range:
  "fold (sp_relax cs v) us (ds, que) = (ds', que') \<Longrightarrow>
     length ds' = length ds \<and> set que' \<subseteq> set que \<union> set us"
proof (induction us arbitrary: ds que)
  case Nil
  then show ?case by simp
next
  case (Cons u us)
  obtain ds1 que1 where st: "sp_relax cs v u (ds, que) = (ds1, que1)"
    by (cases "sp_relax cs v u (ds, que)")
  then have one: "length ds1 = length ds \<and> set que1 \<subseteq> set que \<union> {u}"
    by (auto simp: sp_relax_def split: if_splits)
  have "fold (sp_relax cs v) us (ds1, que1) = (ds', que')" using Cons.prems st by simp
  from Cons.IH[OF this] one show ?case by auto
qed

lemma sp_dist_loop_Some:
  assumes "\<forall>v<length ds. \<forall>u\<in>set (adj ! v). u < length ds" "\<forall>v\<in>set que. v < length ds"
  shows "\<exists>ds'. sp_dist_loop adj cs ds que = Some ds' \<and> length ds' = length ds"
  using assms
proof (induction adj cs ds que rule: sp_dist_loop.induct)
  case (1 adj cs ds)
  then show ?case by (simp add: sp_dist_loop.simps)
next
  case (2 adj cs ds v que)
  have v: "v < length ds" using "2.prems"(2) by simp
  then have g: "v < length ds \<and> (\<forall>u\<in>set (adj ! v). u < length ds)" using "2.prems"(1) by simp
  obtain ds1 que1 where f: "fold (sp_relax cs v) (adj ! v) (ds, que) = (ds1, que1)"
    by (cases "fold (sp_relax cs v) (adj ! v) (ds, que)")
  from sp_relax_fold_range[OF f]
  have r: "length ds1 = length ds" "set que1 \<subseteq> set que \<union> set (adj ! v)" by auto
  have "\<exists>ds'. sp_dist_loop adj cs ds1 que1 = Some ds' \<and> length ds' = length ds1"
  proof (rule "2.IH"[OF g f[symmetric]])
    show "\<forall>v<length ds1. \<forall>u\<in>set (adj ! v). u < length ds1" using "2.prems"(1) r(1) by simp
    show "\<forall>v\<in>set que1. v < length ds1" using r g "2.prems"(2) by auto
  qed
  then show ?case using g f r(1) by (simp add: sp_dist_loop.simps)
qed

definition sp_paths_inv :: "nat \<Rightarrow> nat list list list \<Rightarrow> bool" where
  "sp_paths_inv s paths =
     (\<forall>w<length paths. \<forall>p\<in>set (paths ! w). p \<noteq> [] \<and> hd p = s \<and> last p = w)"

lemma sp_extend_fold_inv:
  assumes "u < length paths" "\<forall>p\<in>set ps. p \<noteq> [] \<and> hd p = s" "sp_paths_inv s paths"
    and "fold (sp_extend u) ps (paths, upd) = (paths', upd')"
  shows "length paths' = length paths \<and> sp_paths_inv s paths'"
  using assms
proof (induction ps arbitrary: paths upd)
  case Nil
  then show ?case by simp
next
  case (Cons p ps)
  obtain paths1 upd1 where st: "sp_extend u p (paths, upd) = (paths1, upd1)"
    by (cases "sp_extend u p (paths, upd)")
  have p: "p \<noteq> []" "hd p = s" using Cons.prems(2) by auto
  have one: "length paths1 = length paths \<and> sp_paths_inv s paths1"
  proof (cases "p @ [u] \<in> set (paths ! u) \<or> u \<in> set p")
    case True
    then show ?thesis using st Cons.prems(3) by (simp add: sp_extend_def)
  next
    case False
    then have eq: "paths1 = paths[u := paths ! u @ [p @ [u]]]" using st by (simp add: sp_extend_def)
    have "sp_paths_inv s paths1"
      unfolding sp_paths_inv_def
    proof (intro allI impI ballI)
      fix w q assume w: "w < length paths1" and q: "q \<in> set (paths1 ! w)"
      show "q \<noteq> [] \<and> hd q = s \<and> last q = w"
      proof (cases "w = u")
        case True
        then have "q = p @ [u] \<or> q \<in> set (paths ! u)" using q eq Cons.prems(1) by auto
        then show ?thesis using p True Cons.prems(1,3) by (auto simp: sp_paths_inv_def)
      next
        case False
        then have "q \<in> set (paths ! w)" using q eq by simp
        then show ?thesis using w eq Cons.prems(3) by (auto simp: sp_paths_inv_def)
      qed
    qed
    then show ?thesis using eq by simp
  qed
  have rest: "fold (sp_extend u) ps (paths1, upd1) = (paths', upd')" using Cons.prems(4) st by simp
  have "length paths' = length paths1 \<and> sp_paths_inv s paths'"
    by (rule Cons.IH[OF _ _ _ rest]) (use one Cons.prems in auto)
  then show ?case using one by simp
qed

lemma sp_visit_inv:
  assumes "v < length paths" "u < length paths" "sp_paths_inv s paths"
    and "sp_visit cs ds v u (paths, que) = (paths', que')"
  shows "length paths' = length paths \<and> sp_paths_inv s paths' \<and> set que' \<subseteq> set que \<union> {u}"
proof (cases "ds ! u = ds ! v + 1 \<or> (ds ! u = ds ! v \<and> (u, v) \<in> cs)")
  case False
  then have "paths' = paths \<and> que' = que" using assms(4) by (auto simp: sp_visit_def)
  then show ?thesis using assms(3) by auto
next
  case True
  obtain paths1 upd1 where f: "fold (sp_extend u) (paths ! v) (paths, False) = (paths1, upd1)"
    by (cases "fold (sp_extend u) (paths ! v) (paths, False)")
  have "\<forall>p\<in>set (paths ! v). p \<noteq> [] \<and> hd p = s" using assms(1,3) by (auto simp: sp_paths_inv_def)
  from sp_extend_fold_inv[OF assms(2) this assms(3) f]
  have one: "length paths1 = length paths \<and> sp_paths_inv s paths1" .
  have "paths' = paths1 \<and> set que' \<subseteq> set que \<union> {u}"
    using assms(4) True f by (auto simp: sp_visit_def split: if_splits)
  then show ?thesis using one by simp
qed

lemma sp_visit_fold_inv:
  assumes "v < length paths" "\<forall>u\<in>set us. u < length paths" "sp_paths_inv s paths"
    and "fold (sp_visit cs ds v) us (paths, que) = (paths', que')"
  shows "length paths' = length paths \<and> sp_paths_inv s paths' \<and> set que' \<subseteq> set que \<union> set us"
  using assms
proof (induction us arbitrary: paths que)
  case Nil
  then show ?case by simp
next
  case (Cons u us)
  obtain paths1 que1 where st: "sp_visit cs ds v u (paths, que) = (paths1, que1)"
    by (cases "sp_visit cs ds v u (paths, que)")
  have one: "length paths1 = length paths \<and> sp_paths_inv s paths1 \<and> set que1 \<subseteq> set que \<union> {u}"
    by (rule sp_visit_inv[OF _ _ _ st]) (use Cons.prems in auto)
  have rest: "fold (sp_visit cs ds v) us (paths1, que1) = (paths', que')"
    using Cons.prems(4) st by simp
  have "length paths' = length paths1 \<and> sp_paths_inv s paths' \<and> set que' \<subseteq> set que1 \<union> set us"
    by (rule Cons.IH[OF _ _ _ rest]) (use one Cons.prems in auto)
  then show ?case using one by auto
qed

lemma sp_paths_loop_Some:
  assumes "\<forall>v<length paths. \<forall>u\<in>set (adj ! v). u < length paths" "\<forall>v\<in>set que. v < length paths"
    and "sp_paths_inv s paths"
  shows "\<exists>paths'. sp_paths_loop adj cs ds paths que = Some paths' \<and> length paths' = length paths
           \<and> sp_paths_inv s paths'"
  using assms
proof (induction adj cs ds paths que rule: sp_paths_loop.induct)
  case (1 adj cs ds paths)
  then show ?case by (simp add: sp_paths_loop.simps)
next
  case (2 adj cs ds paths v que)
  have v: "v < length paths" using "2.prems"(2) by simp
  then have g: "v < length paths \<and> (\<forall>u\<in>set (adj ! v). u < length paths)"
    using "2.prems"(1) by simp
  obtain paths1 que1 where f: "fold (sp_visit cs ds v) (adj ! v) (paths, que) = (paths1, que1)"
    by (cases "fold (sp_visit cs ds v) (adj ! v) (paths, que)")
  have r: "length paths1 = length paths \<and> sp_paths_inv s paths1 \<and> set que1 \<subseteq> set que \<union> set (adj ! v)"
    by (rule sp_visit_fold_inv[OF _ _ _ f]) (use g "2.prems" in auto)
  have "\<exists>paths'. sp_paths_loop adj cs ds paths1 que1 = Some paths' \<and> length paths' = length paths1
           \<and> sp_paths_inv s paths'"
  proof (rule "2.IH"[OF g f[symmetric]])
    show "\<forall>v<length paths1. \<forall>u\<in>set (adj ! v). u < length paths1" using "2.prems"(1) r by simp
    show "\<forall>v\<in>set que1. v < length paths1" using r g "2.prems"(2) by auto
    show "sp_paths_inv s paths1" using r by simp
  qed
  then show ?case using g f r by (simp add: sp_paths_loop.simps)
qed

lemma set_unique_paths_aux:
  "set (fold (\<lambda>path acc. if path \<in> set acc then acc else acc @ [path]) ps acc) = set acc \<union> set ps"
  by (induction ps arbitrary: acc) auto

lemma set_unique_paths: "set (unique_paths ps) = set ps"
  by (simp add: unique_paths_def set_unique_paths_aux)

lemma distinct_unique_paths_aux:
  "distinct acc \<Longrightarrow> distinct (fold (\<lambda>path acc. if path \<in> set acc then acc else acc @ [path]) ps acc)"
  by (induction ps arbitrary: acc) auto

lemma distinct_unique_paths: "distinct (unique_paths ps)"
  by (simp add: unique_paths_def distinct_unique_paths_aux)

lemma shortestPaths_Some:
  assumes ok: "graph_ok (conf_n c) (conf_r c) (VtoV c)" and st: "s < conf_n c" "t < conf_n c"
  shows "\<exists>ps. shortestPaths c s t b = Some ps \<and> (\<forall>p\<in>set ps. p \<noteq> [] \<and> hd p = s \<and> last p = t)"
proof -
  let ?cs = "contract_set c b"
  have adj: "\<forall>v<conf_n c. \<forall>u\<in>set (VtoV c ! v). u < conf_n c"
    using ok by (auto dest: graph_ok_nbr)
  have "\<exists>ds'. sp_dist_loop (VtoV c) ?cs ((replicate (conf_n c) INF_const)[s := 0]) [s] = Some ds'
          \<and> length ds' = length ((replicate (conf_n c) INF_const)[s := 0])"
    by (rule sp_dist_loop_Some) (use adj st in auto)
  then obtain ds where ds: "sp_dist_loop (VtoV c) ?cs ((replicate (conf_n c) INF_const)[s := 0]) [s] = Some ds"
    by blast
  let ?p0 = "(replicate (conf_n c) [])[s := [[s]]]"
  have inv0: "sp_paths_inv s ?p0"
    using st(1) by (auto simp: sp_paths_inv_def nth_list_update split: if_splits)
  have "\<exists>paths'. sp_paths_loop (VtoV c) ?cs ds ?p0 [s] = Some paths' \<and> length paths' = length ?p0
           \<and> sp_paths_inv s paths'"
    by (rule sp_paths_loop_Some[OF _ _ inv0]) (use adj st in auto)
  then obtain paths where paths: "sp_paths_loop (VtoV c) ?cs ds ?p0 [s] = Some paths"
    "length paths = conf_n c" "sp_paths_inv s paths" by auto
  have "\<forall>p\<in>set (unique_paths (paths ! t)). p \<noteq> [] \<and> hd p = s \<and> last p = t"
    using paths(2,3) st(2) by (auto simp: set_unique_paths sp_paths_inv_def)
  then show ?thesis using ds paths(1) st by (simp add: shortestPaths_def Let_def)
qed

section \<open>Cached paths and the cycle tests\<close>

definition paths_ok :: "Configuration \<Rightarrow> bool" where
  "paths_ok c =
     (length (all_paths c) = conf_r c \<and>
      list_all (\<lambda>p. length (all_paths c ! p) = conf_r c \<and>
                     list_all (\<lambda>q. list_all (\<lambda>R. R \<noteq> [] \<and> hd R = p \<and> last R = q)
                                             (all_paths c ! p ! q))
                              [0..<conf_r c])
               [0..<conf_r c])"

definition conf_ok :: "Configuration \<Rightarrow> bool" where
  "conf_ok c = (graph_ok (conf_n c) (conf_r c) (VtoV c) \<and> paths_ok c)"

lemma paths_okD:
  "paths_ok c \<Longrightarrow> p < conf_r c \<Longrightarrow> q < conf_r c \<Longrightarrow> R \<in> set (all_paths c ! p ! q)
     \<Longrightarrow> R \<noteq> [] \<and> hd R = p \<and> last R = q"
  by (auto simp: paths_ok_def list_all_iff)

lemma calculatePaths_dfs_ends:
  "R \<in> set (calculatePaths_dfs adj q m v path) \<Longrightarrow> R \<noteq> [] \<and> hd R = hd (path @ [v]) \<and> last R = q"
proof (induction m arbitrary: v path R)
  case 0
  then show ?case by (auto split: if_splits)
next
  case (Suc m)
  show ?case
  proof (cases "v = q")
    case True
    then show ?thesis using Suc.prems by auto
  next
    case False
    then obtain u where u: "u \<in> set (adj ! v)" "u \<notin> set (path @ [v])"
      "R \<in> set (calculatePaths_dfs adj q m u (path @ [v]))"
      using Suc.prems by (auto split: if_splits)
    from Suc.IH[OF u(3)] show ?thesis by (cases path) auto
  qed
qed

lemma calculatePaths_ends:
  "R \<in> set (calculatePaths c p q) \<Longrightarrow> R \<noteq> [] \<and> hd R = p \<and> last R = q"
  using calculatePaths_dfs_ends[of R "VtoV c" q 7 p "[]"] by (simp add: calculatePaths_def)

lemma calculatePaths_dfs_length:
  "R \<in> set (calculatePaths_dfs adj q m v path) \<Longrightarrow> length R \<le> length path + m + 1"
proof (induction m arbitrary: v path R)
  case 0
  then show ?case by (auto split: if_splits)
next
  case (Suc m)
  show ?case
  proof (cases "v = q")
    case True
    then show ?thesis using Suc.prems by auto
  next
    case False
    then obtain u where "R \<in> set (calculatePaths_dfs adj q m u (path @ [v]))"
      using Suc.prems by (auto split: if_splits)
    from Suc.IH[OF this] show ?thesis by simp
  qed
qed

lemma hd_last_length: "R \<noteq> [] \<Longrightarrow> hd R \<noteq> last R \<Longrightarrow> 2 \<le> length R"
  by (cases R; cases "tl R") auto

lemma sizeOfVertices_Some:
  assumes "graph_ok (conf_n c) (conf_r c) (VtoV c)"
    and "R \<noteq> []" "hd R \<noteq> last R" "hd R < conf_r c" "last R < conf_r c"
  shows "\<exists>st. sizeOfVertices c R = Some st"
  using getComponent_Some[OF assms] by (auto simp: sizeOfVertices_def)

lemma canBeAlmostMinimal_Some:
  assumes "R \<noteq> []" "hd R \<noteq> last R" "hd R < conf_r c" "last R < conf_r c"
  shows "\<exists>b. canBeAlmostMinimal c R k cutSize = Some b"
  using assms hd_last_length[OF assms(1,2)]
  by (auto simp: canBeAlmostMinimal_def ring_ends_def Let_def)

lemma checkShortCycle_path_Some:
  assumes "graph_ok (conf_n c) (conf_r c) (VtoV c)"
    and "R \<noteq> []" "hd R \<noteq> last R" "hd R < conf_r c" "last R < conf_r c"
  shows "\<exists>b. checkShortCycle_path c a k cutSize R = Some b"
proof -
  obtain s t where "sizeOfVertices c R = Some (s, t)"
    using sizeOfVertices_Some[OF assms] by fastforce
  moreover obtain b where "canBeAlmostMinimal c R k cutSize = Some b"
    using canBeAlmostMinimal_Some[OF assms(2-5)] by blast
  ultimately show ?thesis by (auto simp: checkShortCycle_path_def Let_def)
qed

lemma checkShortCycle_eq:
  assumes ok: "conf_ok c" and ab: "a < conf_r c" "b < conf_r c" "a \<noteq> b"
  shows "checkShortCycle c a b k cutSize =
           Some (list_ex (\<lambda>R. checkShortCycle_path c a k cutSize R = Some True) (all_paths c ! a ! b))"
proof -
  have "any_first (checkShortCycle_path c a k cutSize) (all_paths c ! a ! b) =
          Some (list_ex (\<lambda>R. checkShortCycle_path c a k cutSize R = Some True) (all_paths c ! a ! b))"
  proof (rule any_first_Some)
    fix R assume "R \<in> set (all_paths c ! a ! b)"
    then have "R \<noteq> [] \<and> hd R = a \<and> last R = b"
      using paths_okD[of c a b R] ok ab by (simp add: conf_ok_def)
    then show "\<exists>x. checkShortCycle_path c a k cutSize R = Some x"
      using checkShortCycle_path_Some[of c R a k cutSize] ok ab by (simp add: conf_ok_def)
  qed
  then show ?thesis using ab by (simp add: checkShortCycle_def)
qed

lemma forbiddenCycle_Some:
  assumes ok: "conf_ok c" and ab: "a < conf_r c" "b < conf_r c" "a \<noteq> b"
    and k: "cutSize = 6 \<or> cutSize = 7" "k \<le> cutSize"
  shows "\<exists>x. forbiddenCycle c a b k cutSize = Some x"
  using k checkShortCycle_eq[OF ok ab] by (auto simp: forbiddenCycle_def Let_def)

lemma ring_gap_pos: "a < conf_r c \<Longrightarrow> b < conf_r c \<Longrightarrow> a \<noteq> b \<Longrightarrow> 0 < ring_gap c a b"
  by (auto simp: ring_gap_def Let_def)

lemma ring_gap_mod:
  assumes "a < conf_r c" "b < conf_r c"
  shows "(a + nat (ring_gap c a b)) mod conf_r c = b"
proof (cases "a < b")
  case True
  then have "a + nat (ring_gap c a b) = b" by (simp add: ring_gap_def Let_def)
  then show ?thesis using assms by simp
next
  case False
  then have "a + nat (ring_gap c a b) = b + conf_r c" using assms by (simp add: ring_gap_def Let_def)
  then show ?thesis using assms by simp
qed

lemma forbiddenCycleOneEdge_Some:
  assumes ok: "conf_ok c" and ab: "a < conf_r c" "b < conf_r c" "a \<noteq> b"
    and k: "cutSize = 6 \<or> cutSize = 7" "k \<le> cutSize"
  shows "\<exists>x. forbiddenCycleOneEdge c a b k cutSize = Some x"
proof -
  let ?q = "ring_gap c a b"
  let ?Q = "rev (map (\<lambda>v. v mod conf_r c) [a..<a + nat ?q + 1])"
  have Q: "?Q \<noteq> []" "hd ?Q = b" "last ?Q = a"
  proof -
    have 1: "[a..<a + nat ?q + 1] = [a..<a + nat ?q] @ [a + nat ?q]" by simp
    have 2: "[a..<a + nat ?q + 1] = a # [a + 1..<a + nat ?q + 1]"
      using upt_conv_Cons[of a "a + nat ?q + 1"] by simp
    show "?Q \<noteq> []" using 2 by simp
    show "hd ?Q = b" unfolding 1 using ring_gap_mod[OF ab(1,2)] by simp
    show "last ?Q = a" unfolding 2 using ab(1) by simp
  qed
  obtain s t where st: "sizeOfVertices c ?Q = Some (s, t)"
    using sizeOfVertices_Some[of c ?Q] ok Q ab by (fastforce simp: conf_ok_def)
  have "\<exists>x. any_first (forbiddenCycleOneEdge_path c k cutSize) (all_paths c ! a ! b) = Some x"
  proof (rule exI, rule any_first_Some)
    fix R assume "R \<in> set (all_paths c ! a ! b)"
    then have R: "R \<noteq> [] \<and> hd R = a \<and> last R = b"
      using paths_okD[of c a b R] ok ab by (simp add: conf_ok_def)
    obtain s' t' where "sizeOfVertices c R = Some (s', t')"
      using sizeOfVertices_Some[of c R] ok R ab by (fastforce simp: conf_ok_def)
    then show "\<exists>x. forbiddenCycleOneEdge_path c k cutSize R = Some x"
      by (auto simp: forbiddenCycleOneEdge_path_def Let_def)
  qed
  then show ?thesis using k st ab by (auto simp: forbiddenCycleOneEdge_def Let_def)
qed

section \<open>The table loops\<close>

lemma lowerBound_loop_least:
  assumes "\<And>k. k0 \<le> k \<Longrightarrow> k \<le> cutSize \<Longrightarrow> \<exists>b. forbidden k = Some b"
  shows "\<exists>m. lowerBound_loop forbidden k0 cutSize = Some m \<and> k0 \<le> m \<and>
              (m > cutSize \<or> forbidden m = Some False) \<and>
              (\<forall>k. k0 \<le> k \<and> k < m \<longrightarrow> k \<le> cutSize \<and> forbidden k = Some True)"
  using assms
proof (induction forbidden k0 cutSize rule: lowerBound_loop.induct)
  case (1 forbidden k cutSize)
  show ?case
  proof (cases "k > cutSize")
    case True
    then show ?thesis by (subst lowerBound_loop.simps) auto
  next
    case False
    then obtain b where b: "forbidden k = Some b" using "1.prems"[of k] by auto
    show ?thesis
    proof (cases b)
      case False
      then show ?thesis using b \<open>\<not> k > cutSize\<close> by (subst lowerBound_loop.simps) auto
    next
      case True
      have "\<exists>m. lowerBound_loop forbidden (k + 1) cutSize = Some m \<and> k + 1 \<le> m \<and>
              (m > cutSize \<or> forbidden m = Some False) \<and>
              (\<forall>j. k + 1 \<le> j \<and> j < m \<longrightarrow> j \<le> cutSize \<and> forbidden j = Some True)"
        using "1.IH"[OF False b] True "1.prems" by simp
      then obtain m where m: "lowerBound_loop forbidden (k + 1) cutSize = Some m" "k + 1 \<le> m"
        "m > cutSize \<or> forbidden m = Some False"
        "\<forall>j. k + 1 \<le> j \<and> j < m \<longrightarrow> j \<le> cutSize \<and> forbidden j = Some True" by blast
      have "\<forall>j. k \<le> j \<and> j < m \<longrightarrow> j \<le> cutSize \<and> forbidden j = Some True"
      proof (intro allI impI)
        fix j assume j: "k \<le> j \<and> j < m"
        show "j \<le> cutSize \<and> forbidden j = Some True"
        proof (cases "j = k")
          case True
          then show ?thesis using b \<open>b\<close> False by simp
        next
          case False
          then show ?thesis using m(4) j by simp
        qed
      qed
      moreover have "lowerBound_loop forbidden k cutSize = Some m"
        using m(1) b True False by (subst lowerBound_loop.simps) simp
      ultimately show ?thesis using m(2,3) by auto
    qed
  qed
qed

lemma for_each_append:
  "for_each f (xs @ ys) s = Option.bind (for_each f xs s) (for_each f ys)"
  by (induction xs arbitrary: s) (auto split: option.splits)

definition square :: "nat \<Rightarrow> 'a list list \<Rightarrow> bool" where
  "square r tbl = (length tbl = r \<and> (\<forall>i<r. length (tbl ! i) = r))"

lemma set2_nth:
  "square r tbl \<Longrightarrow> p < r \<Longrightarrow> q < r \<Longrightarrow> i < r \<Longrightarrow> j < r \<Longrightarrow>
     set2 tbl p q x ! i ! j = (if i = p \<and> j = q then x else tbl ! i ! j)"
  by (auto simp: set2_def square_def nth_list_update)

lemma set2_square: "square r tbl \<Longrightarrow> square r (set2 tbl p q x)"
  by (cases "p < length tbl") (auto simp: set2_def square_def nth_list_update)

lemma table_row:
  assumes sq: "square r tbl" and p: "p < r" and k: "k \<le> r"
    and body: "\<And>q t. q < r \<Longrightarrow> g q t = Some (if skip q then t else set2 t p q (v q))"
  shows "\<exists>tbl'. for_each g [0..<k] tbl = Some tbl' \<and> square r tbl' \<and>
           (\<forall>i<r. \<forall>j<r. tbl' ! i ! j =
              (if i = p \<and> j < k \<and> \<not> skip j then v j else tbl ! i ! j))"
  using k
proof (induction k)
  case 0
  then show ?case using sq by simp
next
  case (Suc k)
  then obtain t1 where t1: "for_each g [0..<k] tbl = Some t1" "square r t1"
    "\<forall>i<r. \<forall>j<r. t1 ! i ! j = (if i = p \<and> j < k \<and> \<not> skip j then v j else tbl ! i ! j)"
    by auto
  have kr: "k < r" using Suc.prems by simp
  let ?t2 = "if skip k then t1 else set2 t1 p k (v k)"
  have "for_each g [0..<Suc k] tbl = Some ?t2"
    using t1(1) body[OF kr] by (simp add: for_each_append)
  moreover have "square r ?t2" using t1(2) by (simp add: set2_square)
  moreover have "\<forall>i<r. \<forall>j<r. ?t2 ! i ! j =
              (if i = p \<and> j < Suc k \<and> \<not> skip j then v j else tbl ! i ! j)"
    using t1(2,3) p kr by (auto simp: set2_nth less_Suc_eq)
  ultimately show ?case by blast
qed

lemma table_fill:
  assumes body: "\<And>p q t. p < r \<Longrightarrow> q < r \<Longrightarrow>
                   g p q t = Some (if skip p q then t else set2 t p q (v p q))"
    and k: "k \<le> r"
  shows "\<exists>tbl'. for_each (\<lambda>p. for_each (g p) [0..<r]) [0..<k] (replicate r (replicate r z)) = Some tbl'
           \<and> square r tbl' \<and>
           (\<forall>i<r. \<forall>j<r. tbl' ! i ! j = (if i < k \<and> \<not> skip i j then v i j else z))"
  using k
proof (induction k)
  case 0
  then show ?case by (simp add: square_def)
next
  case (Suc k)
  then obtain t1 where t1:
    "for_each (\<lambda>p. for_each (g p) [0..<r]) [0..<k] (replicate r (replicate r z)) = Some t1"
    "square r t1"
    "\<forall>i<r. \<forall>j<r. t1 ! i ! j = (if i < k \<and> \<not> skip i j then v i j else z)"
    by auto
  have kr: "k < r" using Suc.prems by simp
  obtain t2 where t2: "for_each (g k) [0..<r] t1 = Some t2" "square r t2"
    "\<forall>i<r. \<forall>j<r. t2 ! i ! j = (if i = k \<and> j < r \<and> \<not> skip k j then v k j else t1 ! i ! j)"
    using table_row[OF t1(2) kr order_refl, of "g k" "skip k" "v k"] body[OF kr] by blast
  have "for_each (\<lambda>p. for_each (g p) [0..<r]) [0..<Suc k] (replicate r (replicate r z)) = Some t2"
    using t1(1) t2(1) by (simp add: for_each_append)
  moreover have "\<forall>i<r. \<forall>j<r. t2 ! i ! j = (if i < Suc k \<and> \<not> skip i j then v i j else z)"
    using t1(3) t2(3) by (auto simp: less_Suc_eq)
  ultimately show ?case using t2(2) by blast
qed

lemma lowerBound_table_eq:
  assumes "\<And>p q k. p < conf_r c \<Longrightarrow> q < conf_r c \<Longrightarrow> p \<noteq> q \<Longrightarrow> k \<le> cutSize
             \<Longrightarrow> \<exists>b. forbidden p q k = Some b"
  shows "\<exists>tbl. lowerBound_table c forbidden k0 cutSize = Some tbl \<and> square (conf_r c) tbl \<and>
           (\<forall>p<conf_r c. \<forall>q<conf_r c. tbl ! p ! q =
              (if p = q then 0
               else if p + 1 = q \<or> (p = conf_r c - 1 \<and> q = 0) then 1
               else the (lowerBound_loop (forbidden p q) k0 cutSize)))"
proof -
  let ?r = "conf_r c"
  let ?g = "\<lambda>p q tbl.
                  if p = q then Some tbl
                  else if p + 1 = q \<or> (p = ?r - 1 \<and> q = 0) then Some (set2 tbl p q 1)
                  else map_option (\<lambda>k. set2 tbl p q k) (lowerBound_loop (forbidden p q) k0 cutSize)"
  let ?v = "\<lambda>p q. if p + 1 = q \<or> (p = ?r - 1 \<and> q = 0) then 1
                   else the (lowerBound_loop (forbidden p q) k0 cutSize)"
  have body: "?g p q t = Some (if p = q then t else set2 t p q (?v p q))"
    if "p < ?r" "q < ?r" for p q and t :: "int list list"
  proof (cases "p = q \<or> p + 1 = q \<or> (p = ?r - 1 \<and> q = 0)")
    case True
    then show ?thesis by auto
  next
    case False
    then have "\<exists>m. lowerBound_loop (forbidden p q) k0 cutSize = Some m"
      using lowerBound_loop_least[of k0 cutSize "forbidden p q"] assms[OF that] by blast
    then show ?thesis using False by auto
  qed
  from table_fill[of ?r ?g "\<lambda>p q. p = q" ?v ?r 0, OF body order_refl]
  show ?thesis unfolding lowerBound_table_def by auto
qed

section \<open>Dependence on the graph alone\<close>

definition same_graph :: "Configuration \<Rightarrow> Configuration \<Rightarrow> bool" where
  "same_graph c c' =
     (conf_n c = conf_n c' \<and> conf_r c = conf_r c' \<and> VtoV c = VtoV c' \<and> all_paths c = all_paths c')"

lemma getComponent_cong: "same_graph c c' \<Longrightarrow> getComponent c R = getComponent c' R"
  by (simp add: same_graph_def getComponent_def Let_def cong: if_cong)

lemma sizeOfVertices_cong: "same_graph c c' \<Longrightarrow> sizeOfVertices c R = sizeOfVertices c' R"
proof -
  assume sg: "same_graph c c'"
  then have "count_ring_inside c = count_ring_inside c'"
    by (simp add: same_graph_def count_ring_inside_def fun_eq_iff)
  then show ?thesis using getComponent_cong[OF sg, of R] by (simp add: sizeOfVertices_def)
qed

lemma canBeAlmostMinimal_cong:
  "same_graph c c' \<Longrightarrow> canBeAlmostMinimal c R k cutSize = canBeAlmostMinimal c' R k cutSize"
  by (simp add: same_graph_def canBeAlmostMinimal_def ring_ends_def number_in_ring_def Let_def
        cong: if_cong)

lemma checkShortCycle_cong:
  "same_graph c c' \<Longrightarrow> checkShortCycle c a b k cutSize = checkShortCycle c' a b k cutSize"
proof -
  assume sg: "same_graph c c'"
  have "checkShortCycle_path c a k cutSize = checkShortCycle_path c' a k cutSize"
    using sg sizeOfVertices_cong[OF sg] canBeAlmostMinimal_cong[OF sg]
    by (simp add: checkShortCycle_path_def fun_eq_iff same_graph_def Let_def
          cong: if_cong Option.bind_cong)
  then show ?thesis using sg by (simp add: checkShortCycle_def same_graph_def cong: if_cong)
qed

lemma forbiddenCycle_cong:
  "same_graph c c' \<Longrightarrow> forbiddenCycle c a b k cutSize = forbiddenCycle c' a b k cutSize"
  using checkShortCycle_cong[of c c']
  by (simp add: forbiddenCycle_def ring_gap_def same_graph_def Let_def cong: if_cong)

lemma forbiddenCycleOneEdge_cong:
  "same_graph c c' \<Longrightarrow> forbiddenCycleOneEdge c a b k cutSize = forbiddenCycleOneEdge c' a b k cutSize"
proof -
  assume sg: "same_graph c c'"
  have "forbiddenCycleOneEdge_path c k cutSize = forbiddenCycleOneEdge_path c' k cutSize"
    using sg sizeOfVertices_cong[OF sg]
    by (simp add: forbiddenCycleOneEdge_path_def fun_eq_iff same_graph_def number_in_ring_def
          Let_def cong: if_cong Option.bind_cong)
  then show ?thesis using sg sizeOfVertices_cong[OF sg]
    by (simp add: forbiddenCycleOneEdge_def same_graph_def ring_gap_def Let_def
          cong: if_cong Option.bind_cong)
qed

lemma conf_ok_cong: "same_graph c c' \<Longrightarrow> conf_ok c = conf_ok c'"
  by (simp add: same_graph_def conf_ok_def paths_ok_def cong: if_cong)

lemma ring_next_iff:
  fixes p q r :: nat
  assumes "p < r" "q < r"
  shows "(p + 1 = q \<or> (p = r - 1 \<and> q = 0)) \<longleftrightarrow> q = (p + 1) mod r"
proof (cases "p + 1 = r")
  case True
  then have "(p + 1) mod r = 0" by simp
  moreover have "p = r - 1" "p + 1 \<noteq> q" using True assms by auto
  ultimately show ?thesis by simp
next
  case False
  then have "p + 1 < r" using assms by simp
  then have "(p + 1) mod r = p + 1" by simp
  moreover have "p \<noteq> r - 1" using False assms by auto
  ultimately show ?thesis by auto
qed

definition least_from :: "int \<Rightarrow> (int \<Rightarrow> bool) \<Rightarrow> int \<Rightarrow> bool" where
  "least_from k0 P m = (k0 \<le> m \<and> P m \<and> list_all (\<lambda>k. \<not> P k) [k0..m - 1])"

lemma least_from_iff: "least_from k0 P m \<longleftrightarrow> k0 \<le> m \<and> P m \<and> (\<forall>k. k0 \<le> k \<and> k < m \<longrightarrow> \<not> P k)"
  by (auto simp: least_from_def list_all_iff)

lemma calcLowerBound_entry:
  assumes ok: "conf_ok c" and C: "cutSize = 6 \<or> cutSize = 7"
  shows "\<exists>tbl. calcLowerBoundLengthOuterPath c cutSize = Some tbl \<and>
           (\<forall>p<conf_r c. \<forall>q<conf_r c. p \<noteq> q \<longrightarrow>
              (if q = (p + 1) mod conf_r c then tbl ! p ! q = 1
               else least_from 0 (\<lambda>k. k > cutSize \<or> forbiddenCycle c p q k cutSize = Some False)
                      (tbl ! p ! q)) \<and> tbl ! p ! q \<le> cutSize + 1)"
proof -
  let ?f = "\<lambda>p q k. forbiddenCycle c p q k cutSize"
  have tot: "\<exists>b. ?f p q k = Some b" if "p < conf_r c" "q < conf_r c" "p \<noteq> q" "k \<le> cutSize" for p q k
    using forbiddenCycle_Some[OF ok that(1,2,3) C that(4)] .
  from lowerBound_table_eq[of c cutSize ?f 0, OF tot]
  obtain tbl where tbl: "lowerBound_table c ?f 0 cutSize = Some tbl"
    "\<forall>p<conf_r c. \<forall>q<conf_r c. tbl ! p ! q =
              (if p = q then 0
               else if p + 1 = q \<or> (p = conf_r c - 1 \<and> q = 0) then 1
               else the (lowerBound_loop (?f p q) 0 cutSize))" by blast
  have "(if q = (p + 1) mod conf_r c then tbl ! p ! q = 1
               else least_from 0 (\<lambda>k. k > cutSize \<or> ?f p q k = Some False) (tbl ! p ! q))
        \<and> tbl ! p ! q \<le> cutSize + 1"
    if pq: "p < conf_r c" "q < conf_r c" "p \<noteq> q" for p q
  proof (cases "q = (p + 1) mod conf_r c")
    case True
    then show ?thesis using tbl(2) pq C ring_next_iff[OF pq(1,2)] by auto
  next
    case False
    from lowerBound_loop_least[of 0 cutSize "?f p q"] tot[OF pq]
    obtain m where m: "lowerBound_loop (?f p q) 0 cutSize = Some m" "0 \<le> m"
      "m > cutSize \<or> ?f p q m = Some False"
      "\<forall>k. 0 \<le> k \<and> k < m \<longrightarrow> k \<le> cutSize \<and> ?f p q k = Some True" by blast
    have e: "tbl ! p ! q = m" using tbl(2) pq False ring_next_iff[OF pq(1,2)] m(1) by auto
    have "m \<le> cutSize + 1"
    proof (rule ccontr)
      assume "\<not> m \<le> cutSize + 1"
      then have "0 \<le> m - 1 \<and> m - 1 < m \<and> \<not> m - 1 \<le> cutSize" using C by auto
      then show False using m(4) by blast
    qed
    moreover have "least_from 0 (\<lambda>k. k > cutSize \<or> ?f p q k = Some False) m"
      unfolding least_from_iff using m by auto
    ultimately show ?thesis using e False by simp
  qed
  then show ?thesis using tbl(1) by (auto simp: calcLowerBoundLengthOuterPath_def)
qed

lemma calcLowerBoundOneEdge_entry:
  assumes ok: "conf_ok c" and C: "cutSize = 6 \<or> cutSize = 7"
  shows "\<exists>tbl. calcLowerBoundLengthOuterPathOneEdge c cutSize = Some tbl \<and>
           (\<forall>p<conf_r c. \<forall>q<conf_r c. p \<noteq> q \<longrightarrow>
              (if q = (p + 1) mod conf_r c then tbl ! p ! q = 1
               else least_from 1 (\<lambda>k. k > cutSize \<or> forbiddenCycleOneEdge c p q k cutSize = Some False)
                      (tbl ! p ! q)) \<and> tbl ! p ! q \<le> cutSize + 1)"
proof -
  let ?f = "\<lambda>p q k. forbiddenCycleOneEdge c p q k cutSize"
  have tot: "\<exists>b. ?f p q k = Some b" if "p < conf_r c" "q < conf_r c" "p \<noteq> q" "k \<le> cutSize" for p q k
    using forbiddenCycleOneEdge_Some[OF ok that(1,2,3) C that(4)] .
  from lowerBound_table_eq[of c cutSize ?f 1, OF tot]
  obtain tbl where tbl: "lowerBound_table c ?f 1 cutSize = Some tbl"
    "\<forall>p<conf_r c. \<forall>q<conf_r c. tbl ! p ! q =
              (if p = q then 0
               else if p + 1 = q \<or> (p = conf_r c - 1 \<and> q = 0) then 1
               else the (lowerBound_loop (?f p q) 1 cutSize))" by blast
  have "(if q = (p + 1) mod conf_r c then tbl ! p ! q = 1
               else least_from 1 (\<lambda>k. k > cutSize \<or> ?f p q k = Some False) (tbl ! p ! q))
        \<and> tbl ! p ! q \<le> cutSize + 1"
    if pq: "p < conf_r c" "q < conf_r c" "p \<noteq> q" for p q
  proof (cases "q = (p + 1) mod conf_r c")
    case True
    then show ?thesis using tbl(2) pq C ring_next_iff[OF pq(1,2)] by auto
  next
    case False
    from lowerBound_loop_least[of 1 cutSize "?f p q"] tot[OF pq]
    obtain m where m: "lowerBound_loop (?f p q) 1 cutSize = Some m" "1 \<le> m"
      "m > cutSize \<or> ?f p q m = Some False"
      "\<forall>k. 1 \<le> k \<and> k < m \<longrightarrow> k \<le> cutSize \<and> ?f p q k = Some True" by blast
    have e: "tbl ! p ! q = m" using tbl(2) pq False ring_next_iff[OF pq(1,2)] m(1) by auto
    have "m \<le> cutSize + 1"
    proof (rule ccontr)
      assume "\<not> m \<le> cutSize + 1"
      then have "1 \<le> m - 1 \<and> m - 1 < m \<and> \<not> m - 1 \<le> cutSize" using C by auto
      then show False using m(4) by blast
    qed
    moreover have "least_from 1 (\<lambda>k. k > cutSize \<or> ?f p q k = Some False) m"
      unfolding least_from_iff using m by auto
    ultimately show ?thesis using e False by simp
  qed
  then show ?thesis using tbl(1) by (auto simp: calcLowerBoundLengthOuterPathOneEdge_def)
qed

section \<open>Tables of a constructed configuration\<close>

definition table_entries_ok ::
  "Configuration \<Rightarrow> int \<Rightarrow> int list list \<Rightarrow> int list list \<Rightarrow> nat \<Rightarrow> nat \<Rightarrow> bool" where
  "table_entries_ok c cutSize len len1 p q =
     ((if q = (p + 1) mod conf_r c then len ! p ! q = 1 \<and> len1 ! p ! q = 1
       else least_from 0 (\<lambda>k. k > cutSize \<or> forbiddenCycle c p q k cutSize = Some False)
              (len ! p ! q) \<and>
            least_from 1 (\<lambda>k. k > cutSize \<or> forbiddenCycleOneEdge c p q k cutSize = Some False)
              (len1 ! p ! q)) \<and>
      len ! p ! q \<le> cutSize + 1 \<and> len1 ! p ! q \<le> cutSize + 1)"

lemma WF_False_Some: "WF c False = Some (WF_loop (conf_n c) (WF_edges c))"
  by (simp add: WF_def)

lemma new_Configuration_tables:
  assumes ok: "graph_ok n r adj"
  shows "\<exists>c. new_Configuration n r adj = Some c \<and> conf_ok c \<and>
           conf_n c = n \<and> conf_r c = r \<and> VtoV c = adj \<and>
           (\<forall>p<r. \<forall>q<r. p \<noteq> q \<longrightarrow>
              table_entries_ok c 6 (length6 c) (length_oneedge6 c) p q \<and>
              table_entries_ok c 7 (length7 c) (length_oneedge7 c) p q)"
proof -
  define c0 where "c0 = \<lparr> contract = [],
                is_reductable_inside = replicate n False,
                is_reductable_outside6 = replicate n False,
                is_reductable_outside7 = replicate n False,
                dist_contracted = [], representative = [],
                length6 = [], length_oneedge6 = [], length7 = [], length_oneedge7 = [],
                all_paths = [], conf_n = n, conf_r = r, VtoV = adj, dist = [] \<rparr>"
  define c1 where "c1 = c0\<lparr>dist := WF_loop n (WF_edges c0)\<rparr>"
  define c2 where "c2 = c1\<lparr>dist_contracted := dist c1\<rparr>"
  define c3 where "c3 = c2\<lparr>representative := calcRepresentative c2\<rparr>"
  define c4 where "c4 = c3\<lparr>all_paths :=
                    map (\<lambda>p. map (\<lambda>q. if p = q then [] else calculatePaths c3 p q) [0..<r]) [0..<r]\<rparr>"
  have f4: "conf_n c4 = n" "conf_r c4 = r" "VtoV c4 = adj"
    by (simp_all add: c4_def c3_def c2_def c1_def c0_def)
  have "paths_ok c4"
    unfolding paths_ok_def list_all_iff
    using calculatePaths_ends[of _ c3]
    by (auto simp: c4_def c3_def c2_def c1_def c0_def)
  then have ok4: "conf_ok c4" using ok f4 by (simp add: conf_ok_def)
  obtain l6 where l6: "calcLowerBoundLengthOuterPath c4 6 = Some l6"
    "\<forall>p<conf_r c4. \<forall>q<conf_r c4. p \<noteq> q \<longrightarrow>
              (if q = (p + 1) mod conf_r c4 then l6 ! p ! q = 1
               else least_from 0 (\<lambda>k. k > 6 \<or> forbiddenCycle c4 p q k 6 = Some False)
                      (l6 ! p ! q)) \<and> l6 ! p ! q \<le> 6 + 1"
    using calcLowerBound_entry[OF ok4, of 6] by auto
  define c5 where "c5 = c4\<lparr>length6 := l6\<rparr>"
  have sg5: "same_graph c5 c4" by (simp add: same_graph_def c5_def)
  have ok5: "conf_ok c5" using conf_ok_cong[OF sg5] ok4 by simp
  obtain l7 where l7: "calcLowerBoundLengthOuterPath c5 7 = Some l7"
    "\<forall>p<conf_r c5. \<forall>q<conf_r c5. p \<noteq> q \<longrightarrow>
              (if q = (p + 1) mod conf_r c5 then l7 ! p ! q = 1
               else least_from 0 (\<lambda>k. k > 7 \<or> forbiddenCycle c5 p q k 7 = Some False)
                      (l7 ! p ! q)) \<and> l7 ! p ! q \<le> 7 + 1"
    using calcLowerBound_entry[OF ok5, of 7] by auto
  define c6 where "c6 = c5\<lparr>length7 := l7\<rparr>"
  have sg6: "same_graph c6 c4" by (simp add: same_graph_def c6_def c5_def)
  have ok6: "conf_ok c6" using conf_ok_cong[OF sg6] ok4 by simp
  obtain e6 where e6: "calcLowerBoundLengthOuterPathOneEdge c6 6 = Some e6"
    "\<forall>p<conf_r c6. \<forall>q<conf_r c6. p \<noteq> q \<longrightarrow>
              (if q = (p + 1) mod conf_r c6 then e6 ! p ! q = 1
               else least_from 1 (\<lambda>k. k > 6 \<or> forbiddenCycleOneEdge c6 p q k 6 = Some False)
                      (e6 ! p ! q)) \<and> e6 ! p ! q \<le> 6 + 1"
    using calcLowerBoundOneEdge_entry[OF ok6, of 6] by auto
  define c7 where "c7 = c6\<lparr>length_oneedge6 := e6\<rparr>"
  have sg7: "same_graph c7 c4" by (simp add: same_graph_def c7_def c6_def c5_def)
  have ok7: "conf_ok c7" using conf_ok_cong[OF sg7] ok4 by simp
  obtain e7 where e7: "calcLowerBoundLengthOuterPathOneEdge c7 7 = Some e7"
    "\<forall>p<conf_r c7. \<forall>q<conf_r c7. p \<noteq> q \<longrightarrow>
              (if q = (p + 1) mod conf_r c7 then e7 ! p ! q = 1
               else least_from 1 (\<lambda>k. k > 7 \<or> forbiddenCycleOneEdge c7 p q k 7 = Some False)
                      (e7 ! p ! q)) \<and> e7 ! p ! q \<le> 7 + 1"
    using calcLowerBoundOneEdge_entry[OF ok7, of 7] by auto
  define c8 where "c8 = c7\<lparr>length_oneedge7 := e7\<rparr>"
  have sg8: "same_graph c8 c4" by (simp add: same_graph_def c8_def c7_def c6_def c5_def)
  have ok8: "conf_ok c8" using conf_ok_cong[OF sg8] ok4 by simp
  have new: "new_Configuration n r adj = Some c8"
    using l6(1) l7(1) e6(1) e7(1)
    unfolding new_Configuration_def Let_def WF_False_Some
      c8_def c7_def c6_def c5_def c4_def c3_def c2_def c1_def c0_def
    by simp
  have f8: "conf_n c8 = n" "conf_r c8 = r" "VtoV c8 = adj"
    "length6 c8 = l6" "length7 c8 = l7" "length_oneedge6 c8 = e6" "length_oneedge7 c8 = e7"
    by (simp_all add: c8_def c7_def c6_def c5_def f4)
  have r: "conf_r c4 = r" "conf_r c5 = r" "conf_r c6 = r" "conf_r c7 = r"
    using f4 by (simp_all add: c7_def c6_def c5_def)
  have fc: "forbiddenCycle c4 = forbiddenCycle c8" "forbiddenCycle c5 = forbiddenCycle c8"
    "forbiddenCycleOneEdge c6 = forbiddenCycleOneEdge c8"
    "forbiddenCycleOneEdge c7 = forbiddenCycleOneEdge c8"
    using forbiddenCycle_cong[of c4 c8] forbiddenCycle_cong[of c5 c8]
      forbiddenCycleOneEdge_cong[of c6 c8] forbiddenCycleOneEdge_cong[of c7 c8]
      sg5 sg6 sg7 sg8
    by (auto simp: fun_eq_iff same_graph_def)
  have "table_entries_ok c8 6 (length6 c8) (length_oneedge6 c8) p q \<and>
        table_entries_ok c8 7 (length7 c8) (length_oneedge7 c8) p q"
    if "p < r" "q < r" "p \<noteq> q" for p q
    using l6(2)[rule_format, of p q] l7(2)[rule_format, of p q]
      e6(2)[rule_format, of p q] e7(2)[rule_format, of p q] that
    unfolding table_entries_ok_def f8 r fc by (cases "q = (p + 1) mod r") simp_all
  then show ?thesis using new ok8 f8(1-3) by blast
qed

section \<open>The Floyd-Warshall loop\<close>

fun walk_weight :: "int list list \<Rightarrow> nat \<Rightarrow> nat list \<Rightarrow> nat \<Rightarrow> int" where
  "walk_weight W i [] j = W ! i ! j"
| "walk_weight W i (v # vs) j = W ! i ! v + walk_weight W v vs j"

definition nonneg_matrix :: "nat \<Rightarrow> int list list \<Rightarrow> bool" where
  "nonneg_matrix n W = (\<forall>i<n. \<forall>j<n. 0 \<le> W ! i ! j)"

lemma walk_weight_append:
  "walk_weight W i (xs @ v # ys) j = walk_weight W i xs v + walk_weight W v ys j"
  by (induction xs arbitrary: i) auto

lemma walk_weight_nonneg:
  "nonneg_matrix n W \<Longrightarrow> i < n \<Longrightarrow> j < n \<Longrightarrow> set vs \<subseteq> {..<n} \<Longrightarrow> 0 \<le> walk_weight W i vs j"
  by (induction vs arbitrary: i) (auto simp: nonneg_matrix_def)

lemma walk_weight_rev:
  assumes "\<forall>i<n. \<forall>j<n. W ! i ! j = W ! j ! i"
  shows "i < n \<Longrightarrow> j < n \<Longrightarrow> set vs \<subseteq> {..<n} \<Longrightarrow> walk_weight W j (rev vs) i = walk_weight W i vs j"
proof (induction vs arbitrary: i)
  case Nil
  then show ?case using assms by simp
next
  case (Cons v vs)
  have "walk_weight W j (rev vs @ [v]) i = walk_weight W j (rev vs) v + walk_weight W v [] i"
    using walk_weight_append[of W j "rev vs" v "[]" i] by simp
  also have "\<dots> = walk_weight W v vs j + W ! i ! v" using Cons assms by simp
  finally show ?case by simp
qed

text \<open>The bound that the entry \<open>(i, j)\<close> satisfies once it is relaxed through all vertices below \<open>k\<close>.\<close>

definition below :: "int list list \<Rightarrow> nat \<Rightarrow> int list list \<Rightarrow> nat \<Rightarrow> nat \<Rightarrow> bool" where
  "below W k d i j = (\<forall>vs. set vs \<subseteq> {..<k} \<longrightarrow> d ! i ! j \<le> walk_weight W i vs j)"

definition realised :: "nat \<Rightarrow> int list list \<Rightarrow> int list list \<Rightarrow> bool" where
  "realised n W d = (\<forall>i<n. \<forall>j<n. \<exists>vs. set vs \<subseteq> {..<n} \<and> d ! i ! j = walk_weight W i vs j)"

definition fw_inv :: "nat \<Rightarrow> int list list \<Rightarrow> nat \<Rightarrow> nat \<Rightarrow> nat \<Rightarrow> int list list \<Rightarrow> bool" where
  "fw_inv n W k i j d =
     (square n d \<and> realised n W d \<and>
      (\<forall>i'<n. \<forall>j'<n. below W (if i' < i \<or> (i' = i \<and> j' < j) then Suc k else k) d i' j'))"

lemma below_through:
  assumes nn: "nonneg_matrix n W" and k: "k < n" and ij: "i < n" "j < n"
    and ik: "below W k d i k" and kj: "below W k d k j" and b: "below W k d i j"
  shows "\<forall>vs. set vs \<subseteq> {..<Suc k} \<longrightarrow> min (d ! i ! j) (d ! i ! k + d ! k ! j) \<le> walk_weight W i vs j"
proof (intro allI impI)
  fix vs assume vs: "set vs \<subseteq> {..<Suc k}"
  show "min (d ! i ! j) (d ! i ! k + d ! k ! j) \<le> walk_weight W i vs j"
  proof (cases "k \<in> set vs")
    case False
    then have "set vs \<subseteq> {..<k}" using vs by (auto simp: less_Suc_eq)
    then show ?thesis using b by (auto simp: below_def)
  next
    case True
    then obtain xs ys where s1: "vs = xs @ k # ys" "k \<notin> set xs" by (meson split_list_first)
    have xs: "set xs \<subseteq> {..<k}" using vs s1 by (auto simp: less_Suc_eq)
    have ysn: "set ys \<subseteq> {..<n}" "set xs \<subseteq> {..<n}" using vs s1 k by auto
    have "d ! k ! j \<le> walk_weight W k ys j"
    proof (cases "k \<in> set ys")
      case False
      then have "set ys \<subseteq> {..<k}" using vs s1 by (auto simp: less_Suc_eq)
      then show ?thesis using kj by (auto simp: below_def)
    next
      case True
      then obtain us ws where s2: "ys = us @ k # ws" "k \<notin> set ws" by (meson split_list_last)
      have ws: "set ws \<subseteq> {..<k}" using vs s1 s2 by (auto simp: less_Suc_eq)
      have "set us \<subseteq> {..<n}" using ysn s2 by auto
      then have "0 \<le> walk_weight W k us k" using walk_weight_nonneg[OF nn k k] by simp
      moreover have "d ! k ! j \<le> walk_weight W k ws j" using kj ws by (auto simp: below_def)
      ultimately show ?thesis using s2 by (simp add: walk_weight_append)
    qed
    moreover have "d ! i ! k \<le> walk_weight W i xs k" using ik xs by (auto simp: below_def)
    ultimately show ?thesis using s1 by (simp add: walk_weight_append)
  qed
qed

lemma below_mono: "below W (Suc k) d i j \<Longrightarrow> below W k d i j"
  unfolding below_def
proof (intro allI impI)
  fix vs assume a: "\<forall>vs. set vs \<subseteq> {..<Suc k} \<longrightarrow> d ! i ! j \<le> walk_weight W i vs j"
    and "set vs \<subseteq> {..<k}"
  then have "set vs \<subseteq> {..<Suc k}" by auto
  then show "d ! i ! j \<le> walk_weight W i vs j" using a by blast
qed

lemma realisedD:
  "realised n W d \<Longrightarrow> i < n \<Longrightarrow> j < n \<Longrightarrow> \<exists>vs. set vs \<subseteq> {..<n} \<and> d ! i ! j = walk_weight W i vs j"
  by (simp add: realised_def)

lemma fw_relax_inv:
  assumes nn: "nonneg_matrix n W" and k: "k < n" and ij: "i < n" "j < n"
    and inv: "fw_inv n W k i j d"
  shows "fw_inv n W k i (Suc j) (WF_relax k i j d)"
proof -
  let ?d' = "WF_relax k i j d"
  let ?x = "min (d ! i ! j) (d ! i ! k + d ! k ! j)"
  from inv have sq: "square n d" and re: "realised n W d"
    and bl: "\<forall>i'<n. \<forall>j'<n. below W (if i' < i \<or> (i' = i \<and> j' < j) then Suc k else k) d i' j'"
    by (auto simp: fw_inv_def)
  have nth: "?d' ! a ! b = (if a = i \<and> b = j then ?x else d ! a ! b)" if "a < n" "b < n" for a b
    using set2_nth[OF sq ij that] by (simp add: WF_relax_def)
  have sq': "square n ?d'" using sq by (simp add: WF_relax_def set2_square)
  have blk: "below W k d a b" if "a < n" "b < n" for a b
    using bl[rule_format, OF that] below_mono by (auto split: if_splits)
  have re': "realised n W ?d'"
    unfolding realised_def
  proof (intro allI impI)
    fix a b assume ab: "a < n" "b < n"
    show "\<exists>vs. set vs \<subseteq> {..<n} \<and> ?d' ! a ! b = walk_weight W a vs b"
    proof (cases "a = i \<and> b = j \<and> d ! i ! k + d ! k ! j < d ! i ! j")
      case False
      then have "?d' ! a ! b = d ! a ! b" using nth[OF ab] by auto
      then show ?thesis using realisedD[OF re ab] by simp
    next
      case True
      obtain v1 where v1: "set v1 \<subseteq> {..<n}" "d ! i ! k = walk_weight W i v1 k"
        using realisedD[OF re ij(1) k] by blast
      obtain v2 where v2: "set v2 \<subseteq> {..<n}" "d ! k ! j = walk_weight W k v2 j"
        using realisedD[OF re k ij(2)] by blast
      have "?d' ! a ! b = walk_weight W i (v1 @ k # v2) j"
        using True nth[OF ab] v1 v2 by (simp add: walk_weight_append)
      moreover have "set (v1 @ k # v2) \<subseteq> {..<n}" using v1 v2 k by auto
      ultimately show ?thesis using True by blast
    qed
  qed
  have bl': "below W (if a < i \<or> (a = i \<and> b < Suc j) then Suc k else k) ?d' a b"
    if ab: "a < n" "b < n" for a b
  proof (cases "a = i \<and> b = j")
    case True
    have "\<forall>vs. set vs \<subseteq> {..<Suc k} \<longrightarrow> ?x \<le> walk_weight W i vs j"
      by (rule below_through[OF nn k ij blk[OF ij(1) k] blk[OF k ij(2)] blk[OF ij]])
    then show ?thesis using True nth[OF ab] by (simp add: below_def)
  next
    case False
    then have e: "?d' ! a ! b = d ! a ! b" using nth[OF ab] by auto
    have "(a < i \<or> (a = i \<and> b < Suc j)) = (a < i \<or> (a = i \<and> b < j))"
      using False by (auto simp: less_Suc_eq)
    then show ?thesis using bl[rule_format, OF ab] e by (simp add: below_def)
  qed
  show ?thesis unfolding fw_inv_def using sq' re' bl' by blast
qed

lemma fold_upt_Suc: "fold f [0..<Suc m] s = f m (fold f [0..<m] s)"
  by simp

lemma fw_row_inv:
  assumes nn: "nonneg_matrix n W" and k: "k < n" and i: "i < n" and m: "m \<le> n"
    and inv: "fw_inv n W k i 0 d"
  shows "fw_inv n W k i m (fold (\<lambda>j. WF_relax k i j) [0..<m] d)"
  using m
proof (induction m)
  case 0
  then show ?case using inv by simp
next
  case (Suc m)
  then have "fw_inv n W k i m (fold (\<lambda>j. WF_relax k i j) [0..<m] d)" by simp
  from fw_relax_inv[OF nn k i _ this] Suc.prems show ?case by (simp del: upt_Suc add: fold_upt_Suc)
qed

lemma fw_inv_next_row: "i < n \<Longrightarrow> fw_inv n W k i n d \<Longrightarrow> fw_inv n W k (Suc i) 0 d"
  unfolding fw_inv_def
  by (intro conjI allI impI; (elim conjE)?) (auto simp: less_Suc_eq cong: if_cong)

lemma fw_rows_inv:
  assumes nn: "nonneg_matrix n W" and k: "k < n" and m: "m \<le> n"
    and inv: "fw_inv n W k 0 0 d"
  shows "fw_inv n W k m 0 (fold (\<lambda>i. fold (\<lambda>j. WF_relax k i j) [0..<n]) [0..<m] d)"
  using m
proof (induction m)
  case 0
  then show ?case using inv by simp
next
  case (Suc m)
  then have 1: "fw_inv n W k m 0 (fold (\<lambda>i. fold (\<lambda>j. WF_relax k i j) [0..<n]) [0..<m] d)"
    and mn: "m < n" by simp_all
  have "fw_inv n W k m n (fold (\<lambda>j. WF_relax k m j) [0..<n]
           (fold (\<lambda>i. fold (\<lambda>j. WF_relax k i j) [0..<n]) [0..<m] d))"
    by (rule fw_row_inv[OF nn k mn order_refl 1])
  from fw_inv_next_row[OF mn this] show ?case by (simp del: upt_Suc add: fold_upt_Suc)
qed

lemma fw_inv_next_k: "fw_inv n W k n 0 d \<Longrightarrow> fw_inv n W (Suc k) 0 0 d"
  unfolding fw_inv_def by auto

lemma fw_loop_inv:
  assumes nn: "nonneg_matrix n W" and m: "m \<le> n" and inv: "fw_inv n W 0 0 0 d"
  shows "fw_inv n W m 0 0
           (fold (\<lambda>k. fold (\<lambda>i. fold (\<lambda>j. WF_relax k i j) [0..<n]) [0..<n]) [0..<m] d)"
  using m
proof (induction m)
  case 0
  then show ?case using inv by simp
next
  case (Suc m)
  then have 1: "fw_inv n W m 0 0
           (fold (\<lambda>k. fold (\<lambda>i. fold (\<lambda>j. WF_relax k i j) [0..<n]) [0..<n]) [0..<m] d)"
    and mn: "m < n" by simp_all
  from fw_inv_next_k[OF fw_rows_inv[OF nn mn order_refl 1]]
  show ?case by (simp del: upt_Suc add: fold_upt_Suc)
qed

lemma fw_inv_init: "square n W \<Longrightarrow> fw_inv n W 0 0 0 W"
  unfolding fw_inv_def realised_def below_def
  by (auto intro: exI[of _ "[]"])

text \<open>The result of the relaxation loop is the matrix of least walk weights.\<close>

lemma WF_loop_least:
  assumes sq: "square n W" and nn: "nonneg_matrix n W"
  shows "square n (WF_loop n W) \<and> realised n W (WF_loop n W) \<and>
         (\<forall>i<n. \<forall>j<n. below W n (WF_loop n W) i j)"
  using fw_loop_inv[OF nn order_refl fw_inv_init[OF sq]]
  by (simp add: fw_inv_def WF_loop_def)

lemma WF_loop_metric:
  assumes sq: "square n W" and nn: "nonneg_matrix n W"
  shows "\<forall>u<n. \<forall>v<n. \<forall>w<n. WF_loop n W ! u ! w \<le> WF_loop n W ! u ! v + WF_loop n W ! v ! w"
    and "\<forall>u<n. W ! u ! u = 0 \<longrightarrow> WF_loop n W ! u ! u = 0"
    and "(\<forall>i<n. \<forall>j<n. W ! i ! j = W ! j ! i) \<Longrightarrow>
           \<forall>u<n. \<forall>v<n. WF_loop n W ! u ! v = WF_loop n W ! v ! u"
    and "nonneg_matrix n (WF_loop n W)"
proof -
  let ?D = "WF_loop n W"
  from WF_loop_least[OF sq nn] have re: "realised n W ?D"
    and bl: "\<And>i j. i < n \<Longrightarrow> j < n \<Longrightarrow> below W n ?D i j" by auto
  show "\<forall>u<n. \<forall>v<n. \<forall>w<n. ?D ! u ! w \<le> ?D ! u ! v + ?D ! v ! w"
  proof (intro allI impI)
    fix u v w assume uvw: "u < n" "v < n" "w < n"
    obtain v1 where v1: "set v1 \<subseteq> {..<n}" "?D ! u ! v = walk_weight W u v1 v"
      using realisedD[OF re uvw(1,2)] by blast
    obtain v2 where v2: "set v2 \<subseteq> {..<n}" "?D ! v ! w = walk_weight W v v2 w"
      using realisedD[OF re uvw(2,3)] by blast
    have "set (v1 @ v # v2) \<subseteq> {..<n}" using v1 v2 uvw by auto
    then have "?D ! u ! w \<le> walk_weight W u (v1 @ v # v2) w"
      using bl[OF uvw(1,3)] unfolding below_def by blast
    then show "?D ! u ! w \<le> ?D ! u ! v + ?D ! v ! w"
      using v1 v2 by (simp add: walk_weight_append)
  qed
  show nnD: "nonneg_matrix n ?D"
    unfolding nonneg_matrix_def
  proof (intro allI impI)
    fix i j assume ij: "i < n" "j < n"
    obtain vs where "set vs \<subseteq> {..<n}" "?D ! i ! j = walk_weight W i vs j"
      using realisedD[OF re ij] by blast
    then show "0 \<le> ?D ! i ! j" using walk_weight_nonneg[OF nn ij] by simp
  qed
  show "\<forall>u<n. W ! u ! u = 0 \<longrightarrow> ?D ! u ! u = 0"
  proof (intro allI impI)
    fix u assume u: "u < n" "W ! u ! u = 0"
    have "?D ! u ! u \<le> walk_weight W u [] u"
      using bl[OF u(1) u(1)] unfolding below_def by (auto dest: spec[of _ "[]"])
    moreover have "0 \<le> ?D ! u ! u" using nnD u(1) by (simp add: nonneg_matrix_def)
    ultimately show "?D ! u ! u = 0" using u(2) by simp
  qed
  show "\<forall>u<n. \<forall>v<n. ?D ! u ! v = ?D ! v ! u" if sym: "\<forall>i<n. \<forall>j<n. W ! i ! j = W ! j ! i"
  proof -
    have le: "?D ! v ! u \<le> ?D ! u ! v" if uv: "u < n" "v < n" for u v
    proof -
      obtain vs where vs: "set vs \<subseteq> {..<n}" "?D ! u ! v = walk_weight W u vs v"
        using realisedD[OF re uv] by blast
      have "?D ! v ! u \<le> walk_weight W v (rev vs) u"
        using bl[OF uv(2,1)] vs(1) unfolding below_def by simp
      then show ?thesis using walk_weight_rev[OF sym uv vs(1)] vs(2) by simp
    qed
    show ?thesis using le by (auto intro: antisym)
  qed
qed

section \<open>The initial matrix and the contraction assertion\<close>

lemma set2_nth_row:
  "square n d \<Longrightarrow> p < n \<Longrightarrow> i < n \<Longrightarrow> j < n \<Longrightarrow>
     set2 d p q x ! i ! j = (if i = p \<and> j = q then x else d ! i ! j)"
  by (cases "q < n") (auto simp: set2_def square_def nth_list_update)

lemma WF_edges_row:
  assumes "square n d" "v < n"
  shows "square n (fold (\<lambda>u d. set2 d v u (1::int)) us d) \<and>
         (\<forall>i<n. \<forall>j<n. fold (\<lambda>u d. set2 d v u 1) us d ! i ! j =
                          (if i = v \<and> j \<in> set us then 1 else d ! i ! j))"
  using assms
proof (induction us arbitrary: d)
  case Nil
  then show ?case by simp
next
  case (Cons u us)
  have sq: "square n (set2 d v u 1)" using Cons.prems by (simp add: set2_square)
  from Cons.IH[OF sq Cons.prems(2)] show ?case
    using set2_nth_row[OF Cons.prems(1,2)] by auto
qed

definition edge_weight :: "nat list list \<Rightarrow> nat \<Rightarrow> nat \<Rightarrow> int" where
  "edge_weight adj i j = (if j \<in> set (adj ! i) then 1 else if i = j then 0 else INF_const)"

lemma WF_edges_rows:
  assumes "m \<le> n"
  shows "square n (fold (\<lambda>v d. fold (\<lambda>u d. set2 d v u 1) (adj ! v) (set2 d v v 0)) [0..<m]
                     (replicate n (replicate n INF_const))) \<and>
         (\<forall>i<n. \<forall>j<n. fold (\<lambda>v d. fold (\<lambda>u d. set2 d v u 1) (adj ! v) (set2 d v v 0)) [0..<m]
                     (replicate n (replicate n INF_const)) ! i ! j =
                   (if i < m then edge_weight adj i j else INF_const))"
  using assms
proof (induction m)
  case 0
  then show ?case by (simp add: square_def)
next
  case (Suc m)
  let ?d = "fold (\<lambda>v d. fold (\<lambda>u d. set2 d v u 1) (adj ! v) (set2 d v v 0)) [0..<m]
                     (replicate n (replicate n INF_const))"
  from Suc have d: "square n ?d" "\<forall>i<n. \<forall>j<n. ?d ! i ! j = (if i < m then edge_weight adj i j else INF_const)"
    and mn: "m < n" by simp_all
  have sq0: "square n (set2 ?d m m 0)" using d(1) by (simp add: set2_square)
  from WF_edges_row[OF sq0 mn, of "adj ! m"]
  have r: "square n (fold (\<lambda>u d. set2 d m u 1) (adj ! m) (set2 ?d m m 0))"
    "\<forall>i<n. \<forall>j<n. fold (\<lambda>u d. set2 d m u 1) (adj ! m) (set2 ?d m m 0) ! i ! j =
         (if i = m \<and> j \<in> set (adj ! m) then 1 else set2 ?d m m 0 ! i ! j)" by auto
  have "\<forall>i<n. \<forall>j<n. fold (\<lambda>u d. set2 d m u 1) (adj ! m) (set2 ?d m m 0) ! i ! j =
         (if i < Suc m then edge_weight adj i j else INF_const)"
    using r(2) d(2) set2_nth_row[OF d(1) mn] mn
    by (auto simp: edge_weight_def less_Suc_eq)
  then show ?case using r(1) by (simp del: upt_Suc add: fold_upt_Suc)
qed

lemma WF_edges_nth:
  "square (conf_n c) (WF_edges c)"
  "i < conf_n c \<Longrightarrow> j < conf_n c \<Longrightarrow> WF_edges c ! i ! j = edge_weight (VtoV c) i j"
  using WF_edges_rows[of "conf_n c" "conf_n c" "VtoV c"] by (simp_all add: WF_edges_def)

text \<open>
  The assertion of \<^verbatim>\<open>WF\<close> on a contraction list: every pair is an edge of the adjacency
  that no earlier pair of the list names, in either direction.
\<close>

fun contract_valid :: "nat list list \<Rightarrow> (nat \<times> nat) list \<Rightarrow> (nat \<times> nat) list \<Rightarrow> bool" where
  "contract_valid adj seen [] = True"
| "contract_valid adj seen (e # es) =
     (snd e \<in> set (adj ! fst e) \<and> e \<notin> set seen \<and> prod.swap e \<notin> set seen \<and>
      contract_valid adj (e # seen) es)"

definition contracted_weight :: "nat list list \<Rightarrow> (nat \<times> nat) list \<Rightarrow> nat \<Rightarrow> nat \<Rightarrow> int" where
  "contracted_weight adj ct i j =
     (if (i, j) \<in> set ct \<or> (j, i) \<in> set ct then 0 else edge_weight adj i j)"

lemma WF_contract_char:
  assumes "square n d" "\<forall>e\<in>set ct. fst e < n \<and> snd e < n"
    and "\<forall>i<n. \<forall>j<n. d ! i ! j = contracted_weight adj seen i j"
  shows "(contract_valid adj seen ct \<longrightarrow>
            (\<exists>d'. WF_contract ct d = Some d' \<and> square n d' \<and>
                  (\<forall>i<n. \<forall>j<n. d' ! i ! j = contracted_weight adj (rev ct @ seen) i j))) \<and>
         (\<not> contract_valid adj seen ct \<longrightarrow> WF_contract ct d = None)"
  using assms
proof (induction ct arbitrary: d seen)
  case Nil
  then show ?case by simp
next
  case (Cons e es)
  obtain u v where e: "e = (u, v)" by (cases e)
  have uv: "u < n" "v < n" using Cons.prems(2) e by auto
  have duv: "d ! u ! v = contracted_weight adj seen u v" using Cons.prems(3) uv by simp
  have one: "d ! u ! v = 1 \<longleftrightarrow> v \<in> set (adj ! u) \<and> (u, v) \<notin> set seen \<and> (v, u) \<notin> set seen"
    unfolding duv by (auto simp: contracted_weight_def edge_weight_def INF_const_def)
  show ?case
  proof (cases "d ! u ! v = 1")
    case False
    have "WF_contract (e # es) d = None" using False e by simp
    moreover have "\<not> (v \<in> set (adj ! u) \<and> (u, v) \<notin> set seen \<and> (v, u) \<notin> set seen)"
      using False one by blast
    then have "\<not> contract_valid adj seen (e # es)" using e by auto
    ultimately show ?thesis by simp
  next
    case True
    let ?d1 = "set2 (set2 d u v 0) v u 0"
    have sq1: "square n ?d1" using Cons.prems(1) by (simp add: set2_square)
    have e1: "\<forall>i<n. \<forall>j<n. ?d1 ! i ! j = contracted_weight adj (e # seen) i j"
    proof (intro allI impI)
      fix i j assume ij: "i < n" "j < n"
      have a: "?d1 ! i ! j = (if i = v \<and> j = u then 0 else set2 d u v 0 ! i ! j)"
        by (rule set2_nth_row[OF set2_square[OF Cons.prems(1)] uv(2) ij])
      have b: "set2 d u v 0 ! i ! j = (if i = u \<and> j = v then 0 else d ! i ! j)"
        by (rule set2_nth_row[OF Cons.prems(1) uv(1) ij])
      have dij: "d ! i ! j = contracted_weight adj seen i j" using Cons.prems(3) ij by simp
      show "?d1 ! i ! j = contracted_weight adj (e # seen) i j"
      proof (cases "i = v \<and> j = u")
        case A: True
        have "?d1 ! i ! j = 0" by (simp only: a if_P[OF A])
        moreover have "(j, i) \<in> set (e # seen)" using A e by simp
        then have "contracted_weight adj (e # seen) i j = 0"
          by (simp only: contracted_weight_def simp_thms if_True)
        ultimately show ?thesis by simp
      next
        case nA: False
        show ?thesis
        proof (cases "i = u \<and> j = v")
          case B: True
          have "?d1 ! i ! j = 0" by (simp only: a b if_not_P[OF nA] if_P[OF B])
          moreover have "(i, j) \<in> set (e # seen)" using B e by simp
          then have "contracted_weight adj (e # seen) i j = 0"
            by (simp only: contracted_weight_def simp_thms if_True)
          ultimately show ?thesis by simp
        next
          case nB: False
          have "?d1 ! i ! j = d ! i ! j" by (simp only: a b if_not_P[OF nA] if_not_P[OF nB])
          moreover have "(i, j) \<noteq> e" "(j, i) \<noteq> e" using nA nB e by blast+
          then have "((i, j) \<in> set (e # seen) \<or> (j, i) \<in> set (e # seen)) =
                         ((i, j) \<in> set seen \<or> (j, i) \<in> set seen)"
            by simp
          then have "contracted_weight adj (e # seen) i j = contracted_weight adj seen i j"
            by (simp only: contracted_weight_def)
          ultimately show ?thesis using dij by simp
        qed
      qed
    qed
    have es: "\<forall>e\<in>set es. fst e < n \<and> snd e < n" using Cons.prems(2) by simp
    have "v \<in> set (adj ! u) \<and> (u, v) \<notin> set seen \<and> (v, u) \<notin> set seen"
      using True one by blast
    then have cv: "contract_valid adj seen (e # es) = contract_valid adj (e # seen) es"
      using e by simp
    have wc: "WF_contract (e # es) d = WF_contract es ?d1" using True e by simp
    have rv: "rev (e # es) @ seen = rev es @ e # seen" by simp
    show ?thesis unfolding cv wc rv by (rule Cons.IH[OF sq1 es e1])
  qed
qed

lemma WF_True_char:
  assumes "\<forall>e\<in>set (contract c). fst e < conf_n c \<and> snd e < conf_n c"
  shows "(contract_valid (VtoV c) [] (contract c) \<longrightarrow>
            (\<exists>W. WF_contract (contract c) (WF_edges c) = Some W \<and> square (conf_n c) W \<and>
                 (\<forall>i<conf_n c. \<forall>j<conf_n c. W ! i ! j = contracted_weight (VtoV c) (contract c) i j) \<and>
                 WF c True = Some (WF_loop (conf_n c) W))) \<and>
         (\<not> contract_valid (VtoV c) [] (contract c) \<longrightarrow> WF c True = None)"
proof -
  have 0: "\<forall>i<conf_n c. \<forall>j<conf_n c. WF_edges c ! i ! j = contracted_weight (VtoV c) [] i j"
    using WF_edges_nth(2) by (simp add: contracted_weight_def)
  have cw: "contracted_weight (VtoV c) (rev (contract c) @ []) = contracted_weight (VtoV c) (contract c)"
    by (simp add: contracted_weight_def fun_eq_iff)
  note ch = WF_contract_char[OF WF_edges_nth(1) assms 0, unfolded cw]
  show ?thesis
  proof (cases "contract_valid (VtoV c) [] (contract c)")
    case True
    with ch obtain W where W: "WF_contract (contract c) (WF_edges c) = Some W"
      "square (conf_n c) W"
      "\<forall>i<conf_n c. \<forall>j<conf_n c. W ! i ! j = contracted_weight (VtoV c) (contract c) i j"
      by blast
    have "WF c True = Some (WF_loop (conf_n c) W)" using W(1) by (simp add: WF_def)
    then show ?thesis using True W by blast
  next
    case False
    with ch have "WF_contract (contract c) (WF_edges c) = None" by blast
    then have "WF c True = None" by (simp add: WF_def)
    then show ?thesis using False by simp
  qed
qed

definition simple_graph :: "nat \<Rightarrow> nat list list \<Rightarrow> bool" where
  "simple_graph n adj =
     list_all (\<lambda>u. list_all (\<lambda>v. v \<noteq> u \<and> u \<in> set (adj ! v)) (adj ! u)) [0..<n]"

lemma simple_graphD:
  assumes "simple_graph n adj" "u < n" "v \<in> set (adj ! u)"
  shows "v \<noteq> u \<and> u \<in> set (adj ! v)"
proof -
  have "\<forall>u\<in>set [0..<n]. \<forall>v\<in>set (adj ! u). v \<noteq> u \<and> u \<in> set (adj ! v)"
    using assms(1) unfolding simple_graph_def list_all_iff .
  moreover have "u \<in> set [0..<n]" using assms(2) by simp
  ultimately have "\<forall>v\<in>set (adj ! u). v \<noteq> u \<and> u \<in> set (adj ! v)" by (rule bspec)
  then show ?thesis using assms(3) by (rule bspec)
qed

definition is_metric :: "nat \<Rightarrow> int list list \<Rightarrow> bool" where
  "is_metric n d =
     ((\<forall>u<n. \<forall>v<n. d ! u ! v = d ! v ! u) \<and> (\<forall>v<n. d ! v ! v = 0) \<and>
      (\<forall>u<n. \<forall>v<n. \<forall>w<n. d ! u ! w \<le> d ! u ! v + d ! v ! w))"

lemma contracted_weight_props:
  assumes "graph_ok n r adj" "simple_graph n adj"
  shows "\<forall>i<n. \<forall>j<n. contracted_weight adj ct i j = contracted_weight adj ct j i"
    and "\<forall>i<n. contracted_weight adj ct i i = 0"
    and "\<forall>i<n. \<forall>j<n. 0 \<le> contracted_weight adj ct i j"
proof -
  have sym: "j \<in> set (adj ! i) \<longleftrightarrow> i \<in> set (adj ! j)" if "i < n" "j < n" for i j
    using simple_graphD[OF assms(2)] that by blast
  show "\<forall>i<n. \<forall>j<n. contracted_weight adj ct i j = contracted_weight adj ct j i"
  proof (intro allI impI)
    fix i j assume ij: "i < n" "j < n"
    show "contracted_weight adj ct i j = contracted_weight adj ct j i"
      unfolding contracted_weight_def edge_weight_def sym[OF ij] by auto
  qed
  show "\<forall>i<n. contracted_weight adj ct i i = 0"
    using simple_graphD[OF assms(2)] by (auto simp: contracted_weight_def edge_weight_def)
  show "\<forall>i<n. \<forall>j<n. 0 \<le> contracted_weight adj ct i j"
    by (auto simp: contracted_weight_def edge_weight_def INF_const_def)
qed

lemma WF_loop_is_metric:
  assumes ok: "graph_ok n r adj" "simple_graph n adj" and sq: "square n W"
    and W: "\<forall>i<n. \<forall>j<n. W ! i ! j = contracted_weight adj ct i j"
  shows "is_metric n (WF_loop n W)"
proof -
  have nn: "nonneg_matrix n W"
    using W contracted_weight_props(3)[OF ok] by (simp add: nonneg_matrix_def)
  have sym: "\<forall>i<n. \<forall>j<n. W ! i ! j = W ! j ! i"
    using W contracted_weight_props(1)[OF ok, of ct] by simp
  have diag: "\<forall>u<n. W ! u ! u = 0" using W contracted_weight_props(2)[OF ok] by simp
  show ?thesis
    unfolding is_metric_def
    using WF_loop_metric(1,2)[OF sq nn] WF_loop_metric(3)[OF sq nn sym] diag by blast
qed

lemma WF_is_metric:
  assumes ok: "graph_ok (conf_n c) (conf_r c) (VtoV c)" "simple_graph (conf_n c) (VtoV c)"
    and ct: "b \<longrightarrow> (\<forall>e\<in>set (contract c). fst e < conf_n c \<and> snd e < conf_n c)"
    and wf: "WF c b = Some d"
  shows "is_metric (conf_n c) d"
proof (cases b)
  case False
  have W: "\<forall>i<conf_n c. \<forall>j<conf_n c. WF_edges c ! i ! j = contracted_weight (VtoV c) [] i j"
    using WF_edges_nth(2) by (simp add: contracted_weight_def)
  have "d = WF_loop (conf_n c) (WF_edges c)" using wf False by (simp add: WF_def)
  then show ?thesis using WF_loop_is_metric[OF ok WF_edges_nth(1) W] by simp
next
  case True
  with ct have r: "\<forall>e\<in>set (contract c). fst e < conf_n c \<and> snd e < conf_n c" by simp
  from WF_True_char[OF r] wf True
  obtain W where W: "square (conf_n c) W"
    "\<forall>i<conf_n c. \<forall>j<conf_n c. W ! i ! j = contracted_weight (VtoV c) (contract c) i j"
    "WF c True = Some (WF_loop (conf_n c) W)"
    by (cases "contract_valid (VtoV c) [] (contract c)") auto
  then have "d = WF_loop (conf_n c) W" using wf True by simp
  then show ?thesis using WF_loop_is_metric[OF ok W(1,2)] by simp
qed

section \<open>The outside reductions return\<close>

definition no_abort :: "'a option \<Rightarrow> bool" where
  "no_abort m = (m \<noteq> None)"

lemma no_abort_Some [simp]: "no_abort (Some x)"
  by (simp add: no_abort_def)

lemma no_abort_bind:
  "no_abort m \<Longrightarrow> (\<And>x. m = Some x \<Longrightarrow> no_abort (f x)) \<Longrightarrow> no_abort (Option.bind m f)"
  by (cases m) (auto simp: no_abort_def)

lemma no_abort_map_option: "no_abort m \<Longrightarrow> no_abort (map_option f m)"
  by (cases m) (auto simp: no_abort_def)

lemma no_abort_if:
  "(b \<Longrightarrow> no_abort x) \<Longrightarrow> (\<not> b \<Longrightarrow> no_abort y) \<Longrightarrow> no_abort (if b then x else y)"
  by simp

lemma no_abort_for_each:
  "(\<And>x s. x \<in> set xs \<Longrightarrow> no_abort (f x s)) \<Longrightarrow> no_abort (for_each f xs s)"
  using for_each_Some_inv[of "\<lambda>_. True" s xs f] by (auto simp: no_abort_def)

lemma no_abort_any_first:
  "(\<And>x. x \<in> set xs \<Longrightarrow> no_abort (f x)) \<Longrightarrow> no_abort (any_first f xs)"
  using any_first_Some[of xs f] by (auto simp: no_abort_def)

lemma no_abort_ex: "no_abort m \<longleftrightarrow> (\<exists>x. m = Some x)"
  by (simp add: no_abort_def)

lemma mod_distinct:
  fixes x y r :: nat
  assumes "x < y" "y < x + r"
  shows "x mod r \<noteq> y mod r"
proof
  assume "x mod r = y mod r"
  then have "r dvd y - x" using assms(1) by (metis mod_eq_dvd_iff_nat less_imp_le)
  moreover have "0 < y - x" "y - x < r" using assms by auto
  ultimately show False by (meson dvd_imp_le not_le)
qed

lemma ring_quadruples_mem:
  assumes "(p1, q1', p2', q2') \<in> set (ring_quadruples c)"
  shows "p1 < conf_r c \<and> p1 < q1' \<and> q1' < p2' \<and> p2' < q2' \<and> q2' < p1 + conf_r c"
  using assms by (auto simp: ring_quadruples_def)

definition ends :: "nat \<Rightarrow> nat \<Rightarrow> nat list \<Rightarrow> bool" where
  "ends s t p = (p \<noteq> [] \<and> hd p = s \<and> last p = t)"

lemma no_abort_getComponent:
  assumes "graph_ok (conf_n c) (conf_r c) (VtoV c)" "ends s t p" "s \<noteq> t" "s < conf_r c" "t < conf_r c"
  shows "no_abort (getComponent c p)"
  using getComponent_Some[of c p] assms by (auto simp: ends_def no_abort_def)

lemma ends_rev: "ends s t p \<Longrightarrow> ends t s (rev p)"
  by (auto simp: ends_def hd_rev last_rev)

lemma no_abort_getComponent_pair:
  assumes "graph_ok (conf_n c) (conf_r c) (VtoV c)" "ends q1 p2 P1" "ends q2 p1 P2"
    "q1 \<noteq> p2" "q2 \<noteq> p1" "q1 < conf_r c" "p2 < conf_r c" "q2 < conf_r c" "p1 < conf_r c"
  shows "no_abort (getComponent_pair c P1 P2)"
proof -
  have "no_abort (getComponent c P1)"
    by (rule no_abort_getComponent[OF assms(1,2,4,6,7)])
  moreover have "no_abort (getComponent c (rev P2))"
    by (rule no_abort_getComponent[OF assms(1) ends_rev[OF assms(3)]]) (use assms in auto)
  ultimately show ?thesis
    by (auto simp: getComponent_pair_def no_abort_def)
qed

lemma no_abort_getComponent2:
  assumes "graph_ok (conf_n c) (conf_r c) (VtoV c)" "ends q1 p2 P1" "ends q2 p1 P2"
    "q1 \<noteq> p2" "q2 \<noteq> p1" "q1 < conf_r c" "p2 < conf_r c" "q2 < conf_r c" "p1 < conf_r c"
  shows "no_abort (getComponent2 c P1 P2)"
proof -
  obtain g1 where g1: "getComponent c P1 = Some g1"
    using no_abort_getComponent[OF assms(1,2,4,6,7)] by (auto simp: no_abort_def)
  obtain g2 where g2: "getComponent c P2 = Some g2"
    using no_abort_getComponent[OF assms(1,3,5,8,9)] by (auto simp: no_abort_def)
  show ?thesis by (simp add: getComponent2_def g1 g2 Let_def split: prod.splits)
qed

lemma no_abort_mark_all:
  assumes "\<And>P1 P2. P1 \<in> set l1 \<Longrightarrow> P2 \<in> set l2 \<Longrightarrow> no_abort (component P1 P2)"
  shows "no_abort (mark_all c component d1 d2 l1 l2 isr)"
  unfolding mark_all_def
  by (intro no_abort_for_each no_abort_if no_abort_Some no_abort_map_option assms)

lemma shortestPaths_ends:
  assumes "graph_ok (conf_n c) (conf_r c) (VtoV c)" "s < conf_n c" "t < conf_n c"
  shows "no_abort (shortestPaths c s t b)"
    and "shortestPaths c s t b = Some ps \<Longrightarrow> p \<in> set ps \<Longrightarrow> ends s t p"
  using shortestPaths_Some[OF assms, of b] by (auto simp: no_abort_def ends_def)

lemma no_abort_checkShortCycle:
  "conf_ok c \<Longrightarrow> a < conf_r c \<Longrightarrow> b < conf_r c \<Longrightarrow> a \<noteq> b \<Longrightarrow> no_abort (checkShortCycle c a b k cutSize)"
  by (simp add: checkShortCycle_eq)

lemma paths_ok_ends:
  "conf_ok c \<Longrightarrow> p < conf_r c \<Longrightarrow> q < conf_r c \<Longrightarrow> R \<in> set (all_paths c ! p ! q) \<Longrightarrow> ends p q R"
  using paths_okD[of c p q R] by (simp add: conf_ok_def ends_def)

lemma no_abort_calcReductableVertices1:
  assumes ok: "conf_ok c"
  shows "no_abort (calcReductableVertices1 c cutSize isr)"
proof -
  have g: "graph_ok (conf_n c) (conf_r c) (VtoV c)" using ok by (simp add: conf_ok_def)
  then have rn: "conf_r c \<le> conf_n c" by (simp add: graph_ok_def)
  show ?thesis
    unfolding calcReductableVertices1_def Let_def
    apply (intro no_abort_for_each no_abort_if no_abort_Some no_abort_bind no_abort_map_option)
      apply (rule shortestPaths_ends(1)[OF g]; use rn in simp)
     apply (rule no_abort_checkShortCycle[OF ok]; simp)
    apply (rule no_abort_getComponent[OF g])
       apply (erule shortestPaths_ends(2)[OF g, rotated 2]; use rn in simp)
      apply simp_all
    done
qed


lemma no_abort_for_each4:
  "(\<And>a b c d s. (a, b, c, d) \<in> set xs \<Longrightarrow> no_abort (f a b c d s)) \<Longrightarrow>
   no_abort (for_each (\<lambda>(a, b, c, d). f a b c d) xs s)"
  by (rule no_abort_for_each) auto

lemma no_abort_any_first2:
  "(\<And>a b. (a, b) \<in> set xs \<Longrightarrow> no_abort (f a b)) \<Longrightarrow>
   no_abort (any_first (\<lambda>(a, b). f a b) xs)"
  by (rule no_abort_any_first) auto

lemma no_abort_case_prod:
  "(\<And>a b. no_abort (f a b)) \<Longrightarrow> no_abort (case x of (a, b) \<Rightarrow> f a b)"
  by (cases x) simp

lemma quad_facts:
  assumes "(p1, q1', p2', q2') \<in> set (ring_quadruples c)"
  shows "p1 < conf_r c" "q1' mod conf_r c < conf_r c" "p2' mod conf_r c < conf_r c"
    "q2' mod conf_r c < conf_r c"
    "p1 \<noteq> q1' mod conf_r c" "q1' mod conf_r c \<noteq> p2' mod conf_r c"
    "p2' mod conf_r c \<noteq> q2' mod conf_r c" "q2' mod conf_r c \<noteq> p1"
proof -
  note m = ring_quadruples_mem[OF assms]
  show "p1 < conf_r c" using m by simp
  then show "q1' mod conf_r c < conf_r c" "p2' mod conf_r c < conf_r c" "q2' mod conf_r c < conf_r c"
    by simp_all
  have "p1 mod conf_r c \<noteq> q1' mod conf_r c" by (rule mod_distinct) (use m in auto)
  then show "p1 \<noteq> q1' mod conf_r c" using m by simp
  show "q1' mod conf_r c \<noteq> p2' mod conf_r c" by (rule mod_distinct) (use m in auto)
  show "p2' mod conf_r c \<noteq> q2' mod conf_r c" by (rule mod_distinct) (use m in auto)
  have "p1 mod conf_r c \<noteq> q2' mod conf_r c" by (rule mod_distinct) (use m in auto)
  then show "q2' mod conf_r c \<noteq> p1" using m by simp
qed

lemma ends_ring_ends: "ends s t p \<Longrightarrow> s < conf_r c \<Longrightarrow> t < conf_r c \<Longrightarrow> ring_ends c p"
  by (simp add: ends_def ring_ends_def)

lemma no_abort_canBeAlmostMinimal_pair:
  "ring_ends c P1 \<Longrightarrow> ring_ends c P2 \<Longrightarrow> no_abort (canBeAlmostMinimal_pair c P1 P2 k1 k2 cutSize)"
  by (simp add: canBeAlmostMinimal_pair_def Let_def)

lemma no_abort_canBeAlmostMinimal2:
  "ring_ends c P1 \<Longrightarrow> ring_ends c P2 \<Longrightarrow> no_abort (canBeAlmostMinimal2 c P1 P2 k1 k2 cutSize)"
  by (simp add: canBeAlmostMinimal2_def Let_def)

lemma no_abort_sizeOfVertices_pair:
  "no_abort (getComponent_pair c P1 P2) \<Longrightarrow> no_abort (sizeOfVertices_pair c P1 P2)"
  by (simp add: sizeOfVertices_pair_def no_abort_map_option)

lemma no_abort_sizeOfVertices2:
  "no_abort (getComponent2 c P1 P2) \<Longrightarrow> no_abort (sizeOfVertices2 c P1 P2)"
  by (simp add: sizeOfVertices2_def no_abort_map_option)

lemma no_abort_calcReductableVertices2:
  assumes ok: "conf_ok c"
  shows "no_abort (calcReductableVertices2 c cutSize isr)"
proof -
  have g: "graph_ok (conf_n c) (conf_r c) (VtoV c)" using ok by (simp add: conf_ok_def)
  then have rn: "conf_r c \<le> conf_n c" by (simp add: graph_ok_def)
  show ?thesis
    unfolding calcReductableVertices2_def Let_def
    apply (rule no_abort_for_each4)
    subgoal premises prems for p1 q1' p2' q2' s
    proof -
    note q = quad_facts[OF prems]
    let ?q1 = "q1' mod conf_r c" and ?p2 = "p2' mod conf_r c" and ?q2 = "q2' mod conf_r c"
    have n: "p1 < conf_n c" "?q1 < conf_n c" "?p2 < conf_n c" "?q2 < conf_n c"
      by (rule order_less_le_trans[OF q(1) rn], rule order_less_le_trans[OF q(2) rn],
          rule order_less_le_trans[OF q(3) rn], rule order_less_le_trans[OF q(4) rn])
    note sp1 = shortestPaths_ends[OF g n(2,3)] and sp2 = shortestPaths_ends[OF g n(4,1)]
    have pair: "no_abort (getComponent_pair c P1 P2)" if "ends ?q1 ?p2 P1" "ends ?q2 p1 P2" for P1 P2
      by (rule no_abort_getComponent_pair[OF g that q(6,8,2,3,4,1)])
    have ring: "ring_ends c P1" "ring_ends c P2" if "ends ?q1 ?p2 P1" "ends ?q2 p1 P2" for P1 P2
      using that q by (auto intro: ends_ring_ends)
    show ?thesis
      apply (intro no_abort_if no_abort_Some no_abort_bind sp1(1) sp2(1) no_abort_for_each
          no_abort_any_first2 no_abort_case_prod no_abort_mark_all
          no_abort_checkShortCycle[OF ok] q
          no_abort_canBeAlmostMinimal_pair no_abort_sizeOfVertices_pair pair)
      apply (auto intro: ring sp1(2) sp2(2) simp: q)
      done
  qed
  done
qed


lemma no_abort_calcLowerBoundCycle:
  "pathlen1 + pathlen2 \<le> 3 \<Longrightarrow> no_abort (calcLowerBoundCycle c p1 q1 p2 q2 pathlen1 pathlen2 cutSize)"
  unfolding calcLowerBoundCycle_def by (simp only: not_not if_True no_abort_def Let_def) simp

lemma no_abort_calcReductableVertices3:
  assumes ok: "conf_ok c" and nn: "nonneg_matrix (conf_n c) (dist_contracted c)"
  shows "no_abort (calcReductableVertices3 c cutSize isr)"
proof -
  have g: "graph_ok (conf_n c) (conf_r c) (VtoV c)" using ok by (simp add: conf_ok_def)
  then have rn: "conf_r c \<le> conf_n c" by (simp add: graph_ok_def)
  show ?thesis
    unfolding calcReductableVertices3_def Let_def
    apply (rule no_abort_for_each4)
    subgoal premises prems for p1 q1' p2' q2' s
    proof -
      note q = quad_facts[OF prems]
      let ?q1 = "q1' mod conf_r c" and ?p2 = "p2' mod conf_r c" and ?q2 = "q2' mod conf_r c"
      have n: "p1 < conf_n c" "?q1 < conf_n c" "?p2 < conf_n c" "?q2 < conf_n c"
        by (rule order_less_le_trans[OF q(1) rn], rule order_less_le_trans[OF q(2) rn],
            rule order_less_le_trans[OF q(3) rn], rule order_less_le_trans[OF q(4) rn])
      note sp1 = shortestPaths_ends[OF g n(2,3)] and sp2 = shortestPaths_ends[OF g n(4,1)]
      have d: "0 \<le> dist_contracted c ! ?q1 ! ?p2" "0 \<le> dist_contracted c ! ?q2 ! p1"
        using nn n by (simp_all add: nonneg_matrix_def)
      have low: "no_abort (calcLowerBoundCycle c p1 ?q1 ?p2 ?q2 k1 k2 cutSize)"
        if "\<not> 3 < k1 + k2 + dist_contracted c ! ?q1 ! ?p2 + dist_contracted c ! ?q2 ! p1" for k1 k2
        by (rule no_abort_calcLowerBoundCycle) (use that d in linarith)
      have pair: "no_abort (getComponent2 c P1 P2)" if "ends ?q1 ?p2 P1" "ends ?q2 p1 P2" for P1 P2
        by (rule no_abort_getComponent2[OF g that q(6,8,2,3,4,1)])
      have cached: "ends ?q1 ?p2 P1" if "P1 \<in> set (all_paths c ! ?q1 ! ?p2)" for P1
        by (rule paths_ok_ends[OF ok q(2,3) that])
      have cached2: "ends ?q2 p1 P2" if "P2 \<in> set (all_paths c ! ?q2 ! p1)" for P2
        by (rule paths_ok_ends[OF ok q(4,1) that])
      show ?thesis
        apply (intro no_abort_if no_abort_Some no_abort_bind sp1(1) sp2(1) no_abort_for_each
            no_abort_any_first no_abort_case_prod no_abort_mark_all low
            no_abort_sizeOfVertices2 pair)
        apply (auto intro: sp1(2) sp2(2) cached cached2 simp: q)
        done
    qed
    done
qed

lemma no_abort_calcReductableVertices4:
  assumes ok: "conf_ok c"
  shows "no_abort (calcReductableVertices4 c cutSize isr)"
proof -
  have g: "graph_ok (conf_n c) (conf_r c) (VtoV c)" using ok by (simp add: conf_ok_def)
  then have rn: "conf_r c \<le> conf_n c" by (simp add: graph_ok_def)
  show ?thesis
    unfolding calcReductableVertices4_def Let_def
    apply (rule no_abort_for_each4)
    subgoal premises prems for p1 q1' p2' q2' s
    proof -
      note q = quad_facts[OF prems]
      let ?q1 = "q1' mod conf_r c" and ?p2 = "p2' mod conf_r c" and ?q2 = "q2' mod conf_r c"
      have n: "p1 < conf_n c" "?q1 < conf_n c" "?p2 < conf_n c" "?q2 < conf_n c"
        by (rule order_less_le_trans[OF q(1) rn], rule order_less_le_trans[OF q(2) rn],
            rule order_less_le_trans[OF q(3) rn], rule order_less_le_trans[OF q(4) rn])
      note sp1 = shortestPaths_ends[OF g n(2,3)] and sp2 = shortestPaths_ends[OF g n(4,1)]
      have pair: "no_abort (getComponent2 c P1 P2)" if "ends ?q1 ?p2 P1" "ends ?q2 p1 P2" for P1 P2
        by (rule no_abort_getComponent2[OF g that q(6,8,2,3,4,1)])
      have ring: "ring_ends c P1" "ring_ends c P2" if "ends ?q1 ?p2 P1" "ends ?q2 p1 P2" for P1 P2
        using that q by (auto intro: ends_ring_ends)
      have qp: "?q2 \<noteq> ?p2" using q(7) by simp
      show ?thesis
        apply (intro no_abort_if no_abort_Some no_abort_bind sp1(1) sp2(1) no_abort_for_each
            no_abort_any_first2 no_abort_case_prod no_abort_mark_all
            no_abort_checkShortCycle[OF ok] q qp
            no_abort_canBeAlmostMinimal2 no_abort_sizeOfVertices2 pair)
        apply (auto intro: ring sp1(2) sp2(2) simp: q)
        done
    qed
    done
qed

lemma no_abort_calcReductableVertices:
  assumes "conf_ok c" "nonneg_matrix (conf_n c) (dist_contracted c)" "cutSize = 6 \<or> cutSize = 7"
  shows "no_abort (calcReductableVertices c cutSize)"
  unfolding calcReductableVertices_def
  by (intro no_abort_if no_abort_bind no_abort_calcReductableVertices1
      no_abort_calcReductableVertices2 no_abort_calcReductableVertices3
      no_abort_calcReductableVertices4 assms(1,2)) (use assms(3) in simp)

section \<open>When a contraction is accepted\<close>

lemma contracted_weight_nonneg: "0 \<le> contracted_weight adj ct i j"
  by (simp add: contracted_weight_def edge_weight_def INF_const_def)

lemma setContract_Some_iff:
  assumes ok: "conf_ok c" and rng: "\<forall>e\<in>set ct. fst e < conf_n c \<and> snd e < conf_n c"
  shows "(\<exists>c'. setContract c ct = Some c') = contract_valid (VtoV c) [] ct"
    and "\<not> contract_valid (VtoV c) [] ct \<Longrightarrow> WF (c\<lparr>contract := ct\<rparr>) True = None"
proof -
  let ?c1 = "c\<lparr>contract := ct\<rparr>"
  note ch = WF_True_char[of ?c1, simplified, OF rng]
  show inv: "\<not> contract_valid (VtoV c) [] ct \<Longrightarrow> WF ?c1 True = None"
    using ch by simp
  show "(\<exists>c'. setContract c ct = Some c') = contract_valid (VtoV c) [] ct"
  proof (cases "contract_valid (VtoV c) [] ct")
    case False
    then show ?thesis using inv by (simp add: setContract_def)
  next
    case True
    then obtain W where W: "square (conf_n c) W"
      "\<forall>i<conf_n c. \<forall>j<conf_n c. W ! i ! j = contracted_weight (VtoV c) ct i j"
      "WF ?c1 True = Some (WF_loop (conf_n c) W)"
      using ch by auto
    let ?d = "WF_loop (conf_n c) W"
    have "nonneg_matrix (conf_n c) W"
      using W(2) by (simp add: nonneg_matrix_def contracted_weight_nonneg)
    then have nn: "nonneg_matrix (conf_n c) ?d" by (rule WF_loop_metric(4)[OF W(1)])
    let ?c2 = "?c1\<lparr>dist_contracted := ?d\<rparr>"
    have g: "graph_ok (conf_n c) (conf_r c) (VtoV c)" using ok by (simp add: conf_ok_def)
    obtain isr where isr: "calcCutReduction ?c2 = Some isr"
      using calcCutReduction_Some[of ?c2] g by auto
    let ?c3 = "?c2\<lparr>is_reductable_inside := isr\<rparr>"
    have "conf_ok ?c3" using ok conf_ok_cong[of c ?c3] by (simp add: same_graph_def)
    then obtain o6 where o6: "calcReductableVertices ?c3 6 = Some o6"
      using no_abort_calcReductableVertices[of ?c3 6] nn by (auto simp: no_abort_def)
    let ?c4 = "?c3\<lparr>is_reductable_outside6 := o6\<rparr>"
    have "conf_ok ?c4" using ok conf_ok_cong[of c ?c4] by (simp add: same_graph_def)
    then obtain o7 where o7: "calcReductableVertices ?c4 7 = Some o7"
      using no_abort_calcReductableVertices[of ?c4 7] nn by (auto simp: no_abort_def)
    show ?thesis using True by (simp add: setContract_def W(3) isr o6 o7 Let_def)
  qed
qed

section \<open>Walks, weights and the two loops of \<^verbatim>\<open>shortestPaths\<close>\<close>

text \<open>
  A walk is a vertex sequence along the adjacency; the step from \<open>v\<close> to \<open>u\<close> weighs 0 when
  the pair is in the contraction set and 1 otherwise.  The first loop keeps every label
  either at the sentinel or at the weight of a walk from the source, and leaves every
  labelled vertex outside the queue relaxed.
\<close>

definition sp_w :: "(nat \<times> nat) set \<Rightarrow> nat \<Rightarrow> nat \<Rightarrow> int" where
  "sp_w cs v u = (if (u, v) \<in> cs then 0 else 1)"

fun walk_ok :: "nat list list \<Rightarrow> nat list \<Rightarrow> bool" where
  "walk_ok adj (v # u # p) = (u \<in> set (adj ! v) \<and> walk_ok adj (u # p))"
| "walk_ok adj p = True"

fun walk_w :: "(nat \<times> nat) set \<Rightarrow> nat list \<Rightarrow> int" where
  "walk_w cs (v # u # p) = sp_w cs v u + walk_w cs (u # p)"
| "walk_w cs p = 0"

definition st_walk :: "nat list list \<Rightarrow> nat \<Rightarrow> nat \<Rightarrow> nat list \<Rightarrow> bool" where
  "st_walk adj s t p = (p \<noteq> [] \<and> hd p = s \<and> last p = t \<and> walk_ok adj p)"

lemma walk_ok_snoc:
  "walk_ok adj (p @ [u]) = (walk_ok adj p \<and> (p = [] \<or> u \<in> set (adj ! last p)))"
  by (induction adj p rule: walk_ok.induct) auto

lemma walk_w_snoc: "p \<noteq> [] \<Longrightarrow> walk_w cs (p @ [u]) = walk_w cs p + sp_w cs (last p) u"
  by (induction cs p rule: walk_w.induct) auto

lemma sp_w_range: "0 \<le> sp_w cs v u" "sp_w cs v u \<le> 1"
  by (simp_all add: sp_w_def)

lemma walk_w_nonneg: "0 \<le> walk_w cs p"
  by (induction cs p rule: walk_w.induct) (simp_all add: sp_w_def)

lemma walk_w_length: "walk_w cs p \<le> int (length p) - 1 \<or> p = []"
  by (induction cs p rule: walk_w.induct) (auto simp: sp_w_def)

lemma st_walk_single: "st_walk adj s s [s]"
  by (simp add: st_walk_def)

lemma st_walk_snoc: "st_walk adj s v p \<Longrightarrow> u \<in> set (adj ! v) \<Longrightarrow> st_walk adj s u (p @ [u])"
  by (simp add: st_walk_def walk_ok_snoc)

lemma st_walk_snocD:
  assumes "st_walk adj s u (q @ [u])" "q \<noteq> []"
  shows "st_walk adj s (last q) q" "u \<in> set (adj ! last q)"
  using assms by (auto simp: st_walk_def walk_ok_snoc)

definition realizable :: "nat list list \<Rightarrow> (nat \<times> nat) set \<Rightarrow> nat \<Rightarrow> int list \<Rightarrow> bool" where
  "realizable adj cs s ds =
     (\<forall>u<length ds. ds ! u \<le> INF_const \<and>
        (ds ! u = INF_const \<or> (\<exists>p. st_walk adj s u p \<and> walk_w cs p = ds ! u)))"

definition relaxed :: "nat list list \<Rightarrow> (nat \<times> nat) set \<Rightarrow> int list \<Rightarrow> nat \<Rightarrow> bool" where
  "relaxed adj cs ds v = (\<forall>u\<in>set (adj ! v). ds ! u \<le> ds ! v + sp_w cs v u)"

definition relax_inv ::
  "nat list list \<Rightarrow> (nat \<times> nat) set \<Rightarrow> nat \<Rightarrow> nat \<Rightarrow> int \<Rightarrow> nat set \<Rightarrow> int list \<Rightarrow> nat list \<Rightarrow> bool" where
  "relax_inv adj cs s v dv D ds que =
     (realizable adj cs s ds \<and>
      (\<forall>x<length ds. ds ! x < INF_const \<longrightarrow> x = v \<or> x \<in> set que \<or> relaxed adj cs ds x) \<and>
      (\<forall>x\<in>set que. x < length ds \<and> ds ! x < INF_const) \<and>
      v < length ds \<and> ds ! v = dv \<and> dv < INF_const \<and>
      (\<forall>u\<in>D. ds ! u \<le> dv + sp_w cs v u) \<and> s < length ds \<and> ds ! s \<le> 0)"

lemma relaxed_mono:
  assumes "relaxed adj cs ds x" "length ds' = length ds" "ds' ! x = ds ! x"
    and "\<forall>y. ds' ! y \<le> ds ! y"
  shows "relaxed adj cs ds' x"
  unfolding relaxed_def
proof
  fix u assume "u \<in> set (adj ! x)"
  then have "ds ! u \<le> ds ! x + sp_w cs x u" using assms(1) by (simp add: relaxed_def)
  moreover have "ds' ! u \<le> ds ! u" using assms(4) by simp
  ultimately show "ds' ! u \<le> ds' ! x + sp_w cs x u" using assms(3) by simp
qed

lemma sp_relax_cases:
  "sp_relax cs v u (ds, que) =
     (if ds ! v + sp_w cs v u < ds ! u
      then (ds[u := ds ! v + sp_w cs v u], if (u, v) \<in> cs then u # que else que @ [u])
      else (ds, que))"
  by (simp add: sp_relax_def sp_w_def)

lemma sp_relax_inv:
  assumes inv: "relax_inv adj cs s v dv D ds que"
    and u: "u < length ds" "u \<in> set (adj ! v)"
    and st: "sp_relax cs v u (ds, que) = (ds', que')"
  shows "relax_inv adj cs s v dv (insert u D) ds' que' \<and> length ds' = length ds"
proof (cases "ds ! v + sp_w cs v u < ds ! u")
  case False
  then have "ds' = ds" "que' = que" using st by (simp_all add: sp_relax_cases)
  moreover have "ds ! u \<le> dv + sp_w cs v u" using False inv by (simp add: relax_inv_def)
  ultimately show ?thesis using inv by (simp add: relax_inv_def)
next
  case True
  let ?new = "dv + sp_w cs v u"
  have dv: "ds ! v = dv" "dv < INF_const" "v < length ds" using inv by (simp_all add: relax_inv_def)
  have eq: "ds' = ds[u := ?new]" "set que' = insert u (set que)"
    using st True dv by (auto simp: sp_relax_cases split: if_splits)
  have uv: "u \<noteq> v" using True dv sp_w_range(1)[of cs v u] by auto
  have new: "?new < ds ! u" using True dv by simp
  have le: "\<forall>y. ds' ! y \<le> ds ! y"
  proof
    fix y show "ds' ! y \<le> ds ! y"
      using new eq(1) u(1) by (cases "y = u") auto
  qed
  have len: "length ds' = length ds" using eq by simp
  have real: "realizable adj cs s ds" using inv by (simp add: relax_inv_def)
  have uINF: "ds ! u \<le> INF_const" using real u(1) by (simp add: realizable_def)
  obtain p where p: "st_walk adj s v p" "walk_w cs p = dv"
    using real dv by (auto simp: realizable_def)
  have pu: "st_walk adj s u (p @ [u])" by (rule st_walk_snoc[OF p(1) u(2)])
  have pw: "walk_w cs (p @ [u]) = ?new"
    using p walk_w_snoc[of p cs u] by (simp add: st_walk_def)
  have real': "realizable adj cs s ds'"
    unfolding realizable_def
  proof (intro allI impI)
    fix x assume x: "x < length ds'"
    show "ds' ! x \<le> INF_const \<and> (ds' ! x = INF_const \<or> (\<exists>p. st_walk adj s x p \<and> walk_w cs p = ds' ! x))"
    proof (cases "x = u")
      case True
      then have "ds' ! x = ?new" using eq(1) u(1) by simp
      then show ?thesis using pu pw new uINF True by auto
    next
      case False
      then have "ds' ! x = ds ! x" using eq(1) by simp
      then show ?thesis using real x len by (simp add: realizable_def)
    qed
  qed
  have rq: "\<forall>x<length ds'. ds' ! x < INF_const \<longrightarrow> x = v \<or> x \<in> set que' \<or> relaxed adj cs ds' x"
  proof (intro allI impI)
    fix x assume x: "x < length ds'" "ds' ! x < INF_const"
    show "x = v \<or> x \<in> set que' \<or> relaxed adj cs ds' x"
    proof (cases "x = u")
      case True
      then show ?thesis using eq(2) by simp
    next
      case False
      then have same: "ds' ! x = ds ! x" using eq(1) by simp
      then have "x = v \<or> x \<in> set que \<or> relaxed adj cs ds x"
        using inv x len by (simp add: relax_inv_def)
      then show ?thesis using relaxed_mono[OF _ len same le] eq(2) by auto
    qed
  qed
  have q: "\<forall>x\<in>set que'. x < length ds' \<and> ds' ! x < INF_const"
  proof
    fix x assume "x \<in> set que'"
    then have "x = u \<or> x \<in> set que" using eq(2) by auto
    then show "x < length ds' \<and> ds' ! x < INF_const"
    proof
      assume "x = u"
      then show ?thesis using u(1) len eq(1) new uINF by simp
    next
      assume xq: "x \<in> set que"
      then have "x < length ds" "ds ! x < INF_const" using inv by (simp_all add: relax_inv_def)
      then show ?thesis using le[rule_format, of x] len by simp
    qed
  qed
  have D: "\<forall>y\<in>insert u D. ds' ! y \<le> dv + sp_w cs v y"
  proof
    fix y assume "y \<in> insert u D"
    then show "ds' ! y \<le> dv + sp_w cs v y"
    proof
      assume "y = u"
      then show ?thesis using eq(1) u(1) by simp
    next
      assume "y \<in> D"
      then have "ds ! y \<le> dv + sp_w cs v y" using inv by (simp add: relax_inv_def)
      then show ?thesis using le[rule_format, of y] by simp
    qed
  qed
  have v': "ds' ! v = dv" using eq(1) uv dv by simp
  have s': "s < length ds'" "ds' ! s \<le> 0"
    using inv len le[rule_format, of s] by (simp_all add: relax_inv_def)
  show ?thesis
    unfolding relax_inv_def using real' rq q dv len v' D s' by simp
qed

lemma sp_relax_fold_inv:
  assumes "relax_inv adj cs s v dv D ds que"
    and "\<forall>u\<in>set us. u < length ds \<and> u \<in> set (adj ! v)"
    and "fold (sp_relax cs v) us (ds, que) = (ds', que')"
  shows "relax_inv adj cs s v dv (set us \<union> D) ds' que' \<and> length ds' = length ds"
  using assms
proof (induction us arbitrary: D ds que)
  case Nil
  then show ?case by simp
next
  case (Cons u us)
  obtain ds1 que1 where st: "sp_relax cs v u (ds, que) = (ds1, que1)"
    by (cases "sp_relax cs v u (ds, que)")
  have one: "relax_inv adj cs s v dv (insert u D) ds1 que1 \<and> length ds1 = length ds"
    by (rule sp_relax_inv[OF Cons.prems(1) _ _ st]) (use Cons.prems(2) in auto)
  have rest: "fold (sp_relax cs v) us (ds1, que1) = (ds', que')" using Cons.prems(3) st by simp
  have "relax_inv adj cs s v dv (set us \<union> insert u D) ds' que' \<and> length ds' = length ds1"
    by (rule Cons.IH[OF _ _ rest]) (use one Cons.prems(2) in auto)
  then show ?case using one by simp
qed

definition dist_inv :: "nat list list \<Rightarrow> (nat \<times> nat) set \<Rightarrow> nat \<Rightarrow> int list \<Rightarrow> nat list \<Rightarrow> bool" where
  "dist_inv adj cs s ds que =
     (realizable adj cs s ds \<and>
      (\<forall>x<length ds. ds ! x < INF_const \<longrightarrow> x \<in> set que \<or> relaxed adj cs ds x) \<and>
      (\<forall>x\<in>set que. x < length ds \<and> ds ! x < INF_const) \<and>
      (\<forall>v<length ds. \<forall>u\<in>set (adj ! v). u < length ds) \<and> s < length ds \<and> ds ! s \<le> 0)"

lemma sp_dist_loop_inv:
  assumes "dist_inv adj cs s ds que"
  shows "\<exists>ds'. sp_dist_loop adj cs ds que = Some ds' \<and> length ds' = length ds \<and>
               dist_inv adj cs s ds' []"
  using assms
proof (induction adj cs ds que rule: sp_dist_loop.induct)
  case (1 adj cs ds)
  then show ?case by (simp add: sp_dist_loop.simps)
next
  case (2 adj cs ds v que)
  note inv = "2.prems"
  have v: "v < length ds" "ds ! v < INF_const" using inv by (simp_all add: dist_inv_def)
  have rng: "\<forall>v<length ds. \<forall>u\<in>set (adj ! v). u < length ds" using inv by (simp add: dist_inv_def)
  have g: "v < length ds \<and> (\<forall>u\<in>set (adj ! v). u < length ds)" using v rng by simp
  obtain ds1 que1 where f: "fold (sp_relax cs v) (adj ! v) (ds, que) = (ds1, que1)"
    by (cases "fold (sp_relax cs v) (adj ! v) (ds, que)")
  have r0: "relax_inv adj cs s v (ds ! v) {} ds que"
    using inv v unfolding relax_inv_def dist_inv_def by auto
  have r1: "relax_inv adj cs s v (ds ! v) (set (adj ! v) \<union> {}) ds1 que1 \<and> length ds1 = length ds"
    by (rule sp_relax_fold_inv[OF r0 _ f]) (use g in auto)
  then have len: "length ds1 = length ds" by simp
  have rv: "relaxed adj cs ds1 v" using r1 by (simp add: relax_inv_def relaxed_def)
  have inv1: "dist_inv adj cs s ds1 que1"
    unfolding dist_inv_def using r1 rv rng len by (auto simp: relax_inv_def)
  have "\<exists>ds'. sp_dist_loop adj cs ds1 que1 = Some ds' \<and> length ds' = length ds1 \<and>
               dist_inv adj cs s ds' []"
    by (rule "2.IH"[OF g f[symmetric] inv1])
  then show ?case using g f len by (simp add: sp_dist_loop.simps)
qed

definition tight :: "(nat \<times> nat) set \<Rightarrow> int list \<Rightarrow> nat \<Rightarrow> nat \<Rightarrow> bool" where
  "tight cs ds v u = (ds ! u = ds ! v + 1 \<or> (ds ! u = ds ! v \<and> (u, v) \<in> cs))"

fun tight_walk :: "nat list list \<Rightarrow> (nat \<times> nat) set \<Rightarrow> int list \<Rightarrow> nat list \<Rightarrow> bool" where
  "tight_walk adj cs ds (v # u # p) =
     (u \<in> set (adj ! v) \<and> tight cs ds v u \<and> tight_walk adj cs ds (u # p))"
| "tight_walk adj cs ds p = True"

lemma tight_walk_snoc:
  "tight_walk adj cs ds (p @ [u]) =
     (tight_walk adj cs ds p \<and> (p = [] \<or> (u \<in> set (adj ! last p) \<and> tight cs ds (last p) u)))"
  by (induction adj cs ds p rule: tight_walk.induct) auto

lemma tight_walk_ok: "tight_walk adj cs ds p \<Longrightarrow> walk_ok adj p"
  by (induction adj cs ds p rule: tight_walk.induct) auto

text \<open>The state at the end of the first loop: every vertex is relaxed.\<close>

definition dist_final :: "nat list list \<Rightarrow> (nat \<times> nat) set \<Rightarrow> nat \<Rightarrow> int list \<Rightarrow> bool" where
  "dist_final adj cs s ds = dist_inv adj cs s ds []"

lemma dist_final_zero:
  assumes "dist_final adj cs s ds"
  shows "ds ! s = 0"
proof -
  have s: "s < length ds" "ds ! s \<le> 0" using assms by (simp_all add: dist_final_def dist_inv_def)
  have "realizable adj cs s ds" using assms by (simp add: dist_final_def dist_inv_def)
  then have "ds ! s = INF_const \<or> (\<exists>p. walk_w cs p = ds ! s)"
    using s(1) by (auto simp: realizable_def)
  then have "0 \<le> ds ! s"
  proof
    assume "ds ! s = INF_const"
    then show ?thesis by (simp add: INF_const_def)
  next
    assume "\<exists>p. walk_w cs p = ds ! s"
    then obtain p where "walk_w cs p = ds ! s" by blast
    then show ?thesis using walk_w_nonneg[of cs p] by simp
  qed
  then show ?thesis using s(2) by simp
qed

lemma dist_final_relaxed:
  assumes fin: "dist_final adj cs s ds" and v: "v < length ds" and u: "u \<in> set (adj ! v)"
  shows "ds ! u \<le> ds ! v + sp_w cs v u" "u < length ds"
proof -
  show ul: "u < length ds" using fin v u by (auto simp: dist_final_def dist_inv_def)
  show "ds ! u \<le> ds ! v + sp_w cs v u"
  proof (cases "ds ! v < INF_const")
    case True
    then show ?thesis using fin v u by (auto simp: dist_final_def dist_inv_def relaxed_def)
  next
    case False
    have "ds ! u \<le> INF_const"
      using fin ul by (simp add: dist_final_def dist_inv_def realizable_def)
    then show ?thesis using False sp_w_range(1)[of cs v u] by simp
  qed
qed

lemma dist_final_lower:
  assumes fin: "dist_final adj cs s ds"
  shows "st_walk adj s u p \<Longrightarrow>
         u < length ds \<and> ds ! u \<le> walk_w cs p \<and> (ds ! u = walk_w cs p \<longrightarrow> tight_walk adj cs ds p)"
proof (induction p arbitrary: u rule: rev_induct)
  case Nil
  then show ?case by (simp add: st_walk_def)
next
  case (snoc x q)
  have xu: "x = u" using snoc.prems(1) by (simp add: st_walk_def)
  show ?case
  proof (cases "q = []")
    case True
    then have "u = s" using snoc.prems(1) xu by (simp add: st_walk_def)
    then show ?thesis using True xu dist_final_zero[OF fin] fin
      by (simp add: dist_final_def dist_inv_def)
  next
    case False
    let ?v = "last q"
    have q: "st_walk adj s ?v q" "u \<in> set (adj ! ?v)"
      using st_walk_snocD[of adj s u q] snoc.prems(1) xu False by auto
    have w: "walk_w cs (q @ [x]) = walk_w cs q + sp_w cs ?v u"
      using walk_w_snoc[OF False] xu by simp
    have ih: "?v < length ds" "ds ! ?v \<le> walk_w cs q"
      "ds ! ?v = walk_w cs q \<longrightarrow> tight_walk adj cs ds q"
      using snoc.IH[OF q(1)] by auto
    note r = dist_final_relaxed[OF fin ih(1) q(2)]
    have le: "ds ! u \<le> walk_w cs (q @ [x])" using r(1) ih(2) w by simp
    have "tight_walk adj cs ds (q @ [x])" if eq: "ds ! u = walk_w cs (q @ [x])"
    proof -
      have 1: "ds ! ?v = walk_w cs q" and 2: "ds ! u = ds ! ?v + sp_w cs ?v u"
        using eq r(1) ih(2) w by simp_all
      have "tight cs ds ?v u" using 2 by (auto simp: tight_def sp_w_def split: if_splits)
      then show ?thesis using ih(3) 1 q(2) xu by (simp add: tight_walk_snoc)
    qed
    then show ?thesis using r(2) le xu by simp
  qed
qed

lemma distinct_length_le:
  assumes "distinct p" "\<forall>x\<in>set p. x < n"
  shows "length p \<le> n"
proof -
  have "card (set p) \<le> card {..<n}" by (rule card_mono) (use assms(2) in auto)
  then show ?thesis using distinct_card[OF assms(1)] by simp
qed

lemma walk_in_range:
  assumes rng: "\<forall>v<n. \<forall>u\<in>set (adj ! v). u < n"
  shows "walk_ok adj p \<Longrightarrow> p \<noteq> [] \<Longrightarrow> hd p < n \<Longrightarrow> \<forall>x\<in>set p. x < n"
proof (induction p rule: rev_induct)
  case Nil
  then show ?case by simp
next
  case (snoc x q)
  show ?case
  proof (cases "q = []")
    case True
    then show ?thesis using snoc.prems by simp
  next
    case False
    then have q: "walk_ok adj q" "x \<in> set (adj ! last q)" "hd q < n"
      using snoc.prems by (simp_all add: walk_ok_snoc)
    have ih: "\<forall>y\<in>set q. y < n" by (rule snoc.IH[OF q(1) False q(3)])
    have "last q \<in> set q" using False by simp
    then have "last q < n" using ih by blast
    then have "x < n" using rng q(2) by blast
    then show ?thesis using ih by simp
  qed
qed

lemma simple_walk_weight:
  assumes rng: "\<forall>v<n. \<forall>u\<in>set (adj ! v). u < n" and "int n \<le> INF_const + 1" "s < n"
    and "st_walk adj s u p" "distinct p"
  shows "walk_w cs p \<le> INF_const"
proof -
  have "\<forall>x\<in>set p. x < n"
    by (rule walk_in_range[OF rng]) (use assms in \<open>auto simp: st_walk_def\<close>)
  then have "length p \<le> n" using distinct_length_le assms(5) by blast
  moreover have "p \<noteq> []" using assms(4) by (simp add: st_walk_def)
  ultimately show ?thesis using walk_w_length[of cs p] assms(2) by auto
qed

lemma tight_walk_weight:
  assumes fin: "dist_final adj cs s ds"
  shows "tight_walk adj cs ds p \<Longrightarrow> p \<noteq> [] \<Longrightarrow> hd p = s \<Longrightarrow> walk_w cs p = ds ! last p"
proof (induction p rule: rev_induct)
  case Nil
  then show ?case by simp
next
  case (snoc u q)
  show ?case
  proof (cases "q = []")
    case True
    then show ?thesis using snoc.prems dist_final_zero[OF fin] by simp
  next
    case False
    let ?v = "last q"
    have tq: "tight_walk adj cs ds q" and e: "u \<in> set (adj ! ?v)" and t: "tight cs ds ?v u"
      using snoc.prems(1) False by (simp_all add: tight_walk_snoc)
    have hq: "hd q = s" using snoc.prems False by auto
    have ih: "walk_w cs q = ds ! ?v" by (rule snoc.IH[OF tq False hq])
    have sw: "st_walk adj s ?v q" using tight_walk_ok[OF tq] False hq by (simp add: st_walk_def)
    have v: "?v < length ds" using dist_final_lower[OF fin sw] by simp
    note r = dist_final_relaxed[OF fin v e]
    have "ds ! u = ds ! ?v + sp_w cs ?v u"
      using t r(1) by (auto simp: tight_def sp_w_def split: if_splits)
    then show ?thesis using ih walk_w_snoc[OF False, of cs u] by simp
  qed
qed

text \<open>
  The second loop collects, for every vertex, simple walks from the source along tight
  steps; a vertex outside the queue has handed every extension of its paths on.
\<close>

definition good_path ::
  "nat list list \<Rightarrow> (nat \<times> nat) set \<Rightarrow> int list \<Rightarrow> nat \<Rightarrow> nat \<Rightarrow> nat list \<Rightarrow> bool" where
  "good_path adj cs ds s u p =
     (p \<noteq> [] \<and> hd p = s \<and> last p = u \<and> distinct p \<and> tight_walk adj cs ds p)"

definition closed ::
  "nat list list \<Rightarrow> (nat \<times> nat) set \<Rightarrow> int list \<Rightarrow> nat list list list \<Rightarrow> nat \<Rightarrow> bool" where
  "closed adj cs ds paths v =
     (\<forall>u\<in>set (adj ! v). tight cs ds v u \<longrightarrow>
        (\<forall>p\<in>set (paths ! v). u \<notin> set p \<longrightarrow> p @ [u] \<in> set (paths ! u)))"

lemma sp_extend_apply:
  "sp_extend u p (paths, upd) =
     (if p @ [u] \<in> set (paths ! u) \<or> u \<in> set p then (paths, upd)
      else (paths[u := paths ! u @ [p @ [u]]], True))"
  by (simp add: sp_extend_def)

lemma sp_extend_fold_id:
  "\<forall>p\<in>set ps. u \<in> set p \<or> p @ [u] \<in> set (paths ! u) \<Longrightarrow>
   fold (sp_extend u) ps (paths, upd) = (paths, upd)"
  by (induction ps) (auto simp: sp_extend_apply)

lemma sp_extend_fold_char:
  assumes "u < length paths" "fold (sp_extend u) ps (paths, upd) = (paths', upd')"
  shows "length paths' = length paths \<and> (\<forall>x. x \<noteq> u \<longrightarrow> paths' ! x = paths ! x) \<and>
         set (paths' ! u) = set (paths ! u) \<union> {p @ [u] | p. p \<in> set ps \<and> u \<notin> set p} \<and>
         (distinct (paths ! u) \<longrightarrow> distinct (paths' ! u)) \<and>
         (\<not> upd' \<longrightarrow> paths' = paths)"
  using assms
proof (induction ps arbitrary: paths upd)
  case Nil
  then show ?case by simp
next
  case (Cons p ps)
  show ?case
  proof (cases "p @ [u] \<in> set (paths ! u) \<or> u \<in> set p")
    case True
    then have "fold (sp_extend u) ps (paths, upd) = (paths', upd')"
      using Cons.prems(2) by (simp add: sp_extend_apply)
    from Cons.IH[OF Cons.prems(1) this] True show ?thesis by auto
  next
    case False
    let ?p1 = "paths[u := paths ! u @ [p @ [u]]]"
    have f: "fold (sp_extend u) ps (?p1, True) = (paths', upd')"
      using Cons.prems(2) False by (simp add: sp_extend_apply)
    have u1: "u < length ?p1" using Cons.prems(1) by simp
    note ih = Cons.IH[OF u1 f]
    have a: "length paths' = length paths" using ih by simp
    have b: "\<forall>x. x \<noteq> u \<longrightarrow> paths' ! x = paths ! x" using ih by simp
    have "set (paths' ! u) = set (?p1 ! u) \<union> {q @ [u] | q. q \<in> set ps \<and> u \<notin> set q}"
      using ih by blast
    moreover have "set (?p1 ! u) = insert (p @ [u]) (set (paths ! u))"
      using Cons.prems(1) by simp
    ultimately have c: "set (paths' ! u) =
        set (paths ! u) \<union> {q @ [u] | q. q \<in> set (p # ps) \<and> u \<notin> set q}"
      using False by auto
    have d: "distinct (paths ! u) \<longrightarrow> distinct (paths' ! u)"
    proof
      assume "distinct (paths ! u)"
      then have "distinct (?p1 ! u)" using False Cons.prems(1) by simp
      then show "distinct (paths' ! u)" using ih by blast
    qed
    have "upd'"
    proof (rule ccontr)
      assume "\<not> upd'"
      then have "paths' = ?p1" using ih by blast
      moreover have "fold (sp_extend u) ps (?p1, True) = (paths', upd') \<Longrightarrow> upd'"
        for paths' upd'
      proof (induction ps arbitrary: paths' upd' rule: rev_induct)
        case Nil
        then show ?case by simp
      next
        case (snoc q qs)
        obtain pa ua where st: "fold (sp_extend u) qs (?p1, True) = (pa, ua)"
          by (cases "fold (sp_extend u) qs (?p1, True)")
        then have "ua" using snoc.IH by blast
        then show ?case using snoc.prems st by (auto simp: sp_extend_apply split: if_splits)
      qed
      ultimately show False using f \<open>\<not> upd'\<close> by blast
    qed
    then show ?thesis using a b c d by simp
  qed
qed

definition visit_inv ::
  "nat list list \<Rightarrow> (nat \<times> nat) set \<Rightarrow> int list \<Rightarrow> nat \<Rightarrow> nat \<Rightarrow> nat set \<Rightarrow> nat list list list
     \<Rightarrow> nat list \<Rightarrow> bool" where
  "visit_inv adj cs ds s v D paths que =
     ((\<forall>x<length paths. \<forall>p\<in>set (paths ! x). good_path adj cs ds s x p) \<and>
      (\<forall>x<length paths. distinct (paths ! x)) \<and>
      s < length paths \<and> [s] \<in> set (paths ! s) \<and>
      (\<forall>x<length paths. x = v \<or> x \<in> set que \<or> closed adj cs ds paths x) \<and>
      (\<forall>x\<in>set que. x < length paths) \<and> v < length paths \<and>
      (\<forall>u\<in>D. tight cs ds v u \<longrightarrow>
         (\<forall>p\<in>set (paths ! v). u \<notin> set p \<longrightarrow> p @ [u] \<in> set (paths ! u))))"

lemma closed_mono:
  assumes "closed adj cs ds paths x" "paths' ! x = paths ! x"
    and "\<forall>y. set (paths ! y) \<subseteq> set (paths' ! y)"
  shows "closed adj cs ds paths' x"
  using assms unfolding closed_def by (metis subsetD)

lemma good_path_snoc:
  assumes "good_path adj cs ds s v p" "u \<in> set (adj ! v)" "tight cs ds v u" "u \<notin> set p"
  shows "good_path adj cs ds s u (p @ [u])"
  using assms by (auto simp: good_path_def tight_walk_snoc)

lemma sp_visit_apply:
  "sp_visit cs ds v u (paths, que) =
     (if tight cs ds v u
      then (case fold (sp_extend u) (paths ! v) (paths, False) of
             (paths', update) \<Rightarrow>
               if update
               then (if ds ! u = ds ! v + 1 then (paths', que @ [u]) else (paths', u # que))
               else (paths', que))
      else (paths, que))"
  by (simp add: sp_visit_def tight_def)

lemma sp_visit_inv':
  assumes inv: "visit_inv adj cs ds s v D paths que"
    and u: "u < length paths" "u \<in> set (adj ! v)"
    and st: "sp_visit cs ds v u (paths, que) = (paths', que')"
  shows "visit_inv adj cs ds s v (insert u D) paths' que' \<and> length paths' = length paths"
proof -
  have v: "v < length paths" using inv by (simp add: visit_inv_def)
  have goodv: "\<forall>p\<in>set (paths ! v). good_path adj cs ds s v p"
    using inv v by (simp add: visit_inv_def)
  have same: ?thesis if eq: "paths' = paths" "que' = que"
    and new: "tight cs ds v u \<longrightarrow> (\<forall>p\<in>set (paths ! v). u \<notin> set p \<longrightarrow> p @ [u] \<in> set (paths ! u))"
    using inv eq new unfolding visit_inv_def by auto
  show ?thesis
  proof (cases "tight cs ds v u")
    case False
    then show ?thesis using same st by (simp add: sp_visit_apply)
  next
    case True
    obtain paths1 upd1 where f: "fold (sp_extend u) (paths ! v) (paths, False) = (paths1, upd1)"
      by (cases "fold (sp_extend u) (paths ! v) (paths, False)")
    have p': "paths' = paths1" and q': "set que' = (if upd1 then insert u (set que) else set que)"
      and q'': "\<not> upd1 \<longrightarrow> que' = que"
      using st True f by (auto simp: sp_visit_apply split: if_splits)
    note ch = sp_extend_fold_char[OF u(1) f]
    have len: "length paths1 = length paths" using ch by simp
    have oth: "\<forall>x. x \<noteq> u \<longrightarrow> paths1 ! x = paths ! x" using ch by simp
    have setu: "set (paths1 ! u) = set (paths ! u) \<union> {p @ [u] | p. p \<in> set (paths ! v) \<and> u \<notin> set p}"
      using ch by simp
    have grow: "\<forall>y. set (paths ! y) \<subseteq> set (paths1 ! y)"
    proof
      fix y show "set (paths ! y) \<subseteq> set (paths1 ! y)"
        using oth setu by (cases "y = u") auto
    qed
    show ?thesis
    proof (cases "upd1")
      case False
      then have "paths1 = paths" using ch by simp
      then have eq: "paths' = paths" "que' = que" using p' q'' False by simp_all
      have "\<forall>p\<in>set (paths ! v). u \<notin> set p \<longrightarrow> p @ [u] \<in> set (paths ! u)"
        using setu \<open>paths1 = paths\<close> by auto
      then show ?thesis using same[OF eq] by simp
    next
      case upd: True
      have uv: "u \<noteq> v"
      proof
        assume "u = v"
        then have "\<forall>p\<in>set (paths ! v). u \<in> set p"
          using goodv by (auto simp: good_path_def)
        then have "fold (sp_extend u) (paths ! v) (paths, False) = (paths, False)"
          by (intro sp_extend_fold_id) simp
        then show False using f upd by simp
      qed
      have pv: "paths1 ! v = paths ! v" using oth uv by simp
      have good: "\<forall>x<length paths1. \<forall>p\<in>set (paths1 ! x). good_path adj cs ds s x p"
      proof (intro allI impI ballI)
        fix x p assume x: "x < length paths1" and p: "p \<in> set (paths1 ! x)"
        show "good_path adj cs ds s x p"
        proof (cases "x = u")
          case False
          then show ?thesis using inv x p oth len by (simp add: visit_inv_def)
        next
          case xu: True
          from p xu setu have "p \<in> set (paths ! u) \<or> (\<exists>q. p = q @ [u] \<and> q \<in> set (paths ! v) \<and> u \<notin> set q)"
            by auto
          then show ?thesis
          proof
            assume "p \<in> set (paths ! u)"
            then show ?thesis using inv u(1) xu by (simp add: visit_inv_def)
          next
            assume "\<exists>q. p = q @ [u] \<and> q \<in> set (paths ! v) \<and> u \<notin> set q"
            then obtain q where q: "p = q @ [u]" "q \<in> set (paths ! v)" "u \<notin> set q" by blast
            have "good_path adj cs ds s v q" using goodv q(2) by blast
            from good_path_snoc[OF this u(2) True q(3)] show ?thesis using q(1) xu by simp
          qed
        qed
      qed
      have dist: "\<forall>x<length paths1. distinct (paths1 ! x)"
      proof (intro allI impI)
        fix x assume x: "x < length paths1"
        have d: "distinct (paths ! x)" using inv x len by (simp add: visit_inv_def)
        show "distinct (paths1 ! x)"
          using d ch oth by (cases "x = u") auto
      qed
      have s1: "s < length paths1" "[s] \<in> set (paths1 ! s)"
        using inv len grow by (auto simp: visit_inv_def)
      have cl: "\<forall>x<length paths1. x = v \<or> x \<in> set que' \<or> closed adj cs ds paths1 x"
      proof (intro allI impI)
        fix x assume x: "x < length paths1"
        show "x = v \<or> x \<in> set que' \<or> closed adj cs ds paths1 x"
        proof (cases "x = u")
          case True
          then show ?thesis using q' upd by simp
        next
          case False
          have "x = v \<or> x \<in> set que \<or> closed adj cs ds paths x"
            using inv x len by (simp add: visit_inv_def)
          moreover have "closed adj cs ds paths1 x" if "closed adj cs ds paths x"
            by (rule closed_mono[OF that _ grow]) (use oth False in simp)
          ultimately show ?thesis using q' upd by auto
        qed
      qed
      have qr: "\<forall>x\<in>set que'. x < length paths1"
        using inv q' upd u(1) len by (auto simp: visit_inv_def)
      have D: "\<forall>w\<in>insert u D. tight cs ds v w \<longrightarrow>
         (\<forall>p\<in>set (paths1 ! v). w \<notin> set p \<longrightarrow> p @ [w] \<in> set (paths1 ! w))"
      proof (intro ballI impI)
        fix w p assume w: "w \<in> insert u D" "tight cs ds v w" and p: "p \<in> set (paths1 ! v)" "w \<notin> set p"
        have pp: "p \<in> set (paths ! v)" using p(1) pv by simp
        show "p @ [w] \<in> set (paths1 ! w)"
        proof (cases "w = u")
          case True
          then show ?thesis using setu pp p(2) by auto
        next
          case False
          then have "w \<in> D" using w(1) by simp
          then have "p @ [w] \<in> set (paths ! w)" using inv w(2) pp p(2) by (simp add: visit_inv_def)
          then show ?thesis using grow by blast
        qed
      qed
      show ?thesis
        unfolding visit_inv_def p' using good dist s1 cl qr v len D by simp
    qed
  qed
qed

lemma sp_visit_fold_inv':
  assumes "visit_inv adj cs ds s v D paths que"
    and "\<forall>u\<in>set us. u < length paths \<and> u \<in> set (adj ! v)"
    and "fold (sp_visit cs ds v) us (paths, que) = (paths', que')"
  shows "visit_inv adj cs ds s v (set us \<union> D) paths' que' \<and> length paths' = length paths"
  using assms
proof (induction us arbitrary: D paths que)
  case Nil
  then show ?case by simp
next
  case (Cons u us)
  obtain paths1 que1 where st: "sp_visit cs ds v u (paths, que) = (paths1, que1)"
    by (cases "sp_visit cs ds v u (paths, que)")
  have one: "visit_inv adj cs ds s v (insert u D) paths1 que1 \<and> length paths1 = length paths"
    by (rule sp_visit_inv'[OF Cons.prems(1) _ _ st]) (use Cons.prems(2) in auto)
  have rest: "fold (sp_visit cs ds v) us (paths1, que1) = (paths', que')"
    using Cons.prems(3) st by simp
  have "visit_inv adj cs ds s v (set us \<union> insert u D) paths' que' \<and> length paths' = length paths1"
    by (rule Cons.IH[OF _ _ rest]) (use one Cons.prems(2) in auto)
  then show ?case using one by simp
qed

definition paths_inv ::
  "nat list list \<Rightarrow> (nat \<times> nat) set \<Rightarrow> int list \<Rightarrow> nat \<Rightarrow> nat list list list \<Rightarrow> nat list \<Rightarrow> bool" where
  "paths_inv adj cs ds s paths que =
     ((\<forall>x<length paths. \<forall>p\<in>set (paths ! x). good_path adj cs ds s x p) \<and>
      (\<forall>x<length paths. distinct (paths ! x)) \<and>
      s < length paths \<and> [s] \<in> set (paths ! s) \<and>
      (\<forall>x<length paths. x \<in> set que \<or> closed adj cs ds paths x) \<and>
      (\<forall>x\<in>set que. x < length paths) \<and>
      (\<forall>v<length paths. \<forall>u\<in>set (adj ! v). u < length paths))"

lemma sp_paths_loop_inv:
  assumes "paths_inv adj cs ds s paths que"
  shows "\<exists>paths'. sp_paths_loop adj cs ds paths que = Some paths' \<and> length paths' = length paths \<and>
               paths_inv adj cs ds s paths' []"
  using assms
proof (induction adj cs ds paths que rule: sp_paths_loop.induct)
  case (1 adj cs ds paths)
  then show ?case by (simp add: sp_paths_loop.simps)
next
  case (2 adj cs ds paths v que)
  note inv = "2.prems"
  have v: "v < length paths" using inv by (simp add: paths_inv_def)
  have rng: "\<forall>v<length paths. \<forall>u\<in>set (adj ! v). u < length paths"
    using inv by (simp add: paths_inv_def)
  have g: "v < length paths \<and> (\<forall>u\<in>set (adj ! v). u < length paths)" using v rng by simp
  obtain paths1 que1 where f: "fold (sp_visit cs ds v) (adj ! v) (paths, que) = (paths1, que1)"
    by (cases "fold (sp_visit cs ds v) (adj ! v) (paths, que)")
  have r0: "visit_inv adj cs ds s v {} paths que"
    using inv v unfolding visit_inv_def paths_inv_def by auto
  have r1: "visit_inv adj cs ds s v (set (adj ! v) \<union> {}) paths1 que1 \<and> length paths1 = length paths"
    by (rule sp_visit_fold_inv'[OF r0 _ f]) (use g in auto)
  then have len: "length paths1 = length paths" by simp
  have cv: "closed adj cs ds paths1 v" using r1 by (simp add: visit_inv_def closed_def)
  have inv1: "paths_inv adj cs ds s paths1 que1"
    unfolding paths_inv_def using r1 cv rng len by (auto simp: visit_inv_def)
  have "\<exists>paths'. sp_paths_loop adj cs ds paths1 que1 = Some paths' \<and> length paths' = length paths1 \<and>
               paths_inv adj cs ds s paths' []"
    by (rule "2.IH"[OF g f[symmetric] inv1])
  then show ?case using g f len by (simp add: sp_paths_loop.simps)
qed

lemma paths_complete:
  assumes inv: "paths_inv adj cs ds s paths []"
  shows "good_path adj cs ds s u p \<Longrightarrow> u < length paths \<and> p \<in> set (paths ! u)"
proof (induction p arbitrary: u rule: rev_induct)
  case Nil
  then show ?case by (simp add: good_path_def)
next
  case (snoc x q)
  have xu: "x = u" using snoc.prems by (simp add: good_path_def)
  show ?case
  proof (cases "q = []")
    case True
    then have "u = s" using snoc.prems xu by (simp add: good_path_def)
    then show ?thesis using True xu inv by (simp add: paths_inv_def)
  next
    case False
    let ?v = "last q"
    have gq: "good_path adj cs ds s ?v q" and e: "u \<in> set (adj ! ?v)" "tight cs ds ?v u" "u \<notin> set q"
      using snoc.prems False xu by (auto simp: good_path_def tight_walk_snoc)
    have ih: "?v < length paths" "q \<in> set (paths ! ?v)" using snoc.IH[OF gq] by auto
    have "closed adj cs ds paths ?v" using inv ih(1) by (simp add: paths_inv_def)
    then have "q @ [u] \<in> set (paths ! u)" using e ih(2) by (simp add: closed_def)
    moreover have "u < length paths" using inv ih(1) e(1) by (simp add: paths_inv_def)
    ultimately show ?thesis using xu by simp
  qed
qed

text \<open>Without contraction every step weighs 1 and every tight step raises the label by 1.\<close>

lemma walk_w_unit: "p \<noteq> [] \<Longrightarrow> walk_w {} p = int (length p) - 1"
  by (induction "{} :: (nat \<times> nat) set" p rule: walk_w.induct) (simp_all add: sp_w_def)

lemma tight_walk_unit:
  "tight_walk adj {} ds p \<Longrightarrow> p \<noteq> [] \<Longrightarrow> ds ! last p = ds ! hd p + int (length p) - 1"
proof (induction p rule: rev_induct)
  case Nil
  then show ?case by simp
next
  case (snoc x q)
  show ?case
  proof (cases "q = []")
    case True
    then show ?thesis by simp
  next
    case False
    then have "tight_walk adj {} ds q" "tight {} ds (last q) x"
      using snoc.prems by (simp_all add: tight_walk_snoc)
    then show ?thesis using snoc.IH False by (simp add: tight_def)
  qed
qed

text \<open>
  \<open>shortest_walk adj cs s t p\<close>: \<open>p\<close> is a walk from \<open>s\<close> to \<open>t\<close> and no walk from \<open>s\<close> to \<open>t\<close>
  weighs less.
\<close>

definition shortest_walk ::
  "nat list list \<Rightarrow> (nat \<times> nat) set \<Rightarrow> nat \<Rightarrow> nat \<Rightarrow> nat list \<Rightarrow> bool" where
  "shortest_walk adj cs s t p =
     (st_walk adj s t p \<and> (\<forall>q. st_walk adj s t q \<longrightarrow> walk_w cs p \<le> walk_w cs q))"

lemma dist_inv_init:
  assumes "\<forall>v<n. \<forall>u\<in>set (adj ! v). u < n" "s < n"
  shows "dist_inv adj cs s ((replicate n INF_const)[s := 0]) [s]"
proof -
  let ?ds = "(replicate n INF_const)[s := 0]"
  have nth: "?ds ! u = (if u = s then 0 else INF_const)" if "u < n" for u
    using that assms(2) by (simp add: nth_list_update)
  have "realizable adj cs s ?ds"
    unfolding realizable_def
  proof (intro allI impI)
    fix u assume "u < length ?ds"
    then have u: "u < n" by simp
    show "?ds ! u \<le> INF_const \<and> (?ds ! u = INF_const \<or> (\<exists>p. st_walk adj s u p \<and> walk_w cs p = ?ds ! u))"
    proof (cases "u = s")
      case True
      have "st_walk adj s u [s] \<and> walk_w cs [s] = 0" using True by (simp add: st_walk_def)
      then show ?thesis using nth[OF u] True by (auto simp: INF_const_def)
    next
      case False
      then show ?thesis using nth[OF u] by simp
    qed
  qed
  moreover have "\<forall>x<length ?ds. ?ds ! x < INF_const \<longrightarrow> x \<in> set [s] \<or> relaxed adj cs ?ds x"
    using nth by (auto split: if_splits)
  moreover have "?ds ! s = 0" using assms(2) by simp
  ultimately show ?thesis
    unfolding dist_inv_def using assms by (simp add: INF_const_def)
qed

lemma paths_inv_init:
  assumes "\<forall>v<n. \<forall>u\<in>set (adj ! v). u < n" "s < n"
  shows "paths_inv adj cs ds s ((replicate n [])[s := [[s]]]) [s]"
proof -
  let ?ps = "(replicate n [])[s := [[s]]]"
  have nth: "?ps ! u = (if u = s then [[s]] else [])" if "u < n" for u
    using that assms(2) by (simp add: nth_list_update)
  have "good_path adj cs ds s s [s]" by (simp add: good_path_def)
  then have 1: "\<forall>x<length ?ps. \<forall>p\<in>set (?ps ! x). good_path adj cs ds s x p"
    using nth by (auto split: if_splits)
  have 2: "\<forall>x<length ?ps. distinct (?ps ! x)" using nth by auto
  have 3: "\<forall>x<length ?ps. x \<in> set [s] \<or> closed adj cs ds ?ps x"
    using nth by (auto simp: closed_def)
  show ?thesis
    unfolding paths_inv_def using 1 2 3 assms nth[OF assms(2)] by simp
qed

lemma sp_main:
  assumes rng: "\<forall>v<n. \<forall>u\<in>set (adj ! v). u < n" and n: "int n \<le> INF_const + 1"
    and s: "s < n" and t: "t < n"
  shows "\<exists>ds paths.
           sp_dist_loop adj cs ((replicate n INF_const)[s := 0]) [s] = Some ds \<and>
           sp_paths_loop adj cs ds ((replicate n [])[s := [[s]]]) [s] = Some paths \<and>
           distinct (paths ! t) \<and>
           set (paths ! t) = {p. distinct p \<and> shortest_walk adj cs s t p}"
proof -
  obtain ds where ds: "sp_dist_loop adj cs ((replicate n INF_const)[s := 0]) [s] = Some ds"
    "length ds = n" "dist_final adj cs s ds"
    using sp_dist_loop_inv[OF dist_inv_init[OF rng s, of cs]] by (auto simp: dist_final_def)
  obtain paths where paths: "sp_paths_loop adj cs ds ((replicate n [])[s := [[s]]]) [s] = Some paths"
    "length paths = n" "paths_inv adj cs ds s paths []"
    using sp_paths_loop_inv[OF paths_inv_init[OF rng s, of cs ds]] by auto
  have real: "realizable adj cs s ds" using ds(3) by (simp add: dist_final_def dist_inv_def)
  have "set (paths ! t) = {p. distinct p \<and> shortest_walk adj cs s t p}"
  proof (intro set_eqI iffI)
    fix p assume "p \<in> set (paths ! t)"
    then have g: "good_path adj cs ds s t p" using paths(2,3) t by (simp add: paths_inv_def)
    then have sw: "st_walk adj s t p" and dp: "distinct p"
      using tight_walk_ok[of adj cs ds p] by (simp_all add: good_path_def st_walk_def)
    have w: "walk_w cs p = ds ! t"
      using tight_walk_weight[OF ds(3), of p] g by (simp add: good_path_def)
    have "walk_w cs p \<le> walk_w cs q" if q: "st_walk adj s t q" for q
      using dist_final_lower[OF ds(3) q] w by simp
    then show "p \<in> {p. distinct p \<and> shortest_walk adj cs s t p}"
      using sw dp by (simp add: shortest_walk_def)
  next
    fix p assume "p \<in> {p. distinct p \<and> shortest_walk adj cs s t p}"
    then have dp: "distinct p" and sw: "st_walk adj s t p"
      and least: "\<forall>q. st_walk adj s t q \<longrightarrow> walk_w cs p \<le> walk_w cs q"
      by (simp_all add: shortest_walk_def)
    have fin: "walk_w cs p \<le> INF_const" by (rule simple_walk_weight[OF rng n s sw dp])
    note low = dist_final_lower[OF ds(3) sw]
    have "ds ! t = INF_const \<or> (\<exists>q. st_walk adj s t q \<and> walk_w cs q = ds ! t)"
      using real t ds(2) by (simp add: realizable_def)
    then have "ds ! t = walk_w cs p"
    proof
      assume "ds ! t = INF_const"
      then show ?thesis using low fin by simp
    next
      assume "\<exists>q. st_walk adj s t q \<and> walk_w cs q = ds ! t"
      then obtain q where "st_walk adj s t q" "walk_w cs q = ds ! t" by blast
      then show ?thesis using least low by auto
    qed
    then have "tight_walk adj cs ds p" using low by simp
    then have "good_path adj cs ds s t p" using sw dp by (simp add: good_path_def st_walk_def)
    from paths_complete[OF paths(3) this] show "p \<in> set (paths ! t)" by simp
  qed
  moreover have "distinct (paths ! t)" using paths(2,3) t by (simp add: paths_inv_def)
  ultimately show ?thesis using ds(1) paths(1) by blast
qed

lemma unique_paths_distinct: "distinct ps \<Longrightarrow> unique_paths ps = ps"
proof -
  have "distinct (acc @ ps) \<Longrightarrow>
        fold (\<lambda>path acc. if path \<in> set acc then acc else acc @ [path]) ps acc = acc @ ps" for acc
    by (induction ps arbitrary: acc) auto
  from this[of "[]"] show "distinct ps \<Longrightarrow> unique_paths ps = ps" by (simp add: unique_paths_def)
qed

section \<open>Configurations as the program builds them\<close>

text \<open>
  The program builds a configuration with the constructor and then calls
  \<^verbatim>\<open>setContract\<close> on it, any number of times; \<open>built n r adj cts\<close> is the object after
  the calls with the contraction lists \<open>cts\<close>, in this order.  A contraction list is in
  range when its pairs are pairs of vertices.
\<close>

fun setContracts :: "Configuration \<Rightarrow> (nat \<times> nat) list list \<Rightarrow> Configuration option" where
  "setContracts c [] = Some c"
| "setContracts c (ct # cts) = Option.bind (setContract c ct) (\<lambda>c'. setContracts c' cts)"

definition built :: "nat \<Rightarrow> nat \<Rightarrow> nat list list \<Rightarrow> (nat \<times> nat) list list \<Rightarrow> Configuration option" where
  "built n r adj cts = Option.bind (new_Configuration n r adj) (\<lambda>c. setContracts c cts)"

definition pairs_in_range :: "nat \<Rightarrow> (nat \<times> nat) list \<Rightarrow> bool" where
  "pairs_in_range n ct = list_all (\<lambda>e. fst e < n \<and> snd e < n) ct"

lemma new_Configuration_fields:
  assumes "new_Configuration n r adj = Some c"
  shows "conf_n c = n" "conf_r c = r" "VtoV c = adj" "contract c = []"
    "dist_contracted c = dist c" "dist c = WF_loop n (WF_edges c)"
    "is_reductable_inside c = replicate n False"
    "is_reductable_outside6 c = replicate n False"
    "is_reductable_outside7 c = replicate n False"
    "representative c = calcRepresentative c"
    "all_paths c =
       map (\<lambda>p. map (\<lambda>q. if p = q then [] else calculatePaths_dfs adj q 7 p []) [0..<r]) [0..<r]"
  using assms
  by (auto simp: new_Configuration_def Let_def WF_False_Some WF_edges_def calcRepresentative_def
      equivalent_def calculatePaths_def split: Option.bind_splits)

definition paths_short :: "Configuration \<Rightarrow> bool" where
  "paths_short c =
     (\<forall>p<conf_r c. \<forall>q<conf_r c. \<forall>R\<in>set (all_paths c ! p ! q). length R \<le> 8)"

lemma new_Configuration_paths_short:
  assumes "new_Configuration n r adj = Some c"
  shows "paths_short c"
  unfolding paths_short_def
proof (intro allI impI ballI)
  fix p q R
  assume pq: "p < conf_r c" "q < conf_r c" and R: "R \<in> set (all_paths c ! p ! q)"
  note f = new_Configuration_fields[OF assms]
  have "all_paths c ! p ! q = (if p = q then [] else calculatePaths_dfs adj q 7 p [])"
    using pq f(2) by (simp add: f(11))
  then have "R \<in> set (calculatePaths_dfs adj q 7 p [])" using R by (auto split: if_splits)
  from calculatePaths_dfs_length[OF this] show "length R \<le> 8" by simp
qed

lemma setContract_fields:
  assumes "setContract c ct = Some c'"
  shows "same_graph c c'" "contract c' = ct" "WF (c\<lparr>contract := ct\<rparr>) True = Some (dist_contracted c')"
    "length6 c' = length6 c" "length7 c' = length7 c"
    "length_oneedge6 c' = length_oneedge6 c" "length_oneedge7 c' = length_oneedge7 c"
    "dist c' = dist c"
  using assms
  by (auto simp: setContract_def Let_def same_graph_def split: Option.bind_splits)

definition tables_ok :: "Configuration \<Rightarrow> bool" where
  "tables_ok c = (\<forall>p<conf_r c. \<forall>q<conf_r c. p \<noteq> q \<longrightarrow>
              table_entries_ok c 6 (length6 c) (length_oneedge6 c) p q \<and>
              table_entries_ok c 7 (length7 c) (length_oneedge7 c) p q)"

lemma table_entries_ok_cong:
  "same_graph c c' \<Longrightarrow> table_entries_ok c C l l1 p q = table_entries_ok c' C l l1 p q"
  using forbiddenCycle_cong[of c c'] forbiddenCycleOneEdge_cong[of c c']
  by (simp add: table_entries_ok_def same_graph_def)

definition built_inv :: "nat \<Rightarrow> nat \<Rightarrow> nat list list \<Rightarrow> Configuration \<Rightarrow> bool" where
  "built_inv n r adj c =
     (conf_ok c \<and> conf_n c = n \<and> conf_r c = r \<and> VtoV c = adj \<and> tables_ok c \<and> paths_short c)"

lemma built_inv_setContract:
  assumes "built_inv n r adj c" "setContract c ct = Some c'"
  shows "built_inv n r adj c'"
proof -
  note f = setContract_fields[OF assms(2)]
  have "conf_ok c'" using conf_ok_cong[OF f(1)] assms(1) by (simp add: built_inv_def)
  moreover have "tables_ok c'"
    using assms(1) f table_entries_ok_cong[OF f(1)]
    by (simp add: built_inv_def tables_ok_def same_graph_def)
  moreover have "paths_short c'"
    using assms(1) f(1) by (simp add: built_inv_def paths_short_def same_graph_def)
  ultimately show ?thesis using assms(1) f(1) by (simp add: built_inv_def same_graph_def)
qed

lemma built_inv_setContracts:
  "built_inv n r adj c \<Longrightarrow> setContracts c cts = Some c' \<Longrightarrow> built_inv n r adj c'"
proof (induction cts arbitrary: c)
  case Nil
  then show ?case by simp
next
  case (Cons ct cts)
  then obtain c1 where c1: "setContract c ct = Some c1" "setContracts c1 cts = Some c'"
    by (auto split: Option.bind_splits)
  show ?case by (rule Cons.IH[OF built_inv_setContract[OF Cons.prems(1) c1(1)] c1(2)])
qed

lemma built_inv_built:
  assumes "graph_ok n r adj" "built n r adj cts = Some c"
  shows "built_inv n r adj c"
proof -
  obtain c0 where c0: "new_Configuration n r adj = Some c0" "setContracts c0 cts = Some c"
    using assms(2) by (auto simp: built_def split: Option.bind_splits)
  have "built_inv n r adj c0"
    using new_Configuration_tables[OF assms(1)] c0(1) new_Configuration_paths_short[OF c0(1)]
    by (auto simp: built_inv_def tables_ok_def)
  then show ?thesis using c0(2) by (rule built_inv_setContracts)
qed

lemma is_metric_setContracts:
  assumes "graph_ok n r adj" "simple_graph n adj"
  shows "built_inv n r adj c \<Longrightarrow> is_metric n (dist_contracted c) \<Longrightarrow>
         list_all (pairs_in_range n) cts \<Longrightarrow> setContracts c cts = Some c' \<Longrightarrow>
         is_metric n (dist_contracted c')"
proof (induction cts arbitrary: c)
  case Nil
  then show ?case by simp
next
  case (Cons ct cts)
  then obtain c1 where c1: "setContract c ct = Some c1" "setContracts c1 cts = Some c'"
    by (auto split: Option.bind_splits)
  have f: "conf_n c = n" "conf_r c = r" "VtoV c = adj" using Cons.prems(1) by (simp_all add: built_inv_def)
  have rng: "\<forall>e\<in>set ct. fst e < n \<and> snd e < n"
    using Cons.prems(3) by (simp add: pairs_in_range_def list_all_iff)
  have "is_metric (conf_n (c\<lparr>contract := ct\<rparr>)) (dist_contracted c1)"
    by (rule WF_is_metric[OF _ _ _ setContract_fields(3)[OF c1(1)]]) (use assms f rng in auto)
  then have m: "is_metric n (dist_contracted c1)" using f by simp
  show ?case
    by (rule Cons.IH[OF built_inv_setContract[OF Cons.prems(1) c1(1)] m _ c1(2)])
       (use Cons.prems(3) in simp)
qed

section \<open>The passes over a mask only set entries\<close>

text \<open>
  \<open>mask_le a b\<close>: every entry that is true in \<open>a\<close> is true in \<open>b\<close>.  \<open>grows m isr\<close>: if the
  computation \<open>m\<close> returns a mask, the mask contains \<open>isr\<close>.
\<close>

definition mask_le :: "bool list \<Rightarrow> bool list \<Rightarrow> bool" where
  "mask_le a b = (length a = length b \<and> list_all (\<lambda>v. a ! v \<longrightarrow> b ! v) [0..<length a])"

lemma mask_le_refl: "mask_le a a"
  by (simp add: mask_le_def list_all_iff)

lemma mask_le_trans: "mask_le a b \<Longrightarrow> mask_le b d \<Longrightarrow> mask_le a d"
  by (simp add: mask_le_def list_all_iff)

lemma mask_le_set: "mask_le a (a[v := True])"
  by (cases "v < length a") (auto simp: mask_le_def list_all_iff nth_list_update)

lemma mask_le_fold:
  assumes "\<And>x a. x \<in> set xs \<Longrightarrow> mask_le a (f x a)"
  shows "mask_le s (fold f xs s)"
  using assms
proof (induction xs arbitrary: s)
  case Nil
  then show ?case by (simp add: mask_le_refl)
next
  case (Cons x xs)
  have "mask_le s (f x s)" by (rule Cons.prems) simp
  moreover have "mask_le (f x s) (fold f xs (f x s))" by (rule Cons.IH) (simp add: Cons.prems)
  ultimately show ?case by (simp add: mask_le_trans)
qed

lemma mask_le_updateIsReductable: "mask_le isr (updateIsReductable c isr component_id is_ring)"
  unfolding updateIsReductable_def Let_def
  by (rule mask_le_fold) (simp add: mask_le_set mask_le_refl)

lemma mask_le_mark_component: "mask_le isr (mark_component c path_vertices cmp isr)"
  unfolding mark_component_def
  by (rule mask_le_fold) (simp add: mask_le_set mask_le_refl)

definition grows :: "bool list option \<Rightarrow> bool list \<Rightarrow> bool" where
  "grows m isr = (case m of None \<Rightarrow> True | Some isr' \<Rightarrow> mask_le isr isr')"

lemma grows_Some: "grows (Some isr) isr"
  by (simp add: grows_def mask_le_refl)

lemma grows_if: "(b \<Longrightarrow> grows x s) \<Longrightarrow> (\<not> b \<Longrightarrow> grows y s) \<Longrightarrow> grows (if b then x else y) s"
  by simp

lemma grows_bind: "(\<And>x. grows (f x) s) \<Longrightarrow> grows (Option.bind m f) s"
  by (cases m) (simp_all add: grows_def)

lemma grows_then:
  assumes "grows m s" "\<And>a. grows (f a) a"
  shows "grows (Option.bind m f) s"
proof (cases m)
  case None
  then show ?thesis by (simp add: grows_def)
next
  case (Some a)
  show ?thesis
  proof (cases "f a")
    case None
    then show ?thesis using Some by (simp add: grows_def)
  next
    case (Some b)
    have "mask_le s a" using assms(1) \<open>m = Some a\<close> by (simp add: grows_def)
    moreover have "mask_le a b" using assms(2)[of a] Some by (simp add: grows_def)
    ultimately show ?thesis using Some \<open>m = Some a\<close> by (simp add: grows_def mask_le_trans)
  qed
qed

lemma grows_for_each:
  assumes "\<And>x a. x \<in> set xs \<Longrightarrow> grows (f x a) a"
  shows "grows (for_each f xs s) s"
  using assms
proof (induction xs arbitrary: s)
  case Nil
  then show ?case by (simp add: grows_Some)
next
  case (Cons x xs)
  show ?case
  proof (cases "f x s")
    case None
    then show ?thesis by (simp add: grows_def)
  next
    case (Some a)
    have 1: "mask_le s a" using Cons.prems[of x s] Some by (simp add: grows_def)
    have 2: "grows (for_each f xs a) a" by (rule Cons.IH) (simp add: Cons.prems)
    show ?thesis
    proof (cases "for_each f xs a")
      case None
      then show ?thesis using Some by (simp add: grows_def)
    next
      case (Some b)
      then have "mask_le a b" using 2 by (simp add: grows_def)
      then show ?thesis using 1 Some \<open>f x s = Some a\<close> by (simp add: grows_def mask_le_trans)
    qed
  qed
qed

lemma grows_for_each4:
  "(\<And>a b c d s. (a, b, c, d) \<in> set xs \<Longrightarrow> grows (f a b c d s) s) \<Longrightarrow>
   grows (for_each (\<lambda>(a, b, c, d). f a b c d) xs s) s"
  by (rule grows_for_each) auto

lemma grows_mark: "grows (map_option (\<lambda>cmp. mark_component c p cmp isr) m) isr"
  by (cases m) (simp_all add: grows_def mask_le_mark_component)

lemma grows_mark_all: "grows (mark_all c component d1 d2 l1 l2 isr) isr"
  unfolding mark_all_def
  by (intro grows_for_each grows_if grows_Some grows_mark)

lemma grows_cut_step: "grows (cut_step c is_ring cut_vs isr) isr"
  by (cases "componentIdEquivalence c cut_vs")
     (simp_all add: cut_step_def grows_def mask_le_updateIsReductable)

lemma grows_calcCutReduction_steps:
  "grows (for_each (\<lambda>v0 isr. do {
          isr \<leftarrow> cut_step c is_ring [v0] isr;
          for_each (\<lambda>v1 isr. do {
              isr \<leftarrow> cut_step c is_ring [v0, v1] isr;
              for_each (\<lambda>v2 isr. cut_step c is_ring [v0, v1, v2] isr) [0..<v1] isr
            }) [0..<v0] isr
        }) vs isr) isr"
  by (intro grows_for_each grows_then grows_cut_step)

lemma grows_calcReductableVertices1: "grows (calcReductableVertices1 c cutSize isr) isr"
  unfolding calcReductableVertices1_def Let_def
  by (intro grows_for_each grows_if grows_Some grows_bind grows_mark)

lemma grows_calcReductableVertices2: "grows (calcReductableVertices2 c cutSize isr) isr"
  unfolding calcReductableVertices2_def Let_def
  by (intro grows_for_each4 grows_for_each grows_if grows_Some grows_bind grows_mark_all)

lemma grows_calcReductableVertices3: "grows (calcReductableVertices3 c cutSize isr) isr"
  unfolding calcReductableVertices3_def Let_def
  by (intro grows_for_each4 grows_for_each grows_if grows_Some grows_bind grows_mark_all)
     (simp_all add: grows_def)

lemma grows_calcReductableVertices4: "grows (calcReductableVertices4 c cutSize isr) isr"
  unfolding calcReductableVertices4_def Let_def
  by (intro grows_for_each4 grows_for_each grows_if grows_Some grows_bind grows_mark_all)

section \<open>\<^verbatim>\<open>setContract\<close> with the empty contraction list\<close>

text \<open>
  Without contraction every path that \<^verbatim>\<open>shortestPaths\<close> returns between two different
  vertices has as many edges as the raw distance of \<^verbatim>\<open>WF\<close> says: a walk along the
  adjacency is a walk in the matrix of \<^verbatim>\<open>WF\<close>, and a walk of finite weight in the matrix
  gives a walk along the adjacency that is not longer.
\<close>

lemma adj_walk_matrix:
  assumes W: "\<forall>i<n. \<forall>j<n. W ! i ! j = edge_weight adj i j"
  shows "walk_ok adj (i # vs @ [j]) \<Longrightarrow> i < n \<Longrightarrow> j < n \<Longrightarrow> set vs \<subseteq> {..<n} \<Longrightarrow>
         walk_weight W i vs j = int (length vs) + 1"
proof (induction vs arbitrary: i)
  case Nil
  then show ?case using W by (simp add: edge_weight_def)
next
  case (Cons v vs)
  have v: "v \<in> set (adj ! i)" "v < n" "walk_ok adj (v # vs @ [j])" using Cons.prems by auto
  have "W ! i ! v = 1" using W Cons.prems(2) v by (simp add: edge_weight_def)
  moreover have "walk_weight W v vs j = int (length vs) + 1"
    by (rule Cons.IH[OF v(3,2) Cons.prems(3)]) (use Cons.prems(4) in simp)
  ultimately show ?case by simp
qed

lemma matrix_walk_adj:
  assumes W: "\<forall>i<n. \<forall>j<n. W ! i ! j = edge_weight adj i j"
  shows "walk_weight W i vs j < INF_const \<Longrightarrow> i < n \<Longrightarrow> j < n \<Longrightarrow> set vs \<subseteq> {..<n} \<Longrightarrow>
         \<exists>q. st_walk adj i j q \<and> int (length q) - 1 \<le> walk_weight W i vs j"
proof (induction vs arbitrary: i)
  case Nil
  have w: "edge_weight adj i j < INF_const" using Nil W by simp
  show ?case
  proof (cases "j \<in> set (adj ! i)")
    case True
    then have "st_walk adj i j [i, j]" by (simp add: st_walk_def)
    moreover have "walk_weight W i [] j = 1" using W Nil True by (simp add: edge_weight_def)
    ultimately show ?thesis by (intro exI[of _ "[i, j]"]) simp
  next
    case False
    then have ij: "i = j" using w by (simp add: edge_weight_def split: if_splits)
    then have "st_walk adj i j [i]" by (simp add: st_walk_def)
    moreover have "walk_weight W i [] j = 0" using W Nil False ij by (simp add: edge_weight_def)
    ultimately show ?thesis by (intro exI[of _ "[i]"]) simp
  qed
next
  case (Cons v vs)
  have nn: "nonneg_matrix n W" using W by (simp add: nonneg_matrix_def edge_weight_def INF_const_def)
  have v: "v < n" "set vs \<subseteq> {..<n}" using Cons.prems(4) by auto
  have r0: "0 \<le> walk_weight W v vs j" by (rule walk_weight_nonneg[OF nn v(1) Cons.prems(3) v(2)])
  have e0: "0 \<le> W ! i ! v" using nn Cons.prems(2) v(1) by (simp add: nonneg_matrix_def)
  have sum: "walk_weight W i (v # vs) j = W ! i ! v + walk_weight W v vs j" by simp
  have rl: "walk_weight W v vs j < INF_const" and el: "W ! i ! v < INF_const"
    using Cons.prems(1) r0 e0 sum by linarith+
  obtain q where q: "st_walk adj v j q" "int (length q) - 1 \<le> walk_weight W v vs j"
    using Cons.IH[OF rl v(1) Cons.prems(3) v(2)] by blast
  have ew: "W ! i ! v = edge_weight adj i v" using W Cons.prems(2) v(1) by simp
  show ?case
  proof (cases "v \<in> set (adj ! i)")
    case True
    have "st_walk adj i j (i # q)"
      using q(1) True by (cases q) (auto simp: st_walk_def)
    moreover have "W ! i ! v = 1" using ew True by (simp add: edge_weight_def)
    ultimately show ?thesis using q(2) sum by (intro exI[of _ "i # q"]) simp
  next
    case False
    then have iv: "i = v" using el ew by (simp add: edge_weight_def split: if_splits)
    then have "W ! i ! v = 0" using ew False by (simp add: edge_weight_def)
    then show ?thesis using q iv sum by (intro exI[of _ q]) simp
  qed
qed

lemma st_walk_split:
  assumes "st_walk adj s t p" "s \<noteq> t"
  shows "\<exists>vs. p = s # vs @ [t]"
proof -
  have p: "p \<noteq> []" "hd p = s" "last p = t" using assms(1) by (simp_all add: st_walk_def)
  then obtain p' where p': "p = s # p'" by (cases p) auto
  then have "p' \<noteq> []" using p assms(2) by auto
  then obtain vs x where "p' = vs @ [x]" by (cases p' rule: rev_cases) auto
  then show ?thesis using p' p(3) by auto
qed

lemma shortestPaths_raw_length:
  assumes ok: "graph_ok (conf_n c) (conf_r c) (VtoV c)" and ct: "contract c = []"
    and st: "s < conf_n c" "t < conf_n c" "s \<noteq> t"
    and sp: "shortestPaths c s t flag = Some ps" and p: "p \<in> set ps"
  shows "int (length p) - 1 = WF_loop (conf_n c) (WF_edges c) ! s ! t"
proof -
  let ?n = "conf_n c" and ?adj = "VtoV c" and ?W = "WF_edges c"
  let ?D = "WF_loop ?n ?W"
  have cs: "contract_set c flag = {}" using ct by (simp add: contract_set_def)
  have rng: "\<forall>v<?n. \<forall>u\<in>set (?adj ! v). u < ?n" using ok by (auto dest: graph_ok_nbr)
  have W: "\<forall>i<?n. \<forall>j<?n. ?W ! i ! j = edge_weight ?adj i j" using WF_edges_nth(2) by blast
  have nn: "nonneg_matrix ?n ?W"
    using W by (simp add: nonneg_matrix_def edge_weight_def INF_const_def)
  note fw = WF_loop_least[OF WF_edges_nth(1) nn]
  obtain ds where ds: "sp_dist_loop ?adj {} ((replicate ?n INF_const)[s := 0]) [s] = Some ds"
    "length ds = ?n" "dist_final ?adj {} s ds"
    using sp_dist_loop_inv[OF dist_inv_init[OF rng st(1), of "{}"]] by (auto simp: dist_final_def)
  obtain paths where paths:
    "sp_paths_loop ?adj {} ds ((replicate ?n [])[s := [[s]]]) [s] = Some paths"
    "length paths = ?n" "paths_inv ?adj {} ds s paths []"
    using sp_paths_loop_inv[OF paths_inv_init[OF rng st(1), of "{}" ds]] by auto
  have "ps = unique_paths (paths ! t)"
    using sp ds(1) paths(1) st cs by (simp add: shortestPaths_def Let_def)
  then have "p \<in> set (paths ! t)" using p by (simp add: set_unique_paths)
  then have g: "good_path ?adj {} ds s t p" using paths(2,3) st(2) by (simp add: paths_inv_def)
  then have pp: "p \<noteq> []" "hd p = s" "last p = t" "tight_walk ?adj {} ds p"
    by (simp_all add: good_path_def)
  have sw: "st_walk ?adj s t p" using pp tight_walk_ok[OF pp(4)] by (simp add: st_walk_def)
  have lab: "ds ! t = int (length p) - 1"
    using tight_walk_unit[OF pp(4,1)] pp(2,3) dist_final_zero[OF ds(3)] by simp
  have labI: "ds ! t \<le> INF_const"
    using ds(2,3) st(2) by (simp add: dist_final_def dist_inv_def realizable_def)
  obtain vs where vs: "p = s # vs @ [t]" using st_walk_split[OF sw st(3)] by blast
  have inr: "\<forall>x\<in>set p. x < ?n"
    by (rule walk_in_range[OF rng]) (use sw st(1) in \<open>auto simp: st_walk_def\<close>)
  then have vsr: "set vs \<subseteq> {..<?n}" using vs by auto
  have "walk_weight ?W s vs t = int (length vs) + 1"
    by (rule adj_walk_matrix[OF W _ st(1,2) vsr]) (use sw vs in \<open>simp add: st_walk_def\<close>)
  moreover have "?D ! s ! t \<le> walk_weight ?W s vs t"
    using fw st(1,2) vsr by (simp add: below_def)
  ultimately have up: "?D ! s ! t \<le> int (length p) - 1" using vs by simp
  show ?thesis
  proof (cases "?D ! s ! t < INF_const")
    case False
    then show ?thesis using up lab labI by simp
  next
    case True
    have "realised ?n ?W ?D" using fw by simp
    then have "\<exists>ws. set ws \<subseteq> {..<?n} \<and> ?D ! s ! t = walk_weight ?W s ws t"
      using st(1,2) unfolding realised_def by blast
    then obtain ws where ws: "set ws \<subseteq> {..<?n}" "?D ! s ! t = walk_weight ?W s ws t"
      by blast
    obtain q where q: "st_walk ?adj s t q" "int (length q) - 1 \<le> walk_weight ?W s ws t"
      using matrix_walk_adj[OF W _ st(1,2) ws(1)] True ws(2) by auto
    have qn: "q \<noteq> []" using q(1) by (simp add: st_walk_def)
    have wq: "walk_w {} q = int (length q) - 1" by (rule walk_w_unit[OF qn])
    from dist_final_lower[OF ds(3) q(1)] have "ds ! t \<le> walk_w {} q" by simp
    then show ?thesis using up lab wq q(2) ws(2) by simp
  qed
qed

text \<open>
  \<open>keeps m isr\<close>: if the computation \<open>m\<close> returns a mask, it is \<open>isr\<close>.  On a configuration
  with no contraction and with the raw distances of \<^verbatim>\<open>WF\<close>, the four passes of
  \<^verbatim>\<open>calcReductableVertices\<close> skip every path, since its length is the raw distance.
\<close>

definition keeps :: "bool list option \<Rightarrow> bool list \<Rightarrow> bool" where
  "keeps m isr = (case m of None \<Rightarrow> True | Some isr' \<Rightarrow> isr' = isr)"

lemma keeps_Some: "keeps (Some isr) isr"
  by (simp add: keeps_def)

lemma keeps_if: "(b \<Longrightarrow> keeps x s) \<Longrightarrow> (\<not> b \<Longrightarrow> keeps y s) \<Longrightarrow> keeps (if b then x else y) s"
  by simp

lemma keeps_bind: "(\<And>x. m = Some x \<Longrightarrow> keeps (f x) s) \<Longrightarrow> keeps (Option.bind m f) s"
  by (cases m) (simp_all add: keeps_def)

lemma keeps_for_each:
  assumes "\<And>x a. x \<in> set xs \<Longrightarrow> keeps (f x a) a"
  shows "keeps (for_each f xs s) s"
  using assms
proof (induction xs arbitrary: s)
  case Nil
  then show ?case by (simp add: keeps_Some)
next
  case (Cons x xs)
  show ?case
  proof (cases "f x s")
    case None
    then show ?thesis by (simp add: keeps_def)
  next
    case (Some a)
    have "a = s" using Cons.prems[of x s] Some by (simp add: keeps_def)
    moreover have "keeps (for_each f xs s) s" by (rule Cons.IH) (simp add: Cons.prems)
    ultimately show ?thesis using Some by simp
  qed
qed

lemma keeps_for_each4:
  "(\<And>a b c d s. (a, b, c, d) \<in> set xs \<Longrightarrow> keeps (f a b c d s) s) \<Longrightarrow>
   keeps (for_each (\<lambda>(a, b, c, d). f a b c d) xs s) s"
  by (rule keeps_for_each) auto

lemma keeps_mark_all:
  assumes "\<And>P1. P1 \<in> set l1 \<Longrightarrow> int (length P1) - 1 = d1"
    and "\<And>P2. P2 \<in> set l2 \<Longrightarrow> int (length P2) - 1 = d2"
  shows "keeps (mark_all c component d1 d2 l1 l2 isr) isr"
  unfolding mark_all_def
  by (intro keeps_for_each keeps_if keeps_Some) (use assms in auto)

definition raw_conf :: "Configuration \<Rightarrow> bool" where
  "raw_conf c = (graph_ok (conf_n c) (conf_r c) (VtoV c) \<and> contract c = [] \<and>
                 dist c = WF_loop (conf_n c) (WF_edges c))"

lemma raw_conf_length:
  assumes "raw_conf c" "s < conf_r c" "t < conf_r c" "s \<noteq> t"
    and "shortestPaths c s t flag = Some ps" "P \<in> set ps"
  shows "int (length P) - 1 = dist c ! s ! t"
proof -
  have g: "graph_ok (conf_n c) (conf_r c) (VtoV c)" and ct: "contract c = []"
    and d: "dist c = WF_loop (conf_n c) (WF_edges c)"
    using assms(1) by (simp_all add: raw_conf_def)
  have rn: "conf_r c \<le> conf_n c" using g by (simp add: graph_ok_def)
  have st: "s < conf_n c" "t < conf_n c" using assms(2,3) rn by simp_all
  show ?thesis using shortestPaths_raw_length[OF g ct st assms(4,5,6)] d by simp
qed

lemma keeps_calcReductableVertices1:
  assumes raw: "raw_conf c"
  shows "keeps (calcReductableVertices1 c cutSize isr) isr"
proof -
  have len: "int (length P) - 1 = dist c ! p ! q"
    if "p \<in> set [0..<conf_r c]" "q \<in> set [0..<conf_r c]" "p \<noteq> q"
      "shortestPaths c p q True = Some ps" "P \<in> set ps" for p q ps P
    using raw_conf_length[OF raw _ _ that(3,4,5)] that(1,2) by simp
  show ?thesis
    unfolding calcReductableVertices1_def Let_def
    apply (intro keeps_for_each keeps_if keeps_Some keeps_bind)
    using len apply blast
    done
qed

lemma keeps_calcReductableVertices2:
  assumes raw: "raw_conf c"
  shows "keeps (calcReductableVertices2 c cutSize isr) isr"
  unfolding calcReductableVertices2_def Let_def
  apply (rule keeps_for_each4)
  subgoal premises prems for p1 q1' p2' q2' s
  proof -
    note q = quad_facts[OF prems]
    show ?thesis
      apply (intro keeps_if keeps_Some keeps_bind keeps_for_each keeps_mark_all)
       apply (erule (1) raw_conf_length[OF raw q(2,3,6)])
      apply (erule (1) raw_conf_length[OF raw q(4,1,8)])
      done
  qed
  done

lemma keeps_calcReductableVertices3:
  assumes raw: "raw_conf c"
  shows "keeps (calcReductableVertices3 c cutSize isr) isr"
  unfolding calcReductableVertices3_def Let_def
  apply (rule keeps_for_each4)
  subgoal premises prems for p1 q1' p2' q2' s
  proof -
    note q = quad_facts[OF prems]
    show ?thesis
      apply (intro keeps_if keeps_Some keeps_bind keeps_for_each keeps_mark_all)
           apply (simp_all add: keeps_def)
       apply (erule (1) raw_conf_length[OF raw q(2,3,6)])
      apply (erule (1) raw_conf_length[OF raw q(4,1,8)])
      done
  qed
  done

lemma keeps_calcReductableVertices4:
  assumes raw: "raw_conf c"
  shows "keeps (calcReductableVertices4 c cutSize isr) isr"
  unfolding calcReductableVertices4_def Let_def
  apply (rule keeps_for_each4)
  subgoal premises prems for p1 q1' p2' q2' s
  proof -
    note q = quad_facts[OF prems]
    show ?thesis
      apply (intro keeps_if keeps_Some keeps_bind keeps_for_each keeps_mark_all)
       apply (erule (1) raw_conf_length[OF raw q(2,3,6)])
      apply (erule (1) raw_conf_length[OF raw q(4,1,8)])
      done
  qed
  done

lemma calcReductableVertices_raw:
  assumes "raw_conf c" "calcReductableVertices c cutSize = Some isr"
  shows "isr = replicate (conf_n c) False"
proof -
  obtain i1 i2 i3 where
    1: "calcReductableVertices1 c cutSize (replicate (conf_n c) False) = Some i1"
    and 2: "calcReductableVertices2 c cutSize i1 = Some i2"
    and 3: "calcReductableVertices3 c cutSize i2 = Some i3"
    and 4: "calcReductableVertices4 c cutSize i3 = Some isr"
    using assms(2) by (auto simp: calcReductableVertices_def split: if_splits Option.bind_splits)
  have "i1 = replicate (conf_n c) False"
    using keeps_calcReductableVertices1[OF assms(1), of cutSize "replicate (conf_n c) False"] 1
    by (simp add: keeps_def)
  moreover have "i2 = i1" using keeps_calcReductableVertices2[OF assms(1), of cutSize i1] 2
    by (simp add: keeps_def)
  moreover have "i3 = i2" using keeps_calcReductableVertices3[OF assms(1), of cutSize i2] 3
    by (simp add: keeps_def)
  moreover have "isr = i3" using keeps_calcReductableVertices4[OF assms(1), of cutSize i3] 4
    by (simp add: keeps_def)
  ultimately show ?thesis by simp
qed

text \<open>
  The inside reduction and the representatives read the vertex count, the ring size, the
  adjacency and the contracted distances only.  With raw distances of a graph without
  loops a vertex is at distance 0 from itself alone.
\<close>

lemma calcCutReduction_cong:
  assumes "conf_n c = conf_n c'" "conf_r c = conf_r c'" "VtoV c = VtoV c'"
    "dist_contracted c = dist_contracted c'"
  shows "calcCutReduction c = calcCutReduction c'"
proof -
  have e: "equivalent c = equivalent c'" using assms(4) by (simp add: equivalent_def fun_eq_iff)
  have cs: "cutset_of c = cutset_of c'" using assms(1) e by (simp add: cutset_of_def fun_eq_iff)
  have ci: "componentIdEquivalence c = componentIdEquivalence c'"
    using assms(1-3) cs
    by (simp add: componentIdEquivalence_def fun_eq_iff Let_def cong: if_cong Option.bind_cong)
  have up: "updateIsReductable c = updateIsReductable c'"
    using assms(1) by (simp add: updateIsReductable_def fun_eq_iff Let_def cong: if_cong)
  have ri: "calc_is_ring c = calc_is_ring c'"
    using assms(1,2) e by (simp add: calc_is_ring_def)
  have st: "cut_step c = cut_step c'" using ci up by (simp add: cut_step_def fun_eq_iff)
  show ?thesis using assms(1) ri st
    by (simp add: calcCutReduction_def Let_def cong: if_cong Option.bind_cong)
qed

lemma calcRepresentative_cong:
  assumes "conf_n c = conf_n c'" "dist_contracted c = dist_contracted c'"
  shows "calcRepresentative c = calcRepresentative c'"
  using assms by (simp add: calcRepresentative_def equivalent_def)

lemma WF_edges_cong: "conf_n c = conf_n c' \<Longrightarrow> VtoV c = VtoV c' \<Longrightarrow> WF_edges c = WF_edges c'"
  by (simp add: WF_edges_def)

lemma find_unique:
  assumes "v < n" "P v" "\<forall>u<n. P u \<longrightarrow> u = v"
  shows "find P [0..<n] = Some v"
  unfolding find_Some_iff
proof (intro exI[of _ v] conjI)
  show "v < length [0..<n]" using assms(1) by simp
  show "P ([0..<n] ! v)" using assms(1,2) by simp
  show "v = [0..<n] ! v" using assms(1) by simp
  show "\<forall>j<v. \<not> P ([0..<n] ! j)"
  proof (intro allI impI)
    fix j assume j: "j < v"
    then have "j < n" using assms(1) by simp
    then have "P j \<longrightarrow> j = v" using assms(3) by blast
    then show "\<not> P ([0..<n] ! j)" using j \<open>j < n\<close> by auto
  qed
qed

lemma walk_weight_pos:
  assumes W: "\<forall>i<n. \<forall>j<n. W ! i ! j = edge_weight adj i j"
  shows "u \<noteq> v \<Longrightarrow> u < n \<Longrightarrow> v < n \<Longrightarrow> set ws \<subseteq> {..<n} \<Longrightarrow> 1 \<le> walk_weight W u ws v"
proof (induction ws arbitrary: u)
  case Nil
  then show ?case using W by (simp add: edge_weight_def INF_const_def)
next
  case (Cons w ws)
  have nn: "nonneg_matrix n W" using W by (simp add: nonneg_matrix_def edge_weight_def INF_const_def)
  have w: "w < n" "set ws \<subseteq> {..<n}" using Cons.prems(4) by auto
  have e: "W ! u ! w = edge_weight adj u w" using W Cons.prems(2) w(1) by simp
  show ?case
  proof (cases "w = u")
    case True
    have "0 \<le> W ! u ! w" using e by (simp add: edge_weight_def INF_const_def)
    moreover have "1 \<le> walk_weight W w ws v"
      by (rule Cons.IH[OF _ w(1) Cons.prems(3) w(2)]) (use True Cons.prems(1) in simp)
    ultimately show ?thesis by simp
  next
    case False
    then have "1 \<le> W ! u ! w" using e by (simp add: edge_weight_def INF_const_def)
    moreover have "0 \<le> walk_weight W w ws v"
      by (rule walk_weight_nonneg[OF nn w(1) Cons.prems(3) w(2)])
    ultimately show ?thesis by simp
  qed
qed

lemma raw_representative:
  assumes n: "conf_n c = n" and d: "dist_contracted c = WF_loop n (WF_edges c)"
    and loopfree: "list_all (\<lambda>v. v \<notin> set (VtoV c ! v)) [0..<n]"
  shows "calcRepresentative c = map int [0..<n]"
proof -
  let ?W = "WF_edges c" and ?D = "WF_loop n (WF_edges c)"
  have W: "\<forall>i<n. \<forall>j<n. ?W ! i ! j = edge_weight (VtoV c) i j" using WF_edges_nth(2)[of _ c] n by blast
  have sq: "square n ?W" using WF_edges_nth(1)[of c] n by simp
  have nn: "nonneg_matrix n ?W"
    using W by (simp add: nonneg_matrix_def edge_weight_def INF_const_def)
  have diag: "?D ! v ! v = 0" if "v < n" for v
  proof -
    have "?W ! v ! v = 0" using W that loopfree by (simp add: edge_weight_def list_all_iff)
    then show ?thesis using WF_loop_metric(2)[OF sq nn] that by simp
  qed
  have off: "?D ! u ! v \<noteq> 0" if "u < n" "v < n" "u \<noteq> v" for u v
  proof -
    have "realised n ?W ?D" using WF_loop_least[OF sq nn] by simp
    then have "\<exists>ws. set ws \<subseteq> {..<n} \<and> ?D ! u ! v = walk_weight ?W u ws v"
      using that(1,2) unfolding realised_def by blast
    then obtain ws where ws: "set ws \<subseteq> {..<n}" "?D ! u ! v = walk_weight ?W u ws v" by blast
    from walk_weight_pos[OF W that(3,1,2) ws(1)] ws(2) show ?thesis by simp
  qed
  have "find (\<lambda>u. equivalent c v u) [0..<n] = Some v" if v: "v < n" for v
  proof (rule find_unique[OF v])
    show "equivalent c v v" using diag[OF v] d by (simp add: equivalent_def)
    show "\<forall>u<n. equivalent c v u \<longrightarrow> u = v"
      using off[OF _ v] d by (auto simp: equivalent_def)
  qed
  then show ?thesis by (simp add: calcRepresentative_def n cong: map_cong)
qed

lemma setContract_unfold:
  assumes "setContract c ct = Some c'"
  shows "\<exists>D i o6 o7.
           WF (c\<lparr>contract := ct\<rparr>) True = Some D \<and>
           calcCutReduction (c\<lparr>contract := ct, dist_contracted := D\<rparr>) = Some i \<and>
           calcReductableVertices
             (c\<lparr>contract := ct, dist_contracted := D, is_reductable_inside := i\<rparr>) 6 = Some o6 \<and>
           calcReductableVertices
             (c\<lparr>contract := ct, dist_contracted := D, is_reductable_inside := i,
                is_reductable_outside6 := o6\<rparr>) 7 = Some o7 \<and>
           c' = c\<lparr>contract := ct, dist_contracted := D, is_reductable_inside := i,
                  is_reductable_outside6 := o6, is_reductable_outside7 := o7,
                  representative :=
                    calcRepresentative
                      (c\<lparr>contract := ct, dist_contracted := D, is_reductable_inside := i,
                         is_reductable_outside6 := o6, is_reductable_outside7 := o7\<rparr>)\<rparr>"
  using assms by (auto simp: setContract_def Let_def split: Option.bind_splits)

definition same_frame :: "Configuration \<Rightarrow> Configuration \<Rightarrow> bool" where
  "same_frame c c' =
     (conf_n c = conf_n c' \<and> conf_r c = conf_r c' \<and> VtoV c = VtoV c' \<and> dist c = dist c' \<and>
      all_paths c = all_paths c' \<and> length6 c = length6 c' \<and> length7 c = length7 c' \<and>
      length_oneedge6 c = length_oneedge6 c' \<and> length_oneedge7 c = length_oneedge7 c' \<and>
      Configuration.more c = Configuration.more c')"

lemma same_frame_setContract: "setContract c ct = Some c' \<Longrightarrow> same_frame c c'"
  by (auto simp: setContract_def Let_def same_frame_def split: Option.bind_splits)

lemma same_frame_setContracts:
  "setContracts c cts = Some c' \<Longrightarrow> same_frame c c'"
proof (induction cts arbitrary: c)
  case Nil
  then show ?case by (simp add: same_frame_def)
next
  case (Cons ct cts)
  then obtain c1 where c1: "setContract c ct = Some c1" "setContracts c1 cts = Some c'"
    by (auto split: Option.bind_splits)
  from same_frame_setContract[OF c1(1)] Cons.IH[OF c1(2)] show ?case
    by (simp add: same_frame_def)
qed

text \<open>What \<^verbatim>\<open>setContract\<close> with the empty list computes, from the frame alone.\<close>

lemma setContract_empty:
  assumes ok: "conf_ok c" and d: "dist c = WF_loop (conf_n c) (WF_edges c)"
    and sc: "setContract c [] = Some c'"
  shows "c' = c\<lparr>contract := [], dist_contracted := dist c,
                 is_reductable_inside :=
                   the (calcCutReduction (c\<lparr>contract := [], dist_contracted := dist c\<rparr>)),
                 is_reductable_outside6 := replicate (conf_n c) False,
                 is_reductable_outside7 := replicate (conf_n c) False,
                 representative :=
                   calcRepresentative (c\<lparr>contract := [], dist_contracted := dist c\<rparr>)\<rparr>"
    and "calcCutReduction (c\<lparr>dist_contracted := dist c\<rparr>) = Some (is_reductable_inside c')"
proof -
  from setContract_unfold[OF sc] obtain D i o6 o7 where
    D: "WF (c\<lparr>contract := []\<rparr>) True = Some D"
    and i: "calcCutReduction (c\<lparr>contract := [], dist_contracted := D\<rparr>) = Some i"
    and o6: "calcReductableVertices
             (c\<lparr>contract := [], dist_contracted := D, is_reductable_inside := i\<rparr>) 6 = Some o6"
    and o7: "calcReductableVertices
             (c\<lparr>contract := [], dist_contracted := D, is_reductable_inside := i,
                is_reductable_outside6 := o6\<rparr>) 7 = Some o7"
    and c': "c' = c\<lparr>contract := [], dist_contracted := D, is_reductable_inside := i,
                  is_reductable_outside6 := o6, is_reductable_outside7 := o7,
                  representative :=
                    calcRepresentative
                      (c\<lparr>contract := [], dist_contracted := D, is_reductable_inside := i,
                         is_reductable_outside6 := o6, is_reductable_outside7 := o7\<rparr>)\<rparr>"
    by blast
  have g: "graph_ok (conf_n c) (conf_r c) (VtoV c)" using ok by (simp add: conf_ok_def)
  have "WF_edges (c\<lparr>contract := []\<rparr>) = WF_edges c" by (rule WF_edges_cong) simp_all
  then have DD: "D = dist c" using D d by (simp add: WF_def)
  have r6: "raw_conf (c\<lparr>contract := [], dist_contracted := D, is_reductable_inside := i\<rparr>)"
    using g d by (simp add: raw_conf_def WF_edges_def)
  have r7: "raw_conf (c\<lparr>contract := [], dist_contracted := D, is_reductable_inside := i,
                is_reductable_outside6 := o6\<rparr>)"
    using g d by (simp add: raw_conf_def WF_edges_def)
  have e6: "o6 = replicate (conf_n c) False" using calcReductableVertices_raw[OF r6 o6] by simp
  have e7: "o7 = replicate (conf_n c) False" using calcReductableVertices_raw[OF r7 o7] by simp
  have rep: "calcRepresentative
                      (c\<lparr>contract := [], dist_contracted := D, is_reductable_inside := i,
                         is_reductable_outside6 := o6, is_reductable_outside7 := o7\<rparr>) =
             calcRepresentative (c\<lparr>contract := [], dist_contracted := dist c\<rparr>)"
    by (rule calcRepresentative_cong) (simp_all add: DD)
  show "c' = c\<lparr>contract := [], dist_contracted := dist c,
                 is_reductable_inside :=
                   the (calcCutReduction (c\<lparr>contract := [], dist_contracted := dist c\<rparr>)),
                 is_reductable_outside6 := replicate (conf_n c) False,
                 is_reductable_outside7 := replicate (conf_n c) False,
                 representative :=
                   calcRepresentative (c\<lparr>contract := [], dist_contracted := dist c\<rparr>)\<rparr>"
    using c' i rep e6 e7 DD by simp
  have "calcCutReduction (c\<lparr>dist_contracted := dist c\<rparr>) =
        calcCutReduction (c\<lparr>contract := [], dist_contracted := D\<rparr>)"
    by (rule calcCutReduction_cong) (simp_all add: DD)
  then show "calcCutReduction (c\<lparr>dist_contracted := dist c\<rparr>) = Some (is_reductable_inside c')"
    using i c' by simp
qed

lemma built_frame:
  assumes "built n r adj cts = Some c"
  shows "\<exists>c0. new_Configuration n r adj = Some c0 \<and> same_frame c0 c \<and>
              dist c = WF_loop (conf_n c) (WF_edges c)"
proof -
  obtain c0 where c0: "new_Configuration n r adj = Some c0" "setContracts c0 cts = Some c"
    using assms by (auto simp: built_def split: Option.bind_splits)
  have sf: "same_frame c0 c" by (rule same_frame_setContracts[OF c0(2)])
  note f = new_Configuration_fields[OF c0(1)]
  have "WF_edges c = WF_edges c0" by (rule WF_edges_cong) (use sf in \<open>simp_all add: same_frame_def\<close>)
  moreover have "dist c = dist c0" "conf_n c = conf_n c0" using sf by (simp_all add: same_frame_def)
  ultimately have "dist c = WF_loop (conf_n c) (WF_edges c)"
    using f(1,6) by simp
  then show ?thesis using c0(1) sf by blast
qed

section \<open>Statements of the specification, as written\<close>

text \<open>
  The table of forbidden cuts as the specification words it: a cut of size 2 to 4 is
  forbidden iff the component is non-empty, and so on; every other size is not forbidden.
\<close>

definition isForbiddenCut_spec :: "int \<Rightarrow> int \<Rightarrow> bool" where
  "isForbiddenCut_spec k csize =
     ((2 \<le> k \<and> k \<le> 4 \<and> csize > 0) \<or> (k = 5 \<and> csize > 1) \<or>
      (k = 6 \<and> csize > 3) \<or> (k = 7 \<and> csize > 4))"

text \<open>
  The edges of a path, the number of them that are not ring edges (a ring edge has both
  ends among the ring vertices \<open>0..r-1\<close>), and the condition of the specification for
  \<^verbatim>\<open>canBeAlmostMinimal\<close> with the number of tolerated deviations as a parameter.
\<close>

definition path_edges :: "nat list \<Rightarrow> (nat \<times> nat) list" where
  "path_edges R = zip R (tl R)"

definition ring_edge :: "Configuration \<Rightarrow> nat \<times> nat \<Rightarrow> bool" where
  "ring_edge c e = (fst e < conf_r c \<and> snd e < conf_r c)"

definition deviations :: "Configuration \<Rightarrow> nat list \<Rightarrow> int" where
  "deviations c R = int (length (filter (\<lambda>e. \<not> ring_edge c e) (path_edges R)))"

definition path_len :: "nat list \<Rightarrow> int" where
  "path_len R = int (length R) - 1"

definition almost_minimal_spec :: "int \<Rightarrow> Configuration \<Rightarrow> nat list \<Rightarrow> int \<Rightarrow> int \<Rightarrow> bool" where
  "almost_minimal_spec tolerated c R k cutSize =
     ((list_all (ring_edge c) (path_edges R) \<and> path_len R + k \<ge> 6) \<or>
      (deviations c R \<le> tolerated \<and> path_len R + k = 7 \<and> cutSize = 6))"




text \<open>
  Every pair of a contraction list names an edge of the adjacency.
\<close>

definition all_pairs_edges :: "nat list list \<Rightarrow> (nat \<times> nat) list \<Rightarrow> bool" where
  "all_pairs_edges adj ct = list_all (\<lambda>e. snd e \<in> set (adj ! fst e)) ct"

text \<open>
  The three masks after a call of \<^verbatim>\<open>setContract\<close>.
\<close>

definition masks_after ::
  "Configuration \<Rightarrow> (nat \<times> nat) list \<Rightarrow> (bool list \<times> bool list \<times> bool list) option" where
  "masks_after c ct =
     map_option (\<lambda>c'. (is_reductable_inside c', is_reductable_outside6 c', is_reductable_outside7 c'))
                (setContract c ct)"

text \<open>
  The contracted distances of the configuration built from an adjacency, after the
  given calls of \<^verbatim>\<open>setContract\<close>.
\<close>

definition dist_contracted_after ::
  "nat \<Rightarrow> nat \<Rightarrow> nat list list \<Rightarrow> (nat \<times> nat) list list \<Rightarrow> int list list option" where
  "dist_contracted_after n r adj cts = map_option dist_contracted (built n r adj cts)"

text \<open>
  The result of \<^verbatim>\<open>shortestPaths\<close> on the configuration built from an adjacency, after
  the given calls of \<^verbatim>\<open>setContract\<close>.
\<close>

definition shortestPaths_after ::
  "nat \<Rightarrow> nat \<Rightarrow> nat list list \<Rightarrow> (nat \<times> nat) list list \<Rightarrow> nat \<Rightarrow> nat \<Rightarrow> bool \<Rightarrow> nat list list option" where
  "shortestPaths_after n r adj cts s t flag =
     Option.bind (built n r adj cts) (\<lambda>c. shortestPaths c s t flag)"

text \<open>
  The derived state of the configuration built from an adjacency, after the given calls
  of \<^verbatim>\<open>setContract\<close>: contracted distances, representatives and the three masks.
\<close>

definition state_after ::
  "nat \<Rightarrow> nat \<Rightarrow> nat list list \<Rightarrow> (nat \<times> nat) list list
     \<Rightarrow> (int list list \<times> int list \<times> bool list \<times> bool list \<times> bool list) option" where
  "state_after n r adj cts =
     map_option (\<lambda>c. (dist_contracted c, representative c, is_reductable_inside c,
                       is_reductable_outside6 c, is_reductable_outside7 c))
                (built n r adj cts)"

section \<open>Example configurations\<close>

text \<open>
  A triangle ring \<open>0, 1, 2\<close> around the interior vertices \<open>3\<close> (adjacent to the whole
  ring) and \<open>4\<close> (inside the triangle \<open>1, 2, 3\<close>), as the input file
  \<^verbatim>\<open>5 3 / 4 4 1 2 3 5 / 5 3 2 3 4\<close> describes it.
\<close>

definition triangle5_adj :: "nat list list" where
  "triangle5_adj = [[1, 2, 3], [0, 2, 3, 4], [0, 1, 3, 4], [0, 1, 2, 4], [1, 2, 3]]"

definition triangle5 :: Configuration where
  "triangle5 =
     \<lparr>contract = [],
      is_reductable_inside = [False, False, False, False, False],
      is_reductable_outside6 = [False, False, False, False, False],
      is_reductable_outside7 = [False, False, False, False, False],
      dist_contracted =
        [[0, 1, 1, 1, 2], [1, 0, 1, 1, 1], [1, 1, 0, 1, 1], [1, 1, 1, 0, 1], [2, 1, 1, 1, 0]],
      representative = [0, 1, 2, 3, 4],
      length6 = [[0, 1, 2], [2, 0, 1], [1, 2, 0]],
      length_oneedge6 = [[0, 1, 4], [4, 0, 1], [1, 4, 0]],
      length7 = [[0, 1, 2], [2, 0, 1], [1, 2, 0]],
      length_oneedge7 = [[0, 1, 4], [4, 0, 1], [1, 4, 0]],
      all_paths =
        [[[],
          [[0, 1], [0, 2, 1], [0, 2, 3, 1], [0, 2, 3, 4, 1], [0, 2, 4, 1],
           [0, 2, 4, 3, 1], [0, 3, 1], [0, 3, 2, 1], [0, 3, 2, 4, 1],
           [0, 3, 4, 1], [0, 3, 4, 2, 1]],
          [[0, 1, 2], [0, 1, 3, 2], [0, 1, 3, 4, 2], [0, 1, 4, 2],
           [0, 1, 4, 3, 2], [0, 2], [0, 3, 1, 2], [0, 3, 1, 4, 2], [0, 3, 2],
           [0, 3, 4, 1, 2], [0, 3, 4, 2]]],
         [[[1, 0], [1, 2, 0], [1, 2, 3, 0], [1, 2, 4, 3, 0], [1, 3, 0],
           [1, 3, 2, 0], [1, 3, 4, 2, 0], [1, 4, 2, 0], [1, 4, 2, 3, 0],
           [1, 4, 3, 0], [1, 4, 3, 2, 0]],
          [],
          [[1, 0, 2], [1, 0, 3, 2], [1, 0, 3, 4, 2], [1, 2], [1, 3, 0, 2],
           [1, 3, 2], [1, 3, 4, 2], [1, 4, 2], [1, 4, 3, 0, 2], [1, 4, 3, 2]]],
         [[[2, 0], [2, 1, 0], [2, 1, 3, 0], [2, 1, 4, 3, 0], [2, 3, 0],
           [2, 3, 1, 0], [2, 3, 4, 1, 0], [2, 4, 1, 0], [2, 4, 1, 3, 0],
           [2, 4, 3, 0], [2, 4, 3, 1, 0]],
          [[2, 0, 1], [2, 0, 3, 1], [2, 0, 3, 4, 1], [2, 1], [2, 3, 0, 1],
           [2, 3, 1], [2, 3, 4, 1], [2, 4, 1], [2, 4, 3, 0, 1], [2, 4, 3, 1]],
          []]],
      conf_n = 5, conf_r = 3,
      VtoV = triangle5_adj,
      dist =
        [[0, 1, 1, 1, 2], [1, 0, 1, 1, 1], [1, 1, 0, 1, 1], [1, 1, 1, 0, 1], [2, 1, 1, 1, 0]]\<rparr>"

text \<open>
  The example is the configuration that the constructor builds from this adjacency, the
  adjacency is that of an undirected graph without loops, and the edge \<open>(1, 4)\<close> can be
  contracted.
\<close>

lemma triangle5_constructed: "new_Configuration 5 3 triangle5_adj = Some triangle5"
  by code_simp

lemma triangle5_graph_ok: "graph_ok 5 3 triangle5_adj"
  by code_simp

lemma triangle5_simple: "simple_graph 5 triangle5_adj"
  by code_simp

lemma triangle5_built: "built 5 3 triangle5_adj [] = Some triangle5"
  by (simp add: built_def triangle5_constructed)

lemma triangle5_contract_14: "setContract triangle5 [(1, 4)] \<noteq> None"
  by code_simp

lemma triangle5_built_14: "built 5 3 triangle5_adj [[(1, 4)]] \<noteq> None"
  using triangle5_contract_14 by (simp add: built_def triangle5_constructed)

text \<open>
  A square ring \<open>0, 1, 2, 3\<close> around one interior vertex \<open>4\<close>, as the input file
  \<^verbatim>\<open>5 4 / 5 4 1 2 3 4\<close> describes it; \<open>wheel4_contracted\<close> is this configuration inside
  \<^verbatim>\<open>setContract\<close>, after the contraction of the four edges between \<open>0, 1, 3, 4\<close>, when the
  contracted distances have been assigned.
\<close>

definition wheel4_adj :: "nat list list" where
  "wheel4_adj = [[1, 3, 4], [0, 2, 4], [1, 3, 4], [0, 2, 4], [0, 1, 2, 3]]"

definition wheel4 :: Configuration where
  "wheel4 =
    \<lparr>contract = [],
       is_reductable_inside = [False, False, False, False, False],
       is_reductable_outside6 = [False, False, False, False, False],
       is_reductable_outside7 = [False, False, False, False, False],
       dist_contracted =
         [[0, 1, 2, 1, 1], [1, 0, 1, 2, 1], [2, 1, 0, 1, 1], [1, 2, 1, 0, 1],
          [1, 1, 1, 1, 0]],
       representative = [0, 1, 2, 3, 4],
       length6 = [[0, 1, 2, 3], [3, 0, 1, 2], [2, 3, 0, 1], [1, 2, 3, 0]],
       length_oneedge6 =
         [[0, 1, 2, 3], [3, 0, 1, 2], [2, 3, 0, 1], [1, 2, 3, 0]],
       length7 = [[0, 1, 2, 3], [3, 0, 1, 2], [2, 3, 0, 1], [1, 2, 3, 0]],
       length_oneedge7 =
         [[0, 1, 2, 3], [3, 0, 1, 2], [2, 3, 0, 1], [1, 2, 3, 0]],
       all_paths =
         [[[],
           [[0, 1], [0, 3, 2, 1], [0, 3, 2, 4, 1], [0, 3, 4, 1],
            [0, 3, 4, 2, 1], [0, 4, 1], [0, 4, 2, 1], [0, 4, 3, 2, 1]],
           [[0, 1, 2], [0, 1, 4, 2], [0, 1, 4, 3, 2], [0, 3, 2],
            [0, 3, 4, 1, 2], [0, 3, 4, 2], [0, 4, 1, 2], [0, 4, 2],
            [0, 4, 3, 2]],
           [[0, 1, 2, 3], [0, 1, 2, 4, 3], [0, 1, 4, 2, 3], [0, 1, 4, 3],
            [0, 3], [0, 4, 1, 2, 3], [0, 4, 2, 3], [0, 4, 3]]],
          [[[1, 0], [1, 2, 3, 0], [1, 2, 3, 4, 0], [1, 2, 4, 0],
            [1, 2, 4, 3, 0], [1, 4, 0], [1, 4, 2, 3, 0], [1, 4, 3, 0]],
           [],
           [[1, 0, 3, 2], [1, 0, 3, 4, 2], [1, 0, 4, 2], [1, 0, 4, 3, 2],
            [1, 2], [1, 4, 0, 3, 2], [1, 4, 2], [1, 4, 3, 2]],
           [[1, 0, 3], [1, 0, 4, 2, 3], [1, 0, 4, 3], [1, 2, 3],
            [1, 2, 4, 0, 3], [1, 2, 4, 3], [1, 4, 0, 3], [1, 4, 2, 3],
            [1, 4, 3]]],
          [[[2, 1, 0], [2, 1, 4, 0], [2, 1, 4, 3, 0], [2, 3, 0], [2, 3, 4, 0],
            [2, 3, 4, 1, 0], [2, 4, 0], [2, 4, 1, 0], [2, 4, 3, 0]],
           [[2, 1], [2, 3, 0, 1], [2, 3, 0, 4, 1], [2, 3, 4, 0, 1],
            [2, 3, 4, 1], [2, 4, 0, 1], [2, 4, 1], [2, 4, 3, 0, 1]],
           [],
           [[2, 1, 0, 3], [2, 1, 0, 4, 3], [2, 1, 4, 0, 3], [2, 1, 4, 3],
            [2, 3], [2, 4, 0, 3], [2, 4, 1, 0, 3], [2, 4, 3]]],
          [[[3, 0], [3, 2, 1, 0], [3, 2, 1, 4, 0], [3, 2, 4, 0],
            [3, 2, 4, 1, 0], [3, 4, 0], [3, 4, 1, 0], [3, 4, 2, 1, 0]],
           [[3, 0, 1], [3, 0, 4, 1], [3, 0, 4, 2, 1], [3, 2, 1],
            [3, 2, 4, 0, 1], [3, 2, 4, 1], [3, 4, 0, 1], [3, 4, 1],
            [3, 4, 2, 1]],
           [[3, 0, 1, 2], [3, 0, 1, 4, 2], [3, 0, 4, 1, 2], [3, 0, 4, 2],
            [3, 2], [3, 4, 0, 1, 2], [3, 4, 1, 2], [3, 4, 2]],
           []]],
       conf_n = 5, conf_r = 4,
       VtoV = wheel4_adj,
       dist =
         [[0, 1, 2, 1, 1], [1, 0, 1, 2, 1], [2, 1, 0, 1, 1], [1, 2, 1, 0, 1],
          [1, 1, 1, 1, 0]]\<rparr>"

lemma wheel4_constructed: "new_Configuration 5 4 wheel4_adj = Some wheel4"
  by code_simp

definition wheel4_star :: "(nat \<times> nat) list" where
  "wheel4_star = [(0, 1), (0, 3), (0, 4), (1, 4)]"

definition wheel4_contracted :: Configuration where
  "wheel4_contracted =
     wheel4\<lparr>contract := wheel4_star,
            dist_contracted :=
              [[0, 0, 1, 0, 0], [0, 0, 1, 0, 0], [1, 1, 0, 1, 1], [0, 0, 1, 0, 0],
               [0, 0, 1, 0, 0]]\<rparr>"

lemma wheel4_contracted_WF:
  "WF (wheel4\<lparr>contract := wheel4_star\<rparr>) True = Some (dist_contracted wheel4_contracted)"
  by code_simp

text \<open>
  An adjacency that is not the one of an undirected graph: the input file
  \<^verbatim>\<open>5 3 / 4 2 1 5 / 5 1 2\<close> declares the interior vertex \<open>4\<close> as a neighbour of the interior
  vertex \<open>3\<close> and not \<open>3\<close> as a neighbour of \<open>4\<close>, and the reader adds the reverse direction
  only for edges that end on the ring.
\<close>

definition oneway5_adj :: "nat list list" where
  "oneway5_adj = [[1, 2, 3], [0, 2, 4], [0, 1], [0, 4], [1]]"

text \<open>
  A line of \<open>n\<close> vertices \<open>0 - 1 - 2 - ...\<close>, which the reader builds for ring size 2 from
  interior vertices that each declare their two neighbours; and a number of vertices
  just above the sentinel \<^verbatim>\<open>INF = 10000\<close>.
\<close>

definition line_adj :: "nat \<Rightarrow> nat list list" where
  "line_adj n = map (\<lambda>v. (if v = 0 then [] else [v - 1]) @ (if v + 1 < n then [v + 1] else [])) [0..<n]"

definition long_n :: nat where
  "long_n = 10002"

lemma line_adj_nbr:
  assumes "v < n" "u \<in> set (line_adj n ! v)"
  shows "u < n" "u \<le> v + 1"
  using assms by (auto simp: line_adj_def split: if_splits)

lemma line_adj_next: "v + 1 < n \<Longrightarrow> v + 1 \<in> set (line_adj n ! v)"
  by (simp add: line_adj_def)

lemma line_adj_graph_ok: "r \<le> n \<Longrightarrow> graph_ok n r (line_adj n)"
  unfolding graph_ok_def list_all_iff
proof (intro conjI ballI)
  show "length (line_adj n) = n" by (simp add: line_adj_def)
next
  fix xs u assume "xs \<in> set (line_adj n)" "u \<in> set xs"
  then obtain v where "v < n" "xs = line_adj n ! v"
    by (auto simp: in_set_conv_nth line_adj_def)
  then show "u < n" using line_adj_nbr(1) \<open>u \<in> set xs\<close> by blast
qed simp

lemma line_walk_reach:
  "walk_ok (line_adj n) p \<Longrightarrow> p \<noteq> [] \<Longrightarrow> hd p < n \<Longrightarrow> last p < n \<and> last p + 1 \<le> hd p + length p"
proof (induction p rule: rev_induct)
  case Nil
  then show ?case by simp
next
  case (snoc x q)
  show ?case
  proof (cases "q = []")
    case True
    then show ?thesis using snoc.prems by simp
  next
    case False
    then have q: "walk_ok (line_adj n) q" "x \<in> set (line_adj n ! last q)" "hd q < n"
      using snoc.prems by (simp_all add: walk_ok_snoc)
    have ih: "last q < n" "last q + 1 \<le> hd q + length q" using snoc.IH[OF q(1) False q(3)] by auto
    from line_adj_nbr[OF ih(1) q(2)] ih(2) False show ?thesis by simp
  qed
qed

lemma line_walk_upt: "b \<le> n \<Longrightarrow> walk_ok (line_adj n) [a..<b]"
proof (induction b)
  case 0
  then show ?case by simp
next
  case (Suc b)
  show ?case
  proof (cases "a < b")
    case True
    then have "[a..<Suc b] = [a..<b] @ [b]" by simp
    moreover have "[a..<b] \<noteq> []" "last [a..<b] = b - 1" using True by simp_all
    moreover have "b \<in> set (line_adj n ! (b - 1))"
      using line_adj_next[of "b - 1" n] True Suc.prems by simp
    ultimately show ?thesis using Suc by (simp add: walk_ok_snoc)
  next
    case False
    then have "[a..<Suc b] = [] \<or> [a..<Suc b] = [b]" by (cases "a = b") simp_all
    then show ?thesis by auto
  qed
qed

lemma line_far_empty:
  assumes n: "INF_const + 2 \<le> int n" and c: "conf_n c = n" "VtoV c = line_adj n"
  shows "shortestPaths c 0 (n - 1) False = Some []"
proof -
  have n0: "0 < n" "n - 1 < n" using n by (simp_all add: INF_const_def)
  have rng: "\<forall>v<n. \<forall>u\<in>set (line_adj n ! v). u < n" using line_adj_nbr(1) by blast
  obtain ds where ds: "sp_dist_loop (line_adj n) {} ((replicate n INF_const)[0 := 0]) [0] = Some ds"
    "length ds = n" "dist_final (line_adj n) {} 0 ds"
    using sp_dist_loop_inv[OF dist_inv_init[OF rng n0(1), of "{}"]] by (auto simp: dist_final_def)
  obtain paths where paths:
    "sp_paths_loop (line_adj n) {} ds ((replicate n [])[0 := [[0]]]) [0] = Some paths"
    "length paths = n" "paths_inv (line_adj n) {} ds 0 paths []"
    using sp_paths_loop_inv[OF paths_inv_init[OF rng n0(1), of "{}" ds]] by auto
  have "paths ! (n - 1) = []"
  proof (rule ccontr)
    assume "paths ! (n - 1) \<noteq> []"
    then obtain p where "p \<in> set (paths ! (n - 1))" by (cases "paths ! (n - 1)") auto
    then have g: "good_path (line_adj n) {} ds 0 (n - 1) p"
      using paths(2,3) n0(2) by (simp add: paths_inv_def)
    then have p: "p \<noteq> []" "hd p = 0" "last p = n - 1" "tight_walk (line_adj n) {} ds p"
      by (simp_all add: good_path_def)
    have "last p + 1 \<le> hd p + length p"
      using line_walk_reach[OF tight_walk_ok[OF p(4)] p(1)] p(2) n0(1) by simp
    then have len: "n \<le> length p" using p(2,3) n0(1) by simp
    have "ds ! (n - 1) = int (length p) - 1"
      using tight_walk_unit[OF p(4) p(1)] p(2,3) dist_final_zero[OF ds(3)] by simp
    moreover have "ds ! (n - 1) \<le> INF_const"
      using ds(2,3) n0(2) by (simp add: dist_final_def dist_inv_def realizable_def)
    ultimately show False using len n by simp
  qed
  then show ?thesis
    using ds(1) paths(1) c n0 by (simp add: shortestPaths_def Let_def contract_set_def unique_paths_def)
qed

lemma line_path_shortest:
  assumes "0 < n"
  shows "distinct [0..<n] \<and> shortest_walk (line_adj n) {} 0 (n - 1) [0..<n]"
proof -
  have ne: "[0..<n] \<noteq> []" using assms by simp
  have hd: "hd [0..<n] = 0" using assms by (simp add: hd_upt)
  have la: "last [0..<n] = n - 1" using assms by (simp add: last_upt)
  have st: "st_walk (line_adj n) 0 (n - 1) [0..<n]"
    unfolding st_walk_def using ne hd la line_walk_upt[of n n 0] by simp
  have "walk_w {} [0..<n] \<le> walk_w {} q" if q: "st_walk (line_adj n) 0 (n - 1) q" for q
  proof -
    have qq: "q \<noteq> []" "hd q = 0" "last q = n - 1" "walk_ok (line_adj n) q"
      using q by (simp_all add: st_walk_def)
    have "last q + 1 \<le> hd q + length q"
      using line_walk_reach[OF qq(4,1)] qq(2) assms by simp
    then have "n \<le> length q" using qq(2,3) assms by simp
    then show ?thesis using walk_w_unit[OF ne] walk_w_unit[OF qq(1)] by simp
  qed
  then show ?thesis using st by (simp add: shortest_walk_def)
qed

lemma triangle5_loopfree: "list_all (\<lambda>v. v \<notin> set (triangle5_adj ! v)) [0..<5]"
  by code_simp

section \<open>Properties\<close>

subsection \<open>The forbidden-cut table\<close>

text \<open>
  C2 (amended).  \<^verbatim>\<open>isForbiddenCut(k, c)\<close> is true iff (\<open>k \<le> 4\<close> and \<open>c > 0\<close>) or (\<open>k = 5\<close>
  and \<open>c > 1\<close>) or (\<open>k = 6\<close> and \<open>c > 3\<close>) or (\<open>k = 7\<close> and \<open>c > 4\<close>), and false in every
  other case: the first row covers every cut size up to 4, also those below 2.  Hence
  \<^verbatim>\<open>isForbiddenCut(k, 0)\<close> is false for every \<open>k\<close>, and \<^verbatim>\<open>isForbiddenCut(4, 1)\<close> is true.
\<close>

theorem isForbiddenCut_table:
  "isForbiddenCut k csize =
     ((k \<le> 4 \<and> csize > 0) \<or> (k = 5 \<and> csize > 1) \<or> (k = 6 \<and> csize > 3) \<or> (k = 7 \<and> csize > 4))
   \<and> isForbiddenCut k 0 = False \<and> isForbiddenCut 4 1 = True"
  by (simp add: isForbiddenCut_def)

text \<open>
  C2 as stated fails below cut size 2: a cut of size 1 with a component of size 1 is
  forbidden by the code, and not by the table of the specification.
\<close>

theorem isForbiddenCut_spec_counterexample:
  "isForbiddenCut 1 1 \<and> \<not> isForbiddenCut_spec 1 1"
  by (simp add: isForbiddenCut_def isForbiddenCut_spec_def)


subsection \<open>\<^verbatim>\<open>canBeAlmostMinimal\<close>\<close>

lemma path_edges_nth:
  "path_edges R = map (\<lambda>i. (R ! i, R ! (i + 1))) [0..<length R - 1]"
  by (rule nth_equalityI) (simp_all add: path_edges_def nth_tl)

lemma number_in_ring_edges:
  "number_in_ring c R = int (length (filter (ring_edge c) (path_edges R)))"
proof -
  have "filter (ring_edge c) (path_edges R) =
        map (\<lambda>i. (R ! i, R ! (i + 1)))
            (filter (\<lambda>i. R ! i < conf_r c \<and> R ! (i + 1) < conf_r c) [0..<length R - 1])"
    by (simp add: path_edges_nth filter_map comp_def ring_edge_def)
  then show ?thesis by (simp add: number_in_ring_def)
qed

lemma deviations_number_in_ring:
  "deviations c R = int (length R - 1) - number_in_ring c R"
proof -
  have "length (filter (ring_edge c) (path_edges R))
          + length (filter (\<lambda>e. \<not> ring_edge c e) (path_edges R)) = length (path_edges R)"
    by (rule sum_length_filter_compl)
  moreover have "length (path_edges R) = length R - 1" by (simp add: path_edges_def)
  ultimately show ?thesis by (simp add: deviations_def number_in_ring_edges)
qed

lemma all_ring_edges_iff:
  "list_all (ring_edge c) (path_edges R) \<longleftrightarrow> number_in_ring c R = int (length R - 1)"
proof -
  have "list_all (ring_edge c) (path_edges R) \<longleftrightarrow>
        length (filter (ring_edge c) (path_edges R)) = length (path_edges R)"
    by (metis filter_id_conv length_filter_le list_all_iff filter_True order_antisym_conv
          length_filter_less not_less_iff_gr_or_eq)
  moreover have "length (path_edges R) = length R - 1" by (simp add: path_edges_def)
  ultimately show ?thesis by (simp add: number_in_ring_edges)
qed

text \<open>
  C3 (amended).  For a path \<open>R\<close> with at least one edge whose two ends are ring vertices,
  for \<open>k \<ge> 0\<close> with \<open>|R| + k\<close> in the range of \<^verbatim>\<open>int\<close>, and for \<open>C = 6\<close> or \<open>C = 7\<close>:
  \<^verbatim>\<open>canBeAlmostMinimal(R, k, C)\<close> returns true iff every edge of \<open>R\<close> is a ring edge and
  \<open>|R| + k \<ge> 6\<close>, or at most 3 edges of \<open>R\<close> are not ring edges and \<open>|R| + k = 7\<close> and
  \<open>C = 6\<close>; it returns false otherwise.
\<close>

theorem canBeAlmostMinimal_spec3:
  assumes "ring_ends c R" "2 \<le> length R" "0 \<le> k" "path_len R + k \<le> 2147483647"
    and "cutSize = 6 \<or> cutSize = 7"
  shows "canBeAlmostMinimal c R k cutSize = Some (almost_minimal_spec 3 c R k cutSize)"
proof -
  have len: "int (length R - 1) = int (length R) - 1" using assms(2) by simp
  have nn: "0 \<le> number_in_ring c R" by (simp add: number_in_ring_def)
  have "int32 (int (length R) - 1 + k) = int (length R) - 1 + k"
    by (rule int32_id) (use assms(2-4) in \<open>simp_all add: path_len_def\<close>)
  then show ?thesis
    using assms(1,2) nn
    by (auto simp: canBeAlmostMinimal_def Let_def almost_minimal_spec_def path_len_def
          all_ring_edges_iff deviations_number_in_ring len)
qed

theorem canBeAlmostMinimal_spec3_witness:
  "canBeAlmostMinimal triangle5 [0, 3, 4, 2] 4 6 =
     Some (almost_minimal_spec 3 triangle5 [0, 3, 4, 2] 4 6)"
  using canBeAlmostMinimal_spec3[of triangle5 "[0, 3, 4, 2]" 4 6]
  by (simp add: ring_ends_def triangle5_def path_len_def)

text \<open>
  C3 as stated fails for a path with exactly three edges off the ring: in the example
  configuration the path \<open>0, 3, 4, 2\<close> together with an outer path of length 4 gives a
  7-cycle, which the code accepts for \<open>C = 6\<close>.
\<close>

theorem canBeAlmostMinimal_spec2_counterexample:
  "canBeAlmostMinimal triangle5 [0, 3, 4, 2] 4 6 = Some True
   \<and> \<not> almost_minimal_spec 2 triangle5 [0, 3, 4, 2] 4 6"
  by (simp add: canBeAlmostMinimal_def number_in_ring_def ring_ends_def almost_minimal_spec_def
        triangle5_def path_edges_def path_len_def deviations_def ring_edge_def int32_def)

subsection \<open>The frame of \<^verbatim>\<open>setContract\<close>\<close>

text \<open>
  C10.  Whenever \<^verbatim>\<open>setContract\<close> completes, the vertex count \<open>n\<close>, the ring size \<open>r\<close>, the
  adjacency, the raw distance matrix, the path cache and the four length tables are
  the ones it started from, and the contraction list is the one passed in: only the
  contraction list, the contracted distances, the representatives and the three
  reductable masks are assigned.
\<close>

theorem setContract_frame:
  assumes "setContract c ct = Some c'"
  shows "conf_n c' = conf_n c \<and> conf_r c' = conf_r c \<and> VtoV c' = VtoV c \<and> dist c' = dist c \<and>
         all_paths c' = all_paths c \<and> length6 c' = length6 c \<and> length7 c' = length7 c \<and>
         length_oneedge6 c' = length_oneedge6 c \<and> length_oneedge7 c' = length_oneedge7 c \<and>
         contract c' = ct"
  using assms by (auto simp: setContract_def Let_def split: Option.bind_splits)

theorem setContract_frame_witness:
  "setContract triangle5 [(1, 4)] \<noteq> None \<and>
   conf_n (the (setContract triangle5 [(1, 4)])) = 5 \<and>
   conf_r (the (setContract triangle5 [(1, 4)])) = 3 \<and>
   VtoV (the (setContract triangle5 [(1, 4)])) = triangle5_adj \<and>
   dist (the (setContract triangle5 [(1, 4)])) = dist triangle5 \<and>
   all_paths (the (setContract triangle5 [(1, 4)])) = all_paths triangle5 \<and>
   length6 (the (setContract triangle5 [(1, 4)])) = length6 triangle5 \<and>
   length7 (the (setContract triangle5 [(1, 4)])) = length7 triangle5 \<and>
   length_oneedge6 (the (setContract triangle5 [(1, 4)])) = length_oneedge6 triangle5 \<and>
   length_oneedge7 (the (setContract triangle5 [(1, 4)])) = length_oneedge7 triangle5 \<and>
   contract (the (setContract triangle5 [(1, 4)])) = [(1, 4)]"
proof -
  have "setContract triangle5 [(1, 4)] = Some (the (setContract triangle5 [(1, 4)]))"
    using triangle5_contract_14 by simp
  from setContract_frame[OF this] triangle5_contract_14 show ?thesis
    by (simp add: triangle5_def)
qed

subsection \<open>\<^verbatim>\<open>checkShortCycle\<close>\<close>





subsection \<open>The length tables\<close>

text \<open>
  C4.  On a built configuration, for \<open>C = 6\<close> and \<open>C = 7\<close> and every ordered pair of distinct
  ring vertices \<open>(p, q)\<close>: if \<open>q = (p+1) mod r\<close> both table entries are 1; otherwise
  \<open>length_C[p][q]\<close> is the least \<open>k \<ge> 0\<close> with \<open>k > C\<close> or \<^verbatim>\<open>forbiddenCycle(p,q,k,C)\<close> false,
  and \<open>lengthOneEdge_C[p][q]\<close> is the least \<open>k \<ge> 1\<close> with \<open>k > C\<close> or
  \<^verbatim>\<open>forbiddenCycleOneEdge(p,q,k,C)\<close> false; both entries are at most \<open>C + 1\<close>.
\<close>

theorem length_tables_least:
  assumes "graph_ok n r adj" "built n r adj cts = Some c" "p < r" "q < r" "p \<noteq> q"
  shows "table_entries_ok c 6 (length6 c) (length_oneedge6 c) p q \<and>
         table_entries_ok c 7 (length7 c) (length_oneedge7 c) p q"
  using built_inv_built[OF assms(1,2)] assms(3-5) by (simp add: built_inv_def tables_ok_def)

theorem length_tables_least_witness:
  "table_entries_ok triangle5 6 (length6 triangle5) (length_oneedge6 triangle5) 0 2 \<and>
   table_entries_ok triangle5 7 (length7 triangle5) (length_oneedge7 triangle5) 0 2"
  using length_tables_least[OF triangle5_graph_ok triangle5_built, of 0 2] by simp

subsection \<open>When \<^verbatim>\<open>setContract\<close> completes\<close>

text \<open>
  C6 (amended).  On a built configuration and for a contraction list of pairs of
  vertices, \<^verbatim>\<open>setContract\<close> completes iff every pair names an edge of the adjacency that
  no earlier pair of the list names, in either direction; otherwise the run stops at
  the assertion in \<^verbatim>\<open>WF\<close>.
\<close>

theorem setContract_completes_iff:
  assumes "graph_ok n r adj" "built n r adj cts = Some c" "pairs_in_range n ct"
  shows "(setContract c ct \<noteq> None) = contract_valid adj [] ct \<and>
         (\<not> contract_valid adj [] ct \<longrightarrow> WF (c\<lparr>contract := ct\<rparr>) True = None)"
proof -
  have b: "built_inv n r adj c" by (rule built_inv_built[OF assms(1,2)])
  then have ok: "conf_ok c" and f: "conf_n c = n" "VtoV c = adj" by (simp_all add: built_inv_def)
  have rng: "\<forall>e\<in>set ct. fst e < conf_n c \<and> snd e < conf_n c"
    using assms(3) f by (simp add: pairs_in_range_def list_all_iff)
  show ?thesis using setContract_Some_iff[OF ok rng] f by auto
qed

theorem setContract_completes_iff_witness:
  "setContract triangle5 [(1, 4)] \<noteq> None \<and> contract_valid triangle5_adj [] [(1, 4)]"
proof -
  have "pairs_in_range 5 [(1, 4)]" by code_simp
  from setContract_completes_iff[OF triangle5_graph_ok triangle5_built this]
  have "(setContract triangle5 [(1, 4)] \<noteq> None) = contract_valid triangle5_adj [] [(1, 4)]" by simp
  moreover have "contract_valid triangle5_adj [] [(1, 4)]" by code_simp
  ultimately show ?thesis by simp
qed

text \<open>
  C6 as stated fails for a list that names an edge twice: the first pair sets the
  weight of the edge to 0, and the assertion in \<^verbatim>\<open>WF\<close> finds 0 instead of 1 at the second.
\<close>

theorem setContract_repeated_edge_counterexample:
  "all_pairs_edges triangle5_adj [(1, 4), (1, 4)] \<and> setContract triangle5 [(1, 4), (1, 4)] = None"
  by code_simp

subsection \<open>The contracted distances\<close>

text \<open>
  C8 (amended).  For a configuration built from an adjacency that is the one of an
  undirected graph without loops (every edge is listed at both ends, no vertex is its
  own neighbour), after construction and after every \<^verbatim>\<open>setContract\<close> that completes (with
  pairs of vertices): \<open>distContracted[u][v] = distContracted[v][u]\<close>,
  \<open>distContracted[v][v] = 0\<close>, and
  \<open>distContracted[u][w] \<le> distContracted[u][v] + distContracted[v][w]\<close>, for all vertices.
\<close>

theorem distContracted_is_metric:
  assumes "graph_ok n r adj" "simple_graph n adj" "list_all (pairs_in_range n) cts"
    and "built n r adj cts = Some c"
  shows "is_metric n (dist_contracted c)"
proof -
  obtain c0 where c0: "new_Configuration n r adj = Some c0" "setContracts c0 cts = Some c"
    using assms(4) by (auto simp: built_def split: Option.bind_splits)
  note f = new_Configuration_fields[OF c0(1)]
  have b0: "built_inv n r adj c0"
    using built_inv_built[OF assms(1), of "[]" c0] c0(1) by (simp add: built_def)
  have "WF c0 False = Some (dist_contracted c0)" using f by (simp add: WF_False_Some)
  then have "is_metric (conf_n c0) (dist_contracted c0)"
    by (rule WF_is_metric[rotated 3]) (use assms f in auto)
  then have "is_metric n (dist_contracted c0)" using f by simp
  then show ?thesis by (rule is_metric_setContracts[OF assms(1,2) b0 _ assms(3) c0(2)])
qed

theorem distContracted_is_metric_witness:
  "is_metric 5 (dist_contracted (the (built 5 3 triangle5_adj [[(1, 4)]])))"
proof -
  have r: "list_all (pairs_in_range 5) [[(1, 4)]]" by code_simp
  obtain c where c: "built 5 3 triangle5_adj [[(1, 4)]] = Some c"
    using triangle5_built_14 by auto
  show ?thesis
    using distContracted_is_metric[OF triangle5_graph_ok triangle5_simple r c] c by simp
qed

text \<open>
  C8 as stated fails for configurations that the constructor accepts and the reader
  builds.  With one ring vertex the reader makes the vertex its own neighbour, and its
  distance to itself is 1.  With the one-way adjacency above the distance from \<open>3\<close> to
  \<open>4\<close> is 1 and the distance from \<open>4\<close> to \<open>3\<close> is 3.
\<close>

theorem distContracted_not_metric_counterexample:
  "dist_contracted_after 1 1 [[0]] [] = Some [[1]] \<and> \<not> is_metric 1 [[1]] \<and>
   dist_contracted_after 5 3 oneway5_adj [] =
     Some [[0, 1, 1, 1, 2], [1, 0, 1, 2, 1], [1, 1, 0, 2, 2], [1, 2, 2, 0, 1], [2, 1, 2, 3, 0]] \<and>
   \<not> is_metric 5 [[0, 1, 1, 1, 2], [1, 0, 1, 2, 1], [1, 1, 0, 2, 2], [1, 2, 2, 0, 1], [2, 1, 2, 3, 0]]"
proof -
  have 1: "dist_contracted_after 1 1 [[0]] [] = Some [[1]]" by code_simp
  have 2: "\<not> is_metric 1 [[1]]" by (simp add: is_metric_def)
  have 3: "dist_contracted_after 5 3 oneway5_adj [] =
     Some [[0, 1, 1, 1, 2], [1, 0, 1, 2, 1], [1, 1, 0, 2, 2], [1, 2, 2, 0, 1], [2, 1, 2, 3, 0]]"
    by code_simp
  have 4: "\<not> is_metric 5 [[0, 1, 1, 1, 2], [1, 0, 1, 2, 1], [1, 1, 0, 2, 2], [1, 2, 2, 0, 1], [2, 1, 2, 3, 0]]"
  proof
    assume "is_metric 5 [[0, 1, 1, 1, 2], [1, 0, 1, 2, 1], [1, 1, 0, 2, 2], [1, 2, 2, 0, 1], [2, 1, 2, 3, 0]]"
    then have "\<forall>u<5. \<forall>v<5.
        [[0, 1, 1, 1, 2], [1, 0, 1, 2, 1], [1, 1, 0, 2, 2], [1, 2, 2, 0, 1], [2, 1, 2, 3, 0::int]] ! u ! v =
        [[0, 1, 1, 1, 2], [1, 0, 1, 2, 1], [1, 1, 0, 2, 2], [1, 2, 2, 0, 1], [2, 1, 2, 3, 0]] ! v ! u"
      unfolding is_metric_def by blast
    from this[rule_format, of 3 4] show False by simp
  qed
  from 1 2 3 4 show ?thesis by blast
qed

subsection \<open>The reductable masks\<close>

text \<open>
  C7 (amended).  Inside one run of \<^verbatim>\<open>setContract\<close> no entry of a mask is ever unset: every
  step over a cut (for the inside mask) and each of the four passes of
  \<^verbatim>\<open>calcReductableVertices\<close> (for the outside masks) returns a mask in which every entry
  that was true is still true.  Between two contraction lists, one containing the
  other, no such relation holds.
\<close>

theorem masks_never_unset:
  assumes "cut_step c' is_ring cut_vs isr = Some isr'"
    and "calcReductableVertices1 c cutSize isr0 = Some isr1"
    and "calcReductableVertices2 c cutSize isr1 = Some isr2"
    and "calcReductableVertices3 c cutSize isr2 = Some isr3"
    and "calcReductableVertices4 c cutSize isr3 = Some isr4"
  shows "mask_le isr isr' \<and> mask_le isr0 isr1 \<and> mask_le isr1 isr2 \<and> mask_le isr2 isr3 \<and>
         mask_le isr3 isr4"
  using assms grows_cut_step[of c' is_ring cut_vs isr]
    grows_calcReductableVertices1[of c cutSize isr0] grows_calcReductableVertices2[of c cutSize isr1]
    grows_calcReductableVertices3[of c cutSize isr2] grows_calcReductableVertices4[of c cutSize isr3]
  by (simp add: grows_def)

lemma triangle5_cut_012:
  "cut_step triangle5 (calc_is_ring triangle5) [2, 1, 0] [False, False, False, False, False] =
     Some [False, False, False, True, True]"
  by code_simp

lemma wheel4_pass1:
  "calcReductableVertices1 wheel4_contracted 6 [False, False, False, False, False] =
     Some [False, False, True, False, False]"
  by code_simp

lemma wheel4_pass2:
  "calcReductableVertices2 wheel4_contracted 6 [False, False, True, False, False] =
     Some [False, False, True, False, False]"
  by code_simp

lemma wheel4_pass3:
  "calcReductableVertices3 wheel4_contracted 6 [False, False, True, False, False] =
     Some [False, False, True, False, False]"
  by code_simp

lemma wheel4_pass4:
  "calcReductableVertices4 wheel4_contracted 6 [False, False, True, False, False] =
     Some [False, False, True, False, False]"
  by code_simp

theorem masks_never_unset_witness:
  "mask_le [False, False, False, False, False] [False, False, False, True, True] \<and>
   mask_le [False, False, False, False, False] [False, False, True, False, False] \<and>
   mask_le [False, False, True, False, False] [False, False, True, False, False]"
  using masks_never_unset[OF triangle5_cut_012 wheel4_pass1 wheel4_pass2 wheel4_pass3 wheel4_pass4]
  by simp

text \<open>
  C7 as stated fails for each of the three masks.  In the triangle example the interior
  vertex \<open>4\<close> is cut off from the ring by \<open>0, 1, 2\<close> and is reductable inside with no
  contraction; once the edge \<open>(1, 4)\<close> is contracted, \<open>4\<close> counts as a ring vertex and is
  not.  In the square wheel, contracting the four edges between \<open>0, 1, 3, 4\<close> marks the
  ring vertex \<open>2\<close> in both outside masks; contracting \<open>(1, 2)\<close> as well identifies \<open>2\<close>
  with the vertices of the paths, and it is not marked.
\<close>

theorem masks_not_monotone_counterexample:
  "masks_after triangle5 [] =
     Some ([False, False, False, True, True], [False, False, False, False, False],
           [False, False, False, False, False]) \<and>
   masks_after triangle5 [(1, 4)] =
     Some ([False, False, False, True, False], [False, False, False, False, False],
           [False, False, False, False, False]) \<and>
   masks_after wheel4 [(0, 1), (0, 3), (0, 4), (1, 4)] =
     Some ([False, False, False, False, False], [False, False, True, False, False],
           [False, False, True, False, False]) \<and>
   masks_after wheel4 [(0, 1), (0, 3), (0, 4), (1, 4), (1, 2)] =
     Some ([False, False, False, False, False], [False, False, False, False, False],
           [False, False, False, False, False])"
  by code_simp

subsection \<open>\<^verbatim>\<open>shortestPaths\<close>\<close>

text \<open>
  C9 (amended).  On a configuration with at most 10001 vertices (the sentinel \<^verbatim>\<open>INF\<close>
  plus one, so that no simple walk weighs more than the sentinel), for
  every pair of vertices \<open>s\<close>, \<open>t\<close> and every flag, \<^verbatim>\<open>shortestPaths(s, t, flag)\<close> returns, and
  it returns exactly the simple walks from \<open>s\<close> to \<open>t\<close> of least weight (a step along a
  contracted edge weighs 0 when the flag is set, every other step 1), each of them once.
\<close>

theorem shortestPaths_exact:
  assumes "graph_ok (conf_n c) (conf_r c) (VtoV c)" "int (conf_n c) \<le> INF_const + 1"
    and "s < conf_n c" "t < conf_n c"
  shows "\<exists>ps. shortestPaths c s t flag = Some ps \<and> distinct ps \<and>
              set ps = {p. distinct p \<and> shortest_walk (VtoV c) (contract_set c flag) s t p}"
proof -
  have rng: "\<forall>v<conf_n c. \<forall>u\<in>set (VtoV c ! v). u < conf_n c"
    using assms(1) by (auto dest: graph_ok_nbr)
  from sp_main[OF rng assms(2-4), of "contract_set c flag"]
  obtain ds paths where
    r: "sp_dist_loop (VtoV c) (contract_set c flag) ((replicate (conf_n c) INF_const)[s := 0]) [s] = Some ds"
       "sp_paths_loop (VtoV c) (contract_set c flag) ds ((replicate (conf_n c) [])[s := [[s]]]) [s] = Some paths"
       "distinct (paths ! t)"
       "set (paths ! t) = {p. distinct p \<and> shortest_walk (VtoV c) (contract_set c flag) s t p}"
    by blast
  have "shortestPaths c s t flag = Some (unique_paths (paths ! t))"
    using r(1,2) assms(3,4) by (simp add: shortestPaths_def Let_def)
  then show ?thesis using r(3,4) by (simp add: unique_paths_distinct)
qed

lemma triangle5_paths_0_4:
  "shortestPaths triangle5 0 4 False = Some [[0, 1, 4], [0, 2, 4], [0, 3, 4]]"
  by code_simp

theorem shortestPaths_exact_witness:
  "shortestPaths triangle5 0 4 False = Some [[0, 1, 4], [0, 2, 4], [0, 3, 4]] \<and>
   {p. distinct p \<and> shortest_walk triangle5_adj {} 0 4 p} = {[0, 1, 4], [0, 2, 4], [0, 3, 4]}"
proof -
  have f: "conf_n triangle5 = 5" "conf_r triangle5 = 3" "VtoV triangle5 = triangle5_adj"
    "contract_set triangle5 False = {}"
    by (simp_all add: triangle5_def contract_set_def)
  have g: "graph_ok (conf_n triangle5) (conf_r triangle5) (VtoV triangle5)"
    using triangle5_graph_ok by (simp only: f)
  have n: "int (conf_n triangle5) \<le> INF_const + 1" "0 < conf_n triangle5" "4 < conf_n triangle5"
    by (simp_all only: f) (simp_all add: INF_const_def)
  from shortestPaths_exact[OF g n, of False]
  obtain ps where ps: "shortestPaths triangle5 0 4 False = Some ps"
    "set ps = {p. distinct p \<and> shortest_walk triangle5_adj {} 0 4 p}"
    unfolding f by blast
  have "ps = [[0, 1, 4], [0, 2, 4], [0, 3, 4]]" using ps(1) by (simp add: triangle5_paths_0_4)
  then have "set ps = {[0, 1, 4], [0, 2, 4], [0, 3, 4]}" by simp
  then show ?thesis using ps(2) triangle5_paths_0_4 by simp
qed

text \<open>
  C9 as stated fails beyond the sentinel.  On a line of 10002 vertices the last vertex is
  at distance 10001 from the first; the first loop leaves every label at most at
  \<^verbatim>\<open>INF = 10000\<close>, so no chain of tight steps reaches the last vertex, and the result is
  empty although the line itself is a simple shortest walk.
\<close>

theorem shortestPaths_sentinel_counterexample:
  "shortestPaths_after long_n 2 (line_adj long_n) [] 0 (long_n - 1) False = Some [] \<and>
   distinct [0..<long_n] \<and>
   shortest_walk (line_adj long_n) {} 0 (long_n - 1) [0..<long_n]"
proof -
  have n: "INF_const + 2 \<le> int long_n" "0 < long_n" "2 \<le> long_n"
    by (simp_all add: long_n_def INF_const_def)
  obtain c where c: "new_Configuration long_n 2 (line_adj long_n) = Some c"
    "conf_n c = long_n" "VtoV c = line_adj long_n"
    using new_Configuration_tables[OF line_adj_graph_ok[OF n(3)]] by blast
  have "shortestPaths_after long_n 2 (line_adj long_n) [] 0 (long_n - 1) False =
        shortestPaths c 0 (long_n - 1) False"
    by (simp add: shortestPaths_after_def built_def c(1))
  then show ?thesis
    using line_far_empty[OF n(1) c(2,3)] line_path_shortest[OF n(2)] by simp
qed

subsection \<open>\<^verbatim>\<open>setContract\<close> with the empty list\<close>

text \<open>
  C5 (amended).  On a built configuration, after any calls of \<^verbatim>\<open>setContract\<close>, the call
  \<^verbatim>\<open>setContract([])\<close> completes and gives the same object as \<^verbatim>\<open>setContract([])\<close> right after
  construction.  Its contracted distances, its representatives and its two outside
  masks are those of the freshly constructed configuration, and the outside masks are
  all-false.  Its inside mask is what \<^verbatim>\<open>calcCutReduction\<close> computes on the freshly
  constructed configuration, which need not be all-false.  If no vertex is its own
  neighbour, every vertex is its own representative.
\<close>

theorem setContract_empty_resets:
  assumes "graph_ok n r adj" "built n r adj cts = Some c" "built n r adj [] = Some c0"
  shows "\<exists>c'. setContract c [] = Some c' \<and> setContract c0 [] = Some c' \<and>
     dist_contracted c' = dist_contracted c0 \<and> representative c' = representative c0 \<and>
     is_reductable_outside6 c' = is_reductable_outside6 c0 \<and>
     is_reductable_outside7 c' = is_reductable_outside7 c0 \<and>
     list_all (\<lambda>b. \<not> b) (is_reductable_outside6 c') \<and>
     list_all (\<lambda>b. \<not> b) (is_reductable_outside7 c') \<and>
     calcCutReduction c0 = Some (is_reductable_inside c') \<and>
     (list_all (\<lambda>v. v \<notin> set (adj ! v)) [0..<n] \<longrightarrow> representative c' = map int [0..<n])"
proof -
  have n0: "new_Configuration n r adj = Some c0" using assms(3) by (simp add: built_def split: Option.bind_splits)
  note f0 = new_Configuration_fields[OF n0]
  obtain c0' where c0': "new_Configuration n r adj = Some c0'" "same_frame c0' c"
    and d: "dist c = WF_loop (conf_n c) (WF_edges c)"
    using built_frame[OF assms(2)] by blast
  have sf: "same_frame c0 c" using c0' n0 by simp
  have f: "conf_n c = n" "conf_r c = r" "VtoV c = adj" "dist c = dist c0"
    using sf f0(1-3) by (simp_all add: same_frame_def)
  have d0: "dist c0 = WF_loop (conf_n c0) (WF_edges c0)" using f0(1,6) by simp
  have ok: "conf_ok c" using built_inv_built[OF assms(1,2)] by (simp add: built_inv_def)
  have ok0: "conf_ok c0" using built_inv_built[OF assms(1,3)] by (simp add: built_inv_def)
  obtain c' where c': "setContract c [] = Some c'"
    using setContract_Some_iff(1)[OF ok, of "[]"] by auto
  obtain c1 where c1: "setContract c0 [] = Some c1"
    using setContract_Some_iff(1)[OF ok0, of "[]"] by auto
  note e = setContract_empty[OF ok d c']
  note e0 = setContract_empty[OF ok0 d0 c1]
  have cc: "calcCutReduction (c\<lparr>contract := [], dist_contracted := dist c\<rparr>) =
            calcCutReduction (c0\<lparr>contract := [], dist_contracted := dist c0\<rparr>)"
    by (rule calcCutReduction_cong) (use f f0(1-3) in simp_all)
  have cr: "calcRepresentative (c\<lparr>contract := [], dist_contracted := dist c\<rparr>) =
            calcRepresentative (c0\<lparr>contract := [], dist_contracted := dist c0\<rparr>)"
    by (rule calcRepresentative_cong) (use f f0(1) in simp_all)
  have eq: "c' = c1"
    by (subst e(1), subst e0(1), rule Configuration.equality)
       (use sf cc cr in \<open>simp_all add: same_frame_def\<close>)
  have fields: "conf_n c' = n" "VtoV c' = adj" "dist_contracted c' = dist c"
    "is_reductable_outside6 c' = replicate n False"
    "is_reductable_outside7 c' = replicate n False"
    "representative c' = calcRepresentative (c\<lparr>contract := [], dist_contracted := dist c\<rparr>)"
    by (subst e(1), simp add: f)+
  have rep0: "calcRepresentative (c0\<lparr>contract := [], dist_contracted := dist c0\<rparr>) =
              calcRepresentative c0"
    by (rule calcRepresentative_cong) (simp_all add: f0(5))
  have in0: "calcCutReduction (c\<lparr>dist_contracted := dist c\<rparr>) = calcCutReduction c0"
    by (rule calcCutReduction_cong) (use f f0(1-3,5) in simp_all)
  have own: "representative c' = map int [0..<n]"
    if lf: "list_all (\<lambda>v. v \<notin> set (adj ! v)) [0..<n]"
  proof -
    have "calcRepresentative c' = map int [0..<n]"
    proof (rule raw_representative[OF fields(1)])
      have "WF_edges c' = WF_edges c" by (rule WF_edges_cong) (simp_all add: fields f)
      then show "dist_contracted c' = WF_loop n (WF_edges c')" using fields(3) d f(1) by simp
      show "list_all (\<lambda>v. v \<notin> set (VtoV c' ! v)) [0..<n]" using lf fields(2) by simp
    qed
    moreover have "calcRepresentative c' =
        calcRepresentative (c\<lparr>contract := [], dist_contracted := dist c\<rparr>)"
      by (rule calcRepresentative_cong) (simp_all add: fields f)
    ultimately show ?thesis using fields(6) by simp
  qed
  have "setContract c [] = Some c' \<and> setContract c0 [] = Some c'" using c' c1 eq by simp
  moreover have "dist_contracted c' = dist_contracted c0" using fields(3) f(4) f0(5) by simp
  moreover have "representative c' = representative c0" using fields(6) cr rep0 f0(10) by simp
  moreover have "is_reductable_outside6 c' = is_reductable_outside6 c0"
    "is_reductable_outside7 c' = is_reductable_outside7 c0"
    using fields(4,5) f0(8,9) by simp_all
  moreover have "list_all (\<lambda>b. \<not> b) (is_reductable_outside6 c')"
    "list_all (\<lambda>b. \<not> b) (is_reductable_outside7 c')"
    using fields(4,5) by (simp_all add: list_all_iff)
  moreover have "calcCutReduction c0 = Some (is_reductable_inside c')" using e(2) in0 by simp
  ultimately show ?thesis using own by blast
qed

theorem setContract_empty_resets_witness:
  "\<exists>c'. setContract (the (built 5 3 triangle5_adj [[(1, 4)]])) [] = Some c' \<and>
        setContract triangle5 [] = Some c' \<and>
        dist_contracted c' = dist_contracted triangle5 \<and>
        representative c' = map int [0..<5] \<and>
        list_all (\<lambda>b. \<not> b) (is_reductable_outside6 c') \<and>
        list_all (\<lambda>b. \<not> b) (is_reductable_outside7 c') \<and>
        calcCutReduction triangle5 = Some (is_reductable_inside c')"
proof -
  obtain c where c: "built 5 3 triangle5_adj [[(1, 4)]] = Some c"
    using triangle5_built_14 by auto
  from setContract_empty_resets[OF triangle5_graph_ok c triangle5_built] triangle5_loopfree c
  show ?thesis by auto
qed

text \<open>
  C5 as stated fails in two places.  In the triangle example the ring \<open>0, 1, 2\<close> cuts the
  interior vertices \<open>3\<close> and \<open>4\<close> off, and \<^verbatim>\<open>setContract([])\<close> marks them in the inside mask,
  which is all-false after construction.  With one ring vertex the reader makes the
  vertex its own neighbour, its distance to itself is 1, and it has no representative
  (\<open>-1\<close>).
\<close>

theorem setContract_empty_counterexample:
  "state_after 5 3 triangle5_adj [[(1, 4)], []] =
     Some ([[0, 1, 1, 1, 2], [1, 0, 1, 1, 1], [1, 1, 0, 1, 1], [1, 1, 1, 0, 1], [2, 1, 1, 1, 0]],
           [0, 1, 2, 3, 4], [False, False, False, True, True],
           [False, False, False, False, False], [False, False, False, False, False]) \<and>
   state_after 5 3 triangle5_adj [] =
     Some ([[0, 1, 1, 1, 2], [1, 0, 1, 1, 1], [1, 1, 0, 1, 1], [1, 1, 1, 0, 1], [2, 1, 1, 1, 0]],
           [0, 1, 2, 3, 4], [False, False, False, False, False],
           [False, False, False, False, False], [False, False, False, False, False]) \<and>
   state_after 1 1 [[0]] [[]] = Some ([[1]], [- 1], [False], [False], [False])"
  by code_simp

end
